(* ===== verification/Prelude.thy ===== *)
theory Prelude
  imports Main "HOL-Library.Signed_Division"
begin

text \<open>
  Shared vocabulary of the development: the result type in which every assertion, throw and
  out-of-range access of the source is a value, the C++ standard-library searches the code calls
  on character ranges, the association list that stands for a std::map, the overwriting of a range
  of a byte array, and the two interfaces (an ordered store, a transition system) against which the
  components are stated.
\<close>

named_theorems res_simps "unfolding rules of the result type"
named_theorems range_simps "facts on overwritten ranges of a byte array"

section \<open>Results\<close>

text \<open>
  The faults a run of the code can end in. \<open>Assert_failed\<close> is a failing assert of the source;
  the others are a throw of the standard library, a read of an indeterminate value, an access
  outside an object, and a LOG_FATAL / LOG_SYSFATAL (which aborts the process).
\<close>

datatype fault =
    Assert_failed
  | Invalid_argument
  | Out_of_range
  | Length_error
  | Uninitialised
  | Buffer_overflow
  | Null_pointer
  | Fatal

type_synonym 'a res = "fault + 'a"

definition rbind :: "'a res \<Rightarrow> ('a \<Rightarrow> 'b res) \<Rightarrow> 'b res" where
  "rbind r f = (case r of Inl e \<Rightarrow> Inl e | Inr x \<Rightarrow> f x)"

definition assert_c :: "bool \<Rightarrow> 'a res \<Rightarrow> 'a res" where
  "assert_c b r = (if b then r else Inl Assert_failed)"

lemma rbind_Inr [simp, res_simps]: "rbind (Inr x) f = f x"
  by (simp add: rbind_def)

lemma rbind_Inl [simp, res_simps]: "rbind (Inl e) f = Inl e"
  by (simp add: rbind_def)

lemma assert_c_True [simp, res_simps]: "assert_c True r = r"
  by (simp add: assert_c_def)

lemma assert_c_False [simp, res_simps]: "assert_c False r = Inl Assert_failed"
  by (simp add: assert_c_def)

lemma rbind_eq_InrE:
  assumes "rbind r f = Inr y"
  obtains x where "r = Inr x" and "f x = Inr y"
  using assms by (cases r) auto

lemma rbind_Inr_iff: "rbind r f = Inr y \<longleftrightarrow> (\<exists>x. r = Inr x \<and> f x = Inr y)"
  by (cases r) auto

lemma assert_c_Inr_iff: "assert_c b r = Inr y \<longleftrightarrow> b \<and> r = Inr y"
  by (simp add: assert_c_def)

lemma assert_c_eq_InrE:
  assumes "assert_c b r = Inr y"
  obtains "b" and "r = Inr y"
  using assms by (simp add: assert_c_def split: if_splits)

lemma rbind_assoc: "rbind (rbind r f) g = rbind r (\<lambda>x. rbind (f x) g)"
  by (cases r) auto

lemmas res_iffs = rbind_Inr_iff assert_c_Inr_iff

lemma sdiv_nonneg: "0 \<le> a \<Longrightarrow> 0 < b \<Longrightarrow> a sdiv b = a div b" for a b :: int
  by (simp add: signed_divide_int_def sgn_if)

lemma smod_nonneg: "0 \<le> a \<Longrightarrow> 0 < b \<Longrightarrow> a smod b = a mod b" for a b :: int
  by (simp add: signed_modulo_int_def sgn_if)

section \<open>C strings\<close>

text \<open>\<open>c_str\<close>: a function of the C library sees a string up to its first NUL character.\<close>

definition c_str :: "char list \<Rightarrow> char list" where
  "c_str s = takeWhile (\<lambda>c. c \<noteq> CHR 0x00) s"

lemma c_str_no_nul: "CHR 0x00 \<notin> set (c_str s)"
  by (auto simp: c_str_def dest: set_takeWhileD)

lemma c_str_id: "CHR 0x00 \<notin> set s \<Longrightarrow> c_str s = s"
  by (induction s) (auto simp: c_str_def)

section \<open>Searching a character range\<close>

text \<open>
  std::find returns the position of the first match, and the end of the range when there is none;
  std::search returns the position of the first occurrence of a pattern, here \<open>None\<close> for the end.
\<close>

fun std_find :: "'a \<Rightarrow> 'a list \<Rightarrow> nat" where
  "std_find c [] = 0"
| "std_find c (x # xs) = (if x = c then 0 else Suc (std_find c xs))"

fun std_search :: "'a list \<Rightarrow> 'a list \<Rightarrow> nat option" where
  "std_search p [] = (if p = [] then Some 0 else None)"
| "std_search p (x # xs) =
     (if take (length p) (x # xs) = p then Some 0 else map_option Suc (std_search p xs))"

lemma std_find_le: "std_find c xs \<le> length xs"
  by (induction xs) auto

lemma std_find_less_iff: "std_find c xs < length xs \<longleftrightarrow> c \<in> set xs"
  by (induction xs) auto

lemma std_find_eq_length_iff: "std_find c xs = length xs \<longleftrightarrow> c \<notin> set xs"
  using std_find_less_iff [of c xs] std_find_le [of c xs] by linarith

lemma std_find_append: "std_find c (xs @ ys) = (if c \<in> set xs then std_find c xs else length xs + std_find c ys)"
  by (induction xs) auto

lemma std_find_not_in [simp]: "c \<notin> set xs \<Longrightarrow> std_find c xs = length xs"
  by (simp add: std_find_eq_length_iff)

lemma std_find_hit: "c \<notin> set xs \<Longrightarrow> std_find c (xs @ c # ys) = length xs"
  by (simp add: std_find_append)

lemma std_find_nth: "c \<in> set xs \<Longrightarrow> xs ! std_find c xs = c"
  by (induction xs) auto

lemma take_std_find: "take (std_find c xs) xs = takeWhile (\<lambda>x. x \<noteq> c) xs"
  by (induction xs) auto

lemma drop_std_find: "drop (std_find c xs) xs = dropWhile (\<lambda>x. x \<noteq> c) xs"
  by (induction xs) auto

lemma takeWhile_absent [simp]: "c \<notin> set xs \<Longrightarrow> takeWhile (\<lambda>x. x \<noteq> c) xs = xs"
  by (induction xs) auto

lemma dropWhile_absent [simp]: "c \<notin> set xs \<Longrightarrow> dropWhile (\<lambda>x. x \<noteq> c) xs = []"
  by (induction xs) auto

lemma std_find_split:
  assumes "std_find c xs \<noteq> length xs"
  obtains ys zs where "xs = ys @ c # zs" "c \<notin> set ys" "std_find c xs = length ys"
proof -
  have "c \<in> set xs" using assms std_find_eq_length_iff by metis
  then obtain ys zs where "xs = ys @ c # zs" "c \<notin> set ys" by (meson split_list_first)
  then show thesis using that by (simp add: std_find_append)
qed

lemma std_search_SomeD:
  "std_search p xs = Some i \<Longrightarrow> i + length p \<le> length xs \<and> take (length p) (drop i xs) = p"
proof (induction xs arbitrary: i)
  case Nil
  then show ?case by (auto split: if_splits)
next
  case (Cons x xs)
  show ?case
  proof (cases "take (length p) (x # xs) = p")
    case True
    then have "length p \<le> length (x # xs)"
      by (metis length_take min.cobounded1)
    with Cons.prems True show ?thesis by auto
  next
    case False
    with Cons.prems obtain j where "std_search p xs = Some j" "i = Suc j" by auto
    with Cons.IH show ?thesis by auto
  qed
qed

lemma std_search_append_Some: "std_search p xs = Some i \<Longrightarrow> std_search p (xs @ ys) = Some i"
proof (induction xs arbitrary: i)
  case Nil
  then show ?case by (cases ys) (auto split: if_splits)
next
  case (Cons x xs)
  show ?case
  proof (cases "take (length p) (x # xs) = p")
    case True
    then have "length p \<le> length (x # xs)"
      by (metis length_take min.cobounded1)
    with True have "take (length p) (x # xs @ ys) = p"
      by (metis append_Cons take_append diff_is_0_eq take_0 append_Nil2)
    with Cons.prems True show ?thesis by simp
  next
    case False
    with Cons.prems obtain j where j: "std_search p xs = Some j" "i = Suc j" by auto
    then have len: "j + length p \<le> length xs" using std_search_SomeD by blast
    then have "take (length p) (x # xs @ ys) = take (length p) (x # xs)"
      by (cases "length p") auto
    with False j Cons.IH show ?thesis by simp
  qed
qed

text \<open>std::lower_bound on the positions from \<open>first\<close>, \<open>len\<close> of them: the halving search for the first position where \<open>P\<close> fails.\<close>

fun std_lower_bound :: "(nat \<Rightarrow> bool) \<Rightarrow> nat \<Rightarrow> nat \<Rightarrow> nat" where
  "std_lower_bound P first len =
     (if len = 0 then first
      else let half = len div 2; middle = first + half
           in if P middle then std_lower_bound P (middle + 1) (len - half - 1)
              else std_lower_bound P first half)"

declare std_lower_bound.simps [simp del]

lemma std_lower_bound_point:
  assumes "\<And>i. first \<le> i \<Longrightarrow> i < n \<Longrightarrow> P i" "\<And>i. n \<le> i \<Longrightarrow> i < first + len \<Longrightarrow> \<not> P i" "first \<le> n" "n \<le> first + len"
  shows "std_lower_bound P first len = n"
  using assms
proof (induction P first len rule: std_lower_bound.induct)
  case (1 P first len)
  show ?case
  proof (cases "len = 0")
    case True
    with 1 show ?thesis by (simp add: std_lower_bound.simps)
  next
    case False
    let ?m = "first + len div 2"
    have bound: "?m < first + len" using False by simp
    show ?thesis
    proof (cases "P ?m")
      case True
      then have lt: "?m < n" using "1.prems"(2) [of ?m] bound by (meson not_le)
      have "std_lower_bound P (?m + 1) (len - len div 2 - 1) = n"
        by (rule "1.IH"(1) [OF False refl refl True]) (use "1.prems" lt bound in auto)
      with False True show ?thesis by (simp add: std_lower_bound.simps [of P first len])
    next
      case nP: False
      then have ge: "n \<le> ?m" using "1.prems"(1) [of ?m] by (meson le_add1 not_le)
      have "std_lower_bound P first (len div 2) = n"
        by (rule "1.IH"(2) [OF False refl refl nP]) (use "1.prems" ge bound in auto)
      with False nP show ?thesis by (simp add: std_lower_bound.simps [of P first len])
    qed
  qed
qed

section \<open>Overwriting a range of a byte array\<close>

text \<open>
  std::copy and memcpy into the middle of an array: the bytes of \<open>ys\<close> replace the ones of \<open>xs\<close>
  from index \<open>i\<close> on. The callers keep \<open>i + length ys \<le> length xs\<close>.
\<close>

definition overwrite :: "'a list \<Rightarrow> nat \<Rightarrow> 'a list \<Rightarrow> 'a list" where
  "overwrite xs i ys = take i xs @ ys @ drop (i + length ys) xs"

lemma length_overwrite [simp, range_simps]:
  "i + length ys \<le> length xs \<Longrightarrow> length (overwrite xs i ys) = length xs"
  by (simp add: overwrite_def)

lemma take_overwrite [range_simps]: "j \<le> i \<Longrightarrow> i \<le> length xs \<Longrightarrow> take j (overwrite xs i ys) = take j xs"
  by (simp add: overwrite_def min_def)

lemma drop_overwrite [range_simps]:
  "i \<le> length xs \<Longrightarrow> drop (i + length ys) (overwrite xs i ys) = drop (i + length ys) xs"
  by (simp add: overwrite_def)

lemma slice_overwrite [range_simps]:
  "i \<le> length xs \<Longrightarrow> take (length ys) (drop i (overwrite xs i ys)) = ys"
  by (simp add: overwrite_def)

lemma slice_extend:
  assumes "r \<le> w" "w + length ys \<le> length xs"
  shows "take (w + length ys - r) (drop r (overwrite xs w ys)) = take (w - r) (drop r xs) @ ys"
proof -
  have "take (w + length ys - r) (drop r (overwrite xs w ys)) = drop r (take (w + length ys) (overwrite xs w ys))"
    by (simp add: drop_take)
  also have "take (w + length ys) (overwrite xs w ys) = take w xs @ ys"
    using assms by (simp add: overwrite_def)
  also have "drop r (take w xs @ ys) = take (w - r) (drop r xs) @ ys"
    using assms by (simp add: drop_take)
  finally show ?thesis .
qed

lemma slice_prepend:
  assumes "length ys \<le> r" "r \<le> w" "w \<le> length xs"
  shows "take (w - (r - length ys)) (drop (r - length ys) (overwrite xs (r - length ys) ys))
         = ys @ take (w - r) (drop r xs)"
proof -
  have *: "w - (r - length ys) = length ys + (w - r)" using assms by simp
  from assms show ?thesis
    unfolding * overwrite_def by (simp add: take_add)
qed

end
