(* ===== verification/CText.thy ===== *)
theory CText
  imports Prelude
begin

text \<open>
  The pieces of the C and C++ libraries the code uses to turn numbers into text and back: the
  character classes of the C locale, the printf conversions that occur in the source, snprintf's
  truncation, and std::stoi.
\<close>

section \<open>Character classes\<close>

definition isspace :: "char \<Rightarrow> bool" where
  "isspace c \<longleftrightarrow> c = CHR '' '' \<or> c = CHR 0x09 \<or> c = CHR 0x0A \<or> c = CHR 0x0B \<or> c = CHR 0x0C \<or> c = CHR 0x0D"

definition isdigit :: "char \<Rightarrow> bool" where
  "isdigit c \<longleftrightarrow> 48 \<le> (of_char c :: nat) \<and> (of_char c :: nat) \<le> 57"

definition digit_val :: "char \<Rightarrow> int" where
  "digit_val c = int (of_char c) - 48"

definition digit_char :: "nat \<Rightarrow> char" where
  "digit_char d = char_of (48 + d)"

lemma digit_char_isdigit [simp]: "d < 10 \<Longrightarrow> isdigit (digit_char d)"
  by (simp add: isdigit_def digit_char_def)

lemma digit_val_char [simp]: "d < 10 \<Longrightarrow> digit_val (digit_char d) = int d"
proof -
  assume "d < 10"
  then have "(of_char (char_of (48 + d)) :: nat) = 48 + d" by simp
  then show ?thesis by (simp add: digit_val_def digit_char_def)
qed

section \<open>Printing numbers\<close>

fun dec_nat :: "nat \<Rightarrow> char list" where
  "dec_nat n = (if n < 10 then [digit_char n] else dec_nat (n div 10) @ [digit_char (n mod 10)])"

declare dec_nat.simps [simp del]

definition dec_int :: "int \<Rightarrow> char list" where
  "dec_int v = (if v < 0 then CHR ''-'' # dec_nat (nat (- v)) else dec_nat (nat v))"

text \<open>The conversions \<open>%d\<close>, \<open>%4d\<close> (blanks on the left) and \<open>%06d\<close> (zeros after the sign).\<close>

definition pad_left :: "char \<Rightarrow> nat \<Rightarrow> char list \<Rightarrow> char list" where
  "pad_left c w s = replicate (w - length s) c @ s"

definition fmt_width :: "nat \<Rightarrow> int \<Rightarrow> char list" where
  "fmt_width w v = pad_left (CHR '' '') w (dec_int v)"

definition fmt_zero :: "nat \<Rightarrow> int \<Rightarrow> char list" where
  "fmt_zero w v =
     (if v < 0 then CHR ''-'' # pad_left (CHR ''0'') (w - 1) (dec_nat (nat (- v)))
      else pad_left (CHR ''0'') w (dec_nat (nat v)))"

text \<open>snprintf into a buffer of \<open>n\<close> bytes keeps at most \<open>n - 1\<close> characters.\<close>

definition snprintf :: "nat \<Rightarrow> char list \<Rightarrow> char list" where
  "snprintf n s = take (n - 1) s"

lemma dec_nat_nonempty [simp]: "dec_nat n \<noteq> []"
  by (subst dec_nat.simps) simp

lemma dec_nat_digits: "\<forall>c \<in> set (dec_nat n). isdigit c"
proof (induction n rule: dec_nat.induct)
  case (1 n)
  then show ?case by (subst dec_nat.simps) auto
qed

lemma length_dec_nat: "n < 10 ^ k \<Longrightarrow> 0 < k \<Longrightarrow> length (dec_nat n) \<le> k"
proof (induction n arbitrary: k rule: dec_nat.induct)
  case (1 n)
  show ?case
  proof (cases "n < 10")
    case True
    with 1 show ?thesis by (subst dec_nat.simps) simp
  next
    case False
    with 1 obtain j where k: "k = Suc j" by (cases k) auto
    with False 1 have "0 < j" by (cases j) auto
    moreover have "n div 10 < 10 ^ j" using 1 k by (simp add: less_mult_imp_div_less mult.commute)
    ultimately have "length (dec_nat (n div 10)) \<le> j" using 1 False by blast
    with False k show ?thesis by (subst dec_nat.simps) simp
  qed
qed

lemma snprintf_fits [simp]: "length s < n \<Longrightarrow> snprintf n s = s"
  by (simp add: snprintf_def)

section \<open>Reading numbers\<close>

definition digits_val :: "char list \<Rightarrow> int" where
  "digits_val ds = foldl (\<lambda>a c. 10 * a + digit_val c) 0 ds"

text \<open>
  std::stoi: leading white space, an optional sign, the longest run of digits; what follows is
  ignored. No digit is invalid_argument, a value outside int is out_of_range.
\<close>

definition stoi :: "char list \<Rightarrow> int res" where
  "stoi s =
     (let s1 = dropWhile isspace s;
          neg = (s1 \<noteq> [] \<and> hd s1 = CHR ''-'');
          s2 = (if s1 \<noteq> [] \<and> (hd s1 = CHR ''-'' \<or> hd s1 = CHR ''+'') then tl s1 else s1);
          ds = takeWhile isdigit s2;
          v = (if neg then - digits_val ds else digits_val ds)
      in if ds = [] then Inl Invalid_argument
         else if - (2 ^ 31) \<le> v \<and> v < 2 ^ 31 then Inr v
         else Inl Out_of_range)"

lemma digits_val_snoc [simp]: "digits_val (ds @ [c]) = 10 * digits_val ds + digit_val c"
  by (simp add: digits_val_def)

lemma digits_val_Nil [simp]: "digits_val [] = 0"
  by (simp add: digits_val_def)

lemma digits_val_dec_nat: "digits_val (dec_nat n) = int n"
proof (induction n rule: dec_nat.induct)
  case (1 n)
  show ?case
  proof (cases "n < 10")
    case True
    then show ?thesis using digits_val_snoc [of "[]"] by (subst dec_nat.simps) (simp del: digits_val_snoc)
  next
    case False
    with 1 have "digits_val (dec_nat (n div 10)) = int (n div 10)" by simp
    moreover have "10 * int (n div 10) + int (n mod 10) = int n" by (simp add: zdiv_int zmod_int)
    ultimately show ?thesis using False by (subst dec_nat.simps) simp
  qed
qed

lemma isdigit_not_sign: "isdigit c \<Longrightarrow> c \<noteq> CHR ''-'' \<and> c \<noteq> CHR ''+'' \<and> \<not> isspace c"
  by (auto simp: isdigit_def isspace_def)

lemma takeWhile_digits: "\<forall>c \<in> set ds. isdigit c \<Longrightarrow> (rest = [] \<or> \<not> isdigit (hd rest)) \<Longrightarrow>
    takeWhile isdigit (ds @ rest) = ds"
  by (induction ds) (auto simp: takeWhile_eq_Nil_iff)

lemma stoi_dec_nat:
  assumes "n < 2 ^ 31" "rest = [] \<or> \<not> isdigit (hd rest)"
  shows "stoi (dec_nat n @ rest) = Inr (int n)"
proof -
  obtain c cs where c: "dec_nat n = c # cs" by (cases "dec_nat n") auto
  then have d: "isdigit c" using dec_nat_digits [of n] by auto
  have tw: "takeWhile isdigit (dec_nat n @ rest) = dec_nat n"
    using assms(2) by (intro takeWhile_digits dec_nat_digits)
  have "stoi (dec_nat n @ rest) = (let v = digits_val (dec_nat n) in
      if - (2 ^ 31) \<le> v \<and> v < 2 ^ 31 then Inr v else Inl Out_of_range)"
    using isdigit_not_sign [OF d] tw by (simp add: stoi_def Let_def c)
  with assms(1) show ?thesis by (simp add: digits_val_dec_nat Let_def)
qed

end
