(* ===== verification/Timestamps.thy ===== *)
theory Timestamps
  imports CText Complex_Main
begin

text \<open>
  base/Timestamp.h and base/Timestamp.cc: a point in time as microseconds since the epoch. The
  int64_t of the class is an \<open>int\<close>: leaving the 64-bit range is undefined behaviour of the source
  and no property here is about it. A \<open>double\<close> number of seconds is a rational: the product with
  10^6 is taken exactly and truncated towards zero, as the cast to int64_t does.
\<close>

datatype timestamp = Timestamp (microSecondsSinceEpoch: int)

definition kMicroSecondsPerSecond :: int where
  "kMicroSecondsPerSecond = 1000 * 1000"

definition invalid_ts :: timestamp where
  "invalid_ts = Timestamp 0"

definition valid_ts :: "timestamp \<Rightarrow> bool" where
  "valid_ts t \<longleftrightarrow> microSecondsSinceEpoch t > 0"

definition secondsSinceEpoch :: "timestamp \<Rightarrow> int" where
  "secondsSinceEpoch t = microSecondsSinceEpoch t sdiv kMicroSecondsPerSecond"

definition fromUnixTime :: "int \<Rightarrow> int \<Rightarrow> timestamp" where
  "fromUnixTime t microseconds = Timestamp (t * kMicroSecondsPerSecond + microseconds)"

text \<open>The clock is an argument: \<open>tv_sec\<close> and \<open>tv_usec\<close> of gettimeofday.\<close>

definition ts_now :: "int \<times> int \<Rightarrow> timestamp" where
  "ts_now tv = Timestamp (fst tv * kMicroSecondsPerSecond + snd tv)"

text \<open>The two operators of the class; Boost derives the other comparisons from them.\<close>

definition timestamp_lt :: "timestamp \<Rightarrow> timestamp \<Rightarrow> bool" where
  "timestamp_lt lhs rhs \<longleftrightarrow> microSecondsSinceEpoch lhs < microSecondsSinceEpoch rhs"

definition timestamp_eq :: "timestamp \<Rightarrow> timestamp \<Rightarrow> bool" where
  "timestamp_eq lhs rhs \<longleftrightarrow> microSecondsSinceEpoch lhs = microSecondsSinceEpoch rhs"

lemma timestamp_eq_iff [simp]: "timestamp_eq lhs rhs \<longleftrightarrow> lhs = rhs"
  by (cases lhs; cases rhs) (simp add: timestamp_eq_def)

instantiation timestamp :: linorder
begin

definition less_timestamp :: "timestamp \<Rightarrow> timestamp \<Rightarrow> bool" where
  "less_timestamp lhs rhs \<longleftrightarrow> timestamp_lt lhs rhs"

definition less_eq_timestamp :: "timestamp \<Rightarrow> timestamp \<Rightarrow> bool" where
  "less_eq_timestamp lhs rhs \<longleftrightarrow> \<not> (rhs < lhs)"

instance
  by standard (auto simp: less_timestamp_def timestamp_lt_def less_eq_timestamp_def timestamp.expand)

end

lemma Timestamp_less [simp]: "Timestamp a < Timestamp b \<longleftrightarrow> a < b"
  by (simp add: less_timestamp_def timestamp_lt_def)

lemma Timestamp_le [simp]: "Timestamp a \<le> Timestamp b \<longleftrightarrow> a \<le> b"
  unfolding less_eq_timestamp_def less_timestamp_def timestamp_lt_def by auto

lemmas timestamp_order_defs = less_timestamp_def timestamp_lt_def less_eq_timestamp_def

text \<open>Truncation towards zero, the conversion of a floating-point value to an integer.\<close>

definition trunc_rat :: "rat \<Rightarrow> int" where
  "trunc_rat x = (if 0 \<le> x then \<lfloor>x\<rfloor> else \<lceil>x\<rceil>)"

definition timeDifference :: "timestamp \<Rightarrow> timestamp \<Rightarrow> rat" where
  "timeDifference high low =
     (let diff = microSecondsSinceEpoch high - microSecondsSinceEpoch low
      in of_int diff / of_int kMicroSecondsPerSecond)"

definition addTime :: "timestamp \<Rightarrow> rat \<Rightarrow> timestamp" where
  "addTime t seconds =
     (let delta = trunc_rat (seconds * of_int kMicroSecondsPerSecond)
      in Timestamp (microSecondsSinceEpoch t + delta))"

text \<open>\<open>snprintf(buf, sizeof(buf)-1, "%PRId64.%06PRId64", ...)\<close> into a buffer of 32 bytes.\<close>

definition ts_toString :: "timestamp \<Rightarrow> char list" where
  "ts_toString t =
     (let seconds = microSecondsSinceEpoch t sdiv kMicroSecondsPerSecond;
          microseconds = microSecondsSinceEpoch t smod kMicroSecondsPerSecond
      in snprintf 31 (dec_int seconds @ ''.'' @ fmt_zero 6 microseconds))"

lemma addTime_mono: "0 < s \<Longrightarrow> t \<le> addTime t s"
proof -
  assume "0 < s"
  then have "0 \<le> trunc_rat (s * of_int kMicroSecondsPerSecond)"
    by (simp add: trunc_rat_def kMicroSecondsPerSecond_def)
  then show ?thesis by (simp add: addTime_def Let_def timestamp_order_defs)
qed

lemma addTime_difference:
  assumes "s * of_int kMicroSecondsPerSecond \<in> \<int>"
  shows "timeDifference (addTime t s) t = s"
proof -
  obtain k where "s * of_int kMicroSecondsPerSecond = of_int k" using assms by (auto elim: Ints_cases)
  then show ?thesis
    by (simp add: addTime_def timeDifference_def Let_def trunc_rat_def kMicroSecondsPerSecond_def)
qed

lemma timeDifference_sign: "0 < timeDifference high low \<longleftrightarrow> low < high"
  by (simp add: timeDifference_def Let_def kMicroSecondsPerSecond_def timestamp_order_defs)

lemma timeDifference_nonneg: "low \<le> high \<Longrightarrow> 0 \<le> timeDifference high low"
  unfolding timestamp_order_defs by (simp add: timeDifference_def Let_def kMicroSecondsPerSecond_def)

lemma timeDifference_antimono: "t \<le> t' \<Longrightarrow> timeDifference now t' \<le> timeDifference now t"
  unfolding timestamp_order_defs by (simp add: timeDifference_def Let_def kMicroSecondsPerSecond_def divide_right_mono)

end
