(* ===== verification/Containers.thy ===== *)
theory Containers
  imports Prelude "HOL-Library.List_Lexorder" "HOL-Library.Char_ord"
begin

text \<open>
  The standard-library container the program keeps its tables in, std::map, as a list of pairs in
  ascending order of the keys, and the interface its clients rely on. Strings compare as
  std::string does, by the codes of their characters. The last section is the interface of a
  component with a step relation: an invariant that the initial states have and every step keeps
  holds in every reachable state.
\<close>

section \<open>The interface of an ordered store\<close>

locale ordered_store =
  fixes empty :: "'m"
    and put :: "'k::linorder \<Rightarrow> 'v \<Rightarrow> 'm \<Rightarrow> 'm"
    and get :: "'m \<Rightarrow> 'k \<Rightarrow> 'v option"
    and erase :: "'k \<Rightarrow> 'm \<Rightarrow> 'm"
    and items :: "'m \<Rightarrow> ('k \<times> 'v) list"
    and inv :: "'m \<Rightarrow> bool"
  assumes get_empty: "get empty = Map.empty"
    and get_put: "inv m \<Longrightarrow> get (put k v m) = (get m)(k \<mapsto> v)"
    and get_erase: "inv m \<Longrightarrow> get (erase k m) = (get m)(k := None)"
    and items_get: "inv m \<Longrightarrow> map_of (items m) = get m"
    and items_sorted: "inv m \<Longrightarrow> sorted_wrt (<) (map fst (items m))"
    and inv_empty: "inv empty"
    and inv_put: "inv m \<Longrightarrow> inv (put k v m)"
    and inv_erase: "inv m \<Longrightarrow> inv (erase k m)"
begin

lemma get_put_same: "inv m \<Longrightarrow> get (put k v m) k = Some v"
  by (simp add: get_put)

lemma get_put_other: "inv m \<Longrightarrow> k' \<noteq> k \<Longrightarrow> get (put k v m) k' = get m k'"
  by (simp add: get_put)

lemma get_erase_same: "inv m \<Longrightarrow> get (erase k m) k = None"
  by (simp add: get_erase)

lemma inv_fold_put: "inv m \<Longrightarrow> inv (fold (\<lambda>(k, v). put k v) kvs m)"
  by (induction kvs arbitrary: m) (auto simp: inv_put)

lemma get_fold_put:
  "inv m \<Longrightarrow> get (fold (\<lambda>(k, v). put k v) kvs m) = get m ++ map_of (rev kvs)"
proof (induction kvs arbitrary: m)
  case Nil
  then show ?case by simp
next
  case (Cons kv kvs)
  then show ?case by (cases kv) (auto simp: inv_put get_put fun_eq_iff map_add_def split: option.splits)
qed

lemma distinct_items: "inv m \<Longrightarrow> distinct (map fst (items m))"
  using items_sorted by (simp add: strict_sorted_iff)

lemma items_iff: "inv m \<Longrightarrow> (k, v) \<in> set (items m) \<longleftrightarrow> get m k = Some v"
  using distinct_items [of m] items_get [of m] by (metis map_of_eq_Some_iff)

lemma items_determined:
  assumes "inv m" "inv n" "get m = get n"
  shows "items m = items n"
proof (rule map_sorted_distinct_set_unique [of fst])
  show "set (items m) = set (items n)"
    using items_iff [OF assms(1)] items_iff [OF assms(2)] assms(3) by auto
  then show "inj_on fst (set (items m) \<union> set (items n))"
    using distinct_items [OF assms(1)] by (simp add: distinct_map)
qed (use assms in \<open>simp_all add: distinct_items items_sorted strict_sorted_imp_sorted\<close>)

end

section \<open>std::map\<close>

type_synonym ('k, 'v) std_map = "('k \<times> 'v) list"

fun map_put :: "'k::linorder \<Rightarrow> 'v \<Rightarrow> ('k, 'v) std_map \<Rightarrow> ('k, 'v) std_map" where
  "map_put k v [] = [(k, v)]"
| "map_put k v ((k', v') # m) =
     (if k < k' then (k, v) # (k', v') # m
      else if k = k' then (k, v) # m
      else (k', v') # map_put k v m)"

definition map_erase :: "'k \<Rightarrow> ('k, 'v) std_map \<Rightarrow> ('k, 'v) std_map" where
  "map_erase k m = filter (\<lambda>(k', v). k' \<noteq> k) m"

definition map_inv :: "('k::linorder, 'v) std_map \<Rightarrow> bool" where
  "map_inv m \<longleftrightarrow> sorted_wrt (<) (map fst m)"

lemma map_of_map_put [simp]: "map_of (map_put k v m) = (map_of m)(k \<mapsto> v)"
  by (induction k v m rule: map_put.induct) auto

lemma keys_map_put: "set (map fst (map_put k v m)) = insert k (set (map fst m))"
  by (induction k v m rule: map_put.induct) auto

lemma map_inv_put [intro]: "map_inv m \<Longrightarrow> map_inv (map_put k v m)"
proof (induction k v m rule: map_put.induct)
  case (1 k v)
  then show ?case by (simp add: map_inv_def)
next
  case (2 k v k' v' m)
  then show ?case using keys_map_put [of k v m] by (auto simp: map_inv_def)
qed

lemma map_of_map_erase [simp]: "map_of (map_erase k m) = (map_of m)(k := None)"
  by (induction m) (auto simp: map_erase_def fun_eq_iff)

lemma map_inv_erase [intro]: "map_inv m \<Longrightarrow> map_inv (map_erase k m)"
  by (induction m) (auto simp: map_erase_def map_inv_def)

lemma map_inv_Nil [simp]: "map_inv []"
  by (simp add: map_inv_def)

lemma map_erase_absent: "map_of m k = None \<Longrightarrow> map_erase k m = m"
  by (induction m) (auto simp: map_erase_def split: if_splits)

text \<open>The keys of a table.\<close>

definition map_keys :: "('k, 'v) std_map \<Rightarrow> 'k set" where
  "map_keys m = fst ` set m"

lemma map_keys_Nil [simp]: "map_keys [] = {}"
  by (simp add: map_keys_def)

lemma map_keys_Cons [simp]: "map_keys ((k, v) # m) = insert k (map_keys m)"
  by (simp add: map_keys_def)

lemma map_keys_put [simp]: "map_keys (map_put k v m) = insert k (map_keys m)"
  using keys_map_put [of k v m] by (simp add: map_keys_def)

lemma map_keys_erase [simp]: "map_keys (map_erase k m) = map_keys m - {k}"
  by (auto simp: map_keys_def map_erase_def)

lemma map_of_None_iff: "map_of m k = None \<longleftrightarrow> k \<notin> map_keys m"
  by (simp add: map_keys_def map_of_eq_None_iff)

lemma map_keys_nonempty: "m \<noteq> [] \<Longrightarrow> fst (hd m) \<in> map_keys m"
  by (cases m) (auto simp: map_keys_def)

lemma map_inv_Cons: "map_inv ((k, v) # m) \<longleftrightarrow> (\<forall>k' \<in> map_keys m. k < k') \<and> map_inv m"
  by (simp add: map_inv_def map_keys_def)

interpretation smap: ordered_store "[]" map_put map_of map_erase "\<lambda>m. m" map_inv
  by unfold_locales (auto simp: map_inv_def [symmetric])

section \<open>Transition systems\<close>

inductive reach :: "('s \<Rightarrow> bool) \<Rightarrow> ('s \<Rightarrow> 's \<Rightarrow> bool) \<Rightarrow> 's \<Rightarrow> bool"
  for init :: "'s \<Rightarrow> bool" and step :: "'s \<Rightarrow> 's \<Rightarrow> bool" where
  reach_init: "init s \<Longrightarrow> reach init step s"
| reach_step: "reach init step s \<Longrightarrow> step s t \<Longrightarrow> reach init step t"

locale invariant_system =
  fixes init :: "'s \<Rightarrow> bool"
    and step :: "'s \<Rightarrow> 's \<Rightarrow> bool"
    and inv :: "'s \<Rightarrow> bool"
  assumes inv_init: "init s \<Longrightarrow> inv s"
    and inv_step: "inv s \<Longrightarrow> step s t \<Longrightarrow> inv t"
begin

lemma reachable_inv: "reach init step s \<Longrightarrow> inv s"
  by (induction rule: reach.induct) (auto intro: inv_init inv_step)

end

end
