(* ===== verification/HttpRequest.thy ===== *)
theory HttpRequest
  imports CText Timestamps Containers
begin

text \<open>
  http/HttpRequest.h: the parsed request. The header table is a std::map from field name to value,
  here the ordered association list of Containers. Ranges of the input buffer are lists of characters.
\<close>

datatype http_method = kInvalid | kGet | kPost | kHead | kPut | kDelete

datatype http_version = kUnknown | kHttp10 | kHttp11

record http_request =
  rq_method :: http_method
  rq_version :: http_version
  rq_path :: "char list"
  rq_query :: "char list"
  rq_receiveTime :: timestamp
  rq_headers :: "(char list, char list) std_map"
  rq_body :: "char list"

definition new_request :: http_request where
  "new_request = \<lparr>rq_method = kInvalid, rq_version = kUnknown, rq_path = [], rq_query = [],
                  rq_receiveTime = invalid_ts, rq_headers = [], rq_body = []\<rparr>"

definition setVersion :: "http_version \<Rightarrow> http_request \<Rightarrow> http_request" where
  "setVersion v r = r\<lparr>rq_version := v\<rparr>"

definition method_of_string :: "char list \<Rightarrow> http_method" where
  "method_of_string m =
     (if m = ''GET'' then kGet
      else if m = ''POST'' then kPost
      else if m = ''HEAD'' then kHead
      else if m = ''PUT'' then kPut
      else if m = ''DELETE'' then kDelete
      else kInvalid)"

definition setMethod :: "char list \<Rightarrow> http_request \<Rightarrow> (bool \<times> http_request) res" where
  "setMethod m r =
     assert_c (rq_method r = kInvalid)
      (let r' = r\<lparr>rq_method := method_of_string m\<rparr>
       in Inr (rq_method r' \<noteq> kInvalid, r'))"

fun methodString :: "http_method \<Rightarrow> char list" where
  "methodString kGet = ''GET''"
| "methodString kPost = ''POST''"
| "methodString kHead = ''HEAD''"
| "methodString kPut = ''PUT''"
| "methodString kDelete = ''DELETE''"
| "methodString kInvalid = ''UNKNOWN''"

definition setPath :: "char list \<Rightarrow> http_request \<Rightarrow> http_request" where
  "setPath s r = r\<lparr>rq_path := s\<rparr>"

definition setQuery :: "char list \<Rightarrow> http_request \<Rightarrow> http_request" where
  "setQuery s r = r\<lparr>rq_query := s\<rparr>"

definition setBody :: "char list \<Rightarrow> http_request \<Rightarrow> http_request" where
  "setBody s r = r\<lparr>rq_body := s\<rparr>"

definition setReceiveTime :: "timestamp \<Rightarrow> http_request \<Rightarrow> http_request" where
  "setReceiveTime t r = r\<lparr>rq_receiveTime := t\<rparr>"

text \<open>The second loop of addHeader: drop the last character of the value while it is white space.\<close>

function drop_trailing_space :: "char list \<Rightarrow> char list" where
  "drop_trailing_space v =
     (if v \<noteq> [] \<and> isspace (v ! (length v - 1)) then drop_trailing_space (take (length v - 1) v) else v)"
  by pat_completeness auto
termination
  by (relation "measure length") (auto simp: min_def simp flip: length_greater_0_conv)

declare drop_trailing_space.simps [simp del]

text \<open>\<open>addHeader(start, colon, end)\<close> on the line \<open>[start, end)\<close> with \<open>colon\<close> at the given offset.\<close>

definition header_value :: "char list \<Rightarrow> char list" where
  "header_value s = drop_trailing_space (dropWhile isspace s)"

definition addHeader :: "char list \<Rightarrow> nat \<Rightarrow> http_request \<Rightarrow> http_request" where
  "addHeader line colon r =
     (let field = take colon line;
          value = header_value (drop (colon + 1) line)
      in r\<lparr>rq_headers := map_put field value (rq_headers r)\<rparr>)"

definition getHeader :: "char list \<Rightarrow> http_request \<Rightarrow> char list" where
  "getHeader field r = (case map_of (rq_headers r) field of Some v \<Rightarrow> v | None \<Rightarrow> [])"

definition request_swap :: "http_request \<Rightarrow> http_request \<Rightarrow> http_request \<times> http_request" where
  "request_swap this that =
     (this\<lparr>rq_method := rq_method that, rq_version := rq_version that, rq_path := rq_path that,
          rq_query := rq_query that, rq_receiveTime := rq_receiveTime that,
          rq_headers := rq_headers that, rq_body := rq_body that\<rparr>,
      that\<lparr>rq_method := rq_method this, rq_version := rq_version this, rq_path := rq_path this,
          rq_query := rq_query this, rq_receiveTime := rq_receiveTime this,
          rq_headers := rq_headers this, rq_body := rq_body this\<rparr>)"

section \<open>Methods\<close>

lemma method_of_string_methodString: "m \<noteq> kInvalid \<Longrightarrow> method_of_string (methodString m) = m"
  by (cases m) (simp_all add: method_of_string_def)

lemma methodString_no_space: "CHR '' '' \<notin> set (methodString m)"
  by (cases m) simp_all

section \<open>Header values\<close>

lemma drop_trailing_space_snoc:
  "drop_trailing_space (v @ [c]) = (if isspace c then drop_trailing_space v else v @ [c])"
  by (simp add: drop_trailing_space.simps [of "v @ [c]"])

lemma drop_trailing_space_Nil [simp]: "drop_trailing_space [] = []"
  by (simp add: drop_trailing_space.simps)

lemma drop_trailing_space_eq: "drop_trailing_space v = rev (dropWhile isspace (rev v))"
  by (induction v rule: rev_induct) (simp_all add: drop_trailing_space_snoc)

definition trimmed :: "char list \<Rightarrow> bool" where
  "trimmed v \<longleftrightarrow> (v \<noteq> [] \<longrightarrow> \<not> isspace (hd v) \<and> \<not> isspace (last v))"

lemma hd_rev_dropWhile_last: "dropWhile P (rev v) \<noteq> [] \<Longrightarrow> \<not> P (last (rev (dropWhile P (rev v))))"
  by (simp add: last_rev hd_dropWhile)

lemma header_value_spaces:
  assumes "\<forall>c \<in> set l. isspace c" "\<forall>c \<in> set r. isspace c" "trimmed v"
  shows "header_value (l @ v @ r) = v"
proof (cases "v = []")
  case True
  have "dropWhile isspace (l @ r) = []"
    using assms(1,2) by (auto simp: dropWhile_eq_Nil_conv)
  then show ?thesis by (simp only: header_value_def True append_Nil drop_trailing_space_Nil)
next
  case False
  have "dropWhile isspace (l @ v @ r) = v @ r"
    using assms(1,3) False by (cases v) (auto simp: trimmed_def)
  moreover have "dropWhile isspace (rev (v @ r)) = rev v"
    using assms(2,3) False dropWhile_append2 [of "rev r" isspace "rev v"]
    by (cases v rule: rev_cases) (auto simp: trimmed_def)
  ultimately show ?thesis by (simp add: header_value_def drop_trailing_space_eq)
qed

lemma getHeader_addHeader:
  "getHeader f (addHeader line colon r) =
     (if f = take colon line then header_value (drop (colon + 1) line) else getHeader f r)"
  by (simp add: getHeader_def addHeader_def Let_def)

lemma addHeader_inv: "map_inv (rq_headers r) \<Longrightarrow> map_inv (rq_headers (addHeader line colon r))"
  by (simp add: addHeader_def Let_def map_inv_put)

lemma request_swap_fst: "fst (request_swap r s) = s" for r s :: http_request
  by (simp add: request_swap_def)

end
