(* ===== verification/Endian.thy ===== *)
theory Endian
  imports Prelude "HOL-Library.Word"
begin

text \<open>
  net/Endian.h: conversion between host and network byte order. The machine the code is built for
  is little-endian: memcpy of an integer yields its bytes least significant first, and the htobe
  and betoh functions of the C library reverse the bytes.
\<close>

section \<open>Bytes of an integer\<close>

definition byte_of_word :: "8 word \<Rightarrow> char" where
  "byte_of_word w = char_of (unat w)"

definition word_of_byte :: "char \<Rightarrow> 8 word" where
  "word_of_byte c = of_nat (of_char c)"

lemma word_of_byte_of_word [simp]: "word_of_byte (byte_of_word w) = w"
proof -
  have "unat w mod 256 = unat w" using unsigned_less [of w, where ?'a = nat] by simp
  then show ?thesis by (simp add: word_of_byte_def byte_of_word_def)
qed

text \<open>The object representation of an integer of \<open>n\<close> bytes, least significant byte first.\<close>

fun le_bytes :: "nat \<Rightarrow> nat \<Rightarrow> char list" where
  "le_bytes 0 v = []"
| "le_bytes (Suc n) v = char_of (v mod 256) # le_bytes n (v div 256)"

fun of_le_bytes :: "char list \<Rightarrow> nat" where
  "of_le_bytes [] = 0"
| "of_le_bytes (c # cs) = of_char c + 256 * of_le_bytes cs"

lemma length_le_bytes [simp]: "length (le_bytes n v) = n"
  by (induction n v rule: le_bytes.induct) auto

lemma of_le_bytes_le_bytes: "v < 256 ^ n \<Longrightarrow> of_le_bytes (le_bytes n v) = v"
proof (induction n v rule: le_bytes.induct)
  case (1 v)
  then show ?case by simp
next
  case (2 n v)
  then have "v div 256 < 256 ^ n" by (simp add: less_mult_imp_div_less mult.commute)
  with 2 show ?case by (simp add: of_char_of)
qed

lemma le_bytes_of_le_bytes: "length cs = n \<Longrightarrow> le_bytes n (of_le_bytes cs) = cs"
proof (induction cs arbitrary: n)
  case Nil
  then show ?case by simp
next
  case (Cons c cs)
  have "(of_char c + 256 * of_le_bytes cs) mod 256 = (of_char c :: nat)"
    and "(of_char c + 256 * of_le_bytes cs) div 256 = of_le_bytes cs"
    using nat_of_char_less_256 [of c] by simp_all
  with Cons show ?case by (auto simp: Cons.prems [symmetric])
qed

lemma of_le_bytes_less: "of_le_bytes cs < 256 ^ length cs"
proof (induction cs)
  case Nil
  then show ?case by simp
next
  case (Cons c cs)
  have lt: "(of_char c :: nat) < 256" by simp
  have "256 * (of_le_bytes cs + 1) \<le> 256 * 256 ^ length cs"
    using Cons by (intro mult_le_mono2) simp
  then have "256 * of_le_bytes cs + 256 \<le> 256 * 256 ^ length cs" by simp
  with lt have "of_char c + 256 * of_le_bytes cs < 256 * 256 ^ length cs" by linarith
  then show ?case by simp
qed

section \<open>Host and network order\<close>

definition mem_of_word :: "nat \<Rightarrow> 'a::len word \<Rightarrow> char list" where
  "mem_of_word n w = le_bytes n (unat w)"

definition word_of_mem :: "char list \<Rightarrow> 'a::len word" where
  "word_of_mem cs = of_nat (of_le_bytes cs)"

definition bswap :: "nat \<Rightarrow> 'a::len word \<Rightarrow> 'a word" where
  "bswap n w = word_of_mem (rev (mem_of_word n w))"

definition hostToNetwork64 :: "64 word \<Rightarrow> 64 word" where
  "hostToNetwork64 w = bswap 8 w"

definition hostToNetwork32 :: "32 word \<Rightarrow> 32 word" where
  "hostToNetwork32 w = bswap 4 w"

definition hostToNetwork16 :: "16 word \<Rightarrow> 16 word" where
  "hostToNetwork16 w = bswap 2 w"

definition networkToHost64 :: "64 word \<Rightarrow> 64 word" where
  "networkToHost64 w = bswap 8 w"

definition networkToHost32 :: "32 word \<Rightarrow> 32 word" where
  "networkToHost32 w = bswap 4 w"

definition networkToHost16 :: "16 word \<Rightarrow> 16 word" where
  "networkToHost16 w = bswap 2 w"

lemma length_mem_of_word [simp]: "length (mem_of_word n w) = n"
  by (simp add: mem_of_word_def)

lemma word_of_mem_of_word:
  assumes "LENGTH('a) = 8 * n"
  shows "word_of_mem (mem_of_word n w) = (w :: 'a::len word)"
proof -
  have "unat w < 256 ^ n"
    using unsigned_less [of w, where ?'a = nat] assms by (simp add: power_mult)
  then show ?thesis by (simp add: word_of_mem_def mem_of_word_def of_le_bytes_le_bytes)
qed

lemma mem_of_word_of_mem:
  assumes "LENGTH('a) = 8 * n" "length cs = n"
  shows "mem_of_word n (word_of_mem cs :: 'a::len word) = cs"
proof -
  have "of_le_bytes cs < 2 ^ LENGTH('a)"
    using of_le_bytes_less [of cs] assms by (simp add: power_mult)
  then have "unat (of_nat (of_le_bytes cs) :: 'a word) = of_le_bytes cs"
    by (simp add: unat_of_nat take_bit_nat_eq_self)
  with assms show ?thesis by (simp add: word_of_mem_def mem_of_word_def le_bytes_of_le_bytes)
qed

lemma mem_of_bswap:
  assumes "LENGTH('a) = 8 * n"
  shows "mem_of_word n (bswap n (w :: 'a::len word)) = rev (mem_of_word n w)"
  using assms by (simp add: bswap_def mem_of_word_of_mem)

lemma bswap_bswap:
  assumes "LENGTH('a) = 8 * n"
  shows "bswap n (bswap n (w :: 'a::len word)) = w"
  using assms by (simp add: bswap_def [of n "bswap n w"] mem_of_bswap word_of_mem_of_word)

section \<open>Fixed-width encodings\<close>

text \<open>
  What Buffer relies on when it stores an integer: the encoding has a fixed length and decoding is
  its inverse on both sides. The instances are the ones the code uses: an integer converted to
  network order and copied to memory.
\<close>

locale fixed_codec =
  fixes n :: nat
    and enc :: "'w \<Rightarrow> char list"
    and dec :: "char list \<Rightarrow> 'w"
  assumes length_enc: "length (enc w) = n"
    and dec_enc: "dec (enc w) = w"
    and enc_dec: "length cs = n \<Longrightarrow> enc (dec cs) = cs"
begin

lemma dec_stream: "dec (take n (enc w @ rest)) = w"
  by (simp add: length_enc dec_enc)

lemma drop_stream: "drop n (enc w @ rest) = rest"
  by (simp add: length_enc)

lemma enc_inject: "enc v = enc w \<longleftrightarrow> v = w"
  by (metis dec_enc)

end

definition be64_enc :: "64 word \<Rightarrow> char list" where
  "be64_enc x = mem_of_word 8 (hostToNetwork64 x)"

definition be64_dec :: "char list \<Rightarrow> 64 word" where
  "be64_dec cs = networkToHost64 (word_of_mem cs)"

definition be32_enc :: "32 word \<Rightarrow> char list" where
  "be32_enc x = mem_of_word 4 (hostToNetwork32 x)"

definition be32_dec :: "char list \<Rightarrow> 32 word" where
  "be32_dec cs = networkToHost32 (word_of_mem cs)"

definition be16_enc :: "16 word \<Rightarrow> char list" where
  "be16_enc x = mem_of_word 2 (hostToNetwork16 x)"

definition be16_dec :: "char list \<Rightarrow> 16 word" where
  "be16_dec cs = networkToHost16 (word_of_mem cs)"

definition be8_enc :: "8 word \<Rightarrow> char list" where
  "be8_enc x = mem_of_word 1 x"

definition be8_dec :: "char list \<Rightarrow> 8 word" where
  "be8_dec cs = word_of_mem cs"

lemmas codec_defs =
  be64_enc_def be64_dec_def be32_enc_def be32_dec_def be16_enc_def be16_dec_def
  be8_enc_def be8_dec_def hostToNetwork64_def networkToHost64_def hostToNetwork32_def
  networkToHost32_def hostToNetwork16_def networkToHost16_def

interpretation be64: fixed_codec 8 be64_enc be64_dec
  by unfold_locales (simp_all add: codec_defs word_of_mem_of_word bswap_bswap mem_of_word_of_mem)

interpretation be32: fixed_codec 4 be32_enc be32_dec
  by unfold_locales (simp_all add: codec_defs word_of_mem_of_word bswap_bswap mem_of_word_of_mem)

interpretation be16: fixed_codec 2 be16_enc be16_dec
  by unfold_locales (simp_all add: codec_defs word_of_mem_of_word bswap_bswap mem_of_word_of_mem)

interpretation be8: fixed_codec 1 be8_enc be8_dec
  by unfold_locales (simp_all add: codec_defs word_of_mem_of_word mem_of_word_of_mem)

lemma be64_enc_big_endian: "be64_enc x = rev (le_bytes 8 (unat x))"
  by (simp add: codec_defs mem_of_bswap) (simp add: mem_of_word_def)

lemma be32_enc_big_endian: "be32_enc x = rev (le_bytes 4 (unat x))"
  by (simp add: codec_defs mem_of_bswap) (simp add: mem_of_word_def)

lemma be16_enc_big_endian: "be16_enc x = rev (le_bytes 2 (unat x))"
  by (simp add: codec_defs mem_of_bswap) (simp add: mem_of_word_def)

end
