(* ===== verification/NetBuffer.thy ===== *)
theory NetBuffer
  imports Prelude Endian
begin

text \<open>
  net/Buffer.h and net/Buffer.cc: the byte buffer between the sockets and the protocol code. The
  vector and the two indices are the fields of the class; a \<open>const char*\<close> into the buffer is an
  index into the vector. Every assert of the class is a branch of the result type. The abstraction
  of a buffer is its readable bytes; the operations are shown to act on them as a queue of bytes.
\<close>

section \<open>State\<close>

record buffer =
  buffer_vec :: "char list"
  readerIndex :: nat
  writerIndex :: nat

definition kCheapPrepend :: nat where
  "kCheapPrepend = 8"

definition kInitialSize :: nat where
  "kInitialSize = 1024"

definition kCRLF :: "char list" where
  "kCRLF = [CHR 0x0D, CHR 0x0A]"

text \<open>The zero bytes std::vector value-initialises new elements with, and vector::resize.\<close>

definition vec_resize :: "nat \<Rightarrow> char list \<Rightarrow> char list" where
  "vec_resize n xs = take n xs @ replicate (n - length xs) (CHR 0x00)"

definition new_buffer :: "nat \<Rightarrow> buffer" where
  "new_buffer initialSize =
     \<lparr>buffer_vec = replicate (kCheapPrepend + initialSize) (CHR 0x00),
      readerIndex = kCheapPrepend, writerIndex = kCheapPrepend\<rparr>"

definition buffer_swap :: "buffer \<Rightarrow> buffer \<Rightarrow> buffer \<times> buffer" where
  "buffer_swap this rhs =
     (this\<lparr>buffer_vec := buffer_vec rhs, readerIndex := readerIndex rhs, writerIndex := writerIndex rhs\<rparr>,
      rhs\<lparr>buffer_vec := buffer_vec this, readerIndex := readerIndex this, writerIndex := writerIndex this\<rparr>)"

definition readableBytes :: "buffer \<Rightarrow> nat" where
  "readableBytes b = writerIndex b - readerIndex b"

definition writableBytes :: "buffer \<Rightarrow> nat" where
  "writableBytes b = length (buffer_vec b) - writerIndex b"

definition prependableBytes :: "buffer \<Rightarrow> nat" where
  "prependableBytes b = readerIndex b"

definition peek :: "buffer \<Rightarrow> nat" where
  "peek b = readerIndex b"

definition beginWrite :: "buffer \<Rightarrow> nat" where
  "beginWrite b = writerIndex b"

text \<open>The bytes of the vector in the range \<open>[from, to)\<close>.\<close>

definition bytes_between :: "buffer \<Rightarrow> nat \<Rightarrow> nat \<Rightarrow> char list" where
  "bytes_between b from to = take (to - from) (drop from (buffer_vec b))"

definition contents :: "buffer \<Rightarrow> char list" where
  "contents b = bytes_between b (peek b) (beginWrite b)"

section \<open>Searching\<close>

definition findCRLF :: "buffer \<Rightarrow> nat option" where
  "findCRLF b = map_option (\<lambda>i. peek b + i) (std_search kCRLF (bytes_between b (peek b) (beginWrite b)))"

definition findCRLF_from :: "buffer \<Rightarrow> nat \<Rightarrow> nat option res" where
  "findCRLF_from b start =
     assert_c (peek b \<le> start)
      (assert_c (start \<le> beginWrite b)
        (Inr (map_option (\<lambda>i. start + i) (std_search kCRLF (bytes_between b start (beginWrite b))))))"

text \<open>memchr: the first occurrence of a character in a range, or a null pointer.\<close>

definition memchr :: "buffer \<Rightarrow> nat \<Rightarrow> char \<Rightarrow> nat \<Rightarrow> nat option" where
  "memchr b start c n =
     (let i = std_find c (bytes_between b start (start + n))
      in if i < n then Some (start + i) else None)"

definition findEOL :: "buffer \<Rightarrow> nat option" where
  "findEOL b = memchr b (peek b) (CHR 0x0A) (readableBytes b)"

definition findEOL_from :: "buffer \<Rightarrow> nat \<Rightarrow> nat option res" where
  "findEOL_from b start =
     assert_c (peek b \<le> start)
      (assert_c (start \<le> beginWrite b)
        (Inr (memchr b start (CHR 0x0A) (beginWrite b - start))))"

section \<open>Taking bytes out\<close>

definition retrieveAll :: "buffer \<Rightarrow> buffer" where
  "retrieveAll b = b\<lparr>readerIndex := kCheapPrepend, writerIndex := kCheapPrepend\<rparr>"

definition retrieve :: "nat \<Rightarrow> buffer \<Rightarrow> buffer res" where
  "retrieve len b =
     assert_c (len \<le> readableBytes b)
      (Inr (if len < readableBytes b then b\<lparr>readerIndex := readerIndex b + len\<rparr> else retrieveAll b))"

definition retrieveUntil :: "nat \<Rightarrow> buffer \<Rightarrow> buffer res" where
  "retrieveUntil end_ptr b =
     assert_c (peek b \<le> end_ptr)
      (assert_c (end_ptr \<le> beginWrite b)
        (retrieve (end_ptr - peek b) b))"

definition retrieveInt64 :: "buffer \<Rightarrow> buffer res" where
  "retrieveInt64 b = retrieve 8 b"

definition retrieveInt32 :: "buffer \<Rightarrow> buffer res" where
  "retrieveInt32 b = retrieve 4 b"

definition retrieveInt16 :: "buffer \<Rightarrow> buffer res" where
  "retrieveInt16 b = retrieve 2 b"

definition retrieveInt8 :: "buffer \<Rightarrow> buffer res" where
  "retrieveInt8 b = retrieve 1 b"

definition retrieveAsString :: "nat \<Rightarrow> buffer \<Rightarrow> (char list \<times> buffer) res" where
  "retrieveAsString len b =
     assert_c (len \<le> readableBytes b)
      (let result = bytes_between b (peek b) (peek b + len)
       in rbind (retrieve len b) (\<lambda>b'. Inr (result, b')))"

definition retrieveAllAsString :: "buffer \<Rightarrow> (char list \<times> buffer) res" where
  "retrieveAllAsString b = retrieveAsString (readableBytes b) b"

text \<open>StringPiece keeps its length in an int: a length beyond it does not survive the cast.\<close>

definition toStringPiece :: "buffer \<Rightarrow> char list res" where
  "toStringPiece b =
     (if readableBytes b < 2 ^ 31 then Inr (bytes_between b (peek b) (peek b + readableBytes b))
      else Inl Out_of_range)"

section \<open>Putting bytes in\<close>

definition hasWritten :: "nat \<Rightarrow> buffer \<Rightarrow> buffer res" where
  "hasWritten len b =
     assert_c (len \<le> writableBytes b) (Inr (b\<lparr>writerIndex := writerIndex b + len\<rparr>))"

definition unwrite :: "nat \<Rightarrow> buffer \<Rightarrow> buffer res" where
  "unwrite len b =
     assert_c (len \<le> readableBytes b) (Inr (b\<lparr>writerIndex := writerIndex b - len\<rparr>))"

definition makeSpace :: "nat \<Rightarrow> buffer \<Rightarrow> buffer res" where
  "makeSpace len b =
     (if writableBytes b + prependableBytes b < len + kCheapPrepend
      then Inr (b\<lparr>buffer_vec := vec_resize (writerIndex b + len) (buffer_vec b)\<rparr>)
      else assert_c (kCheapPrepend < readerIndex b)
       (let readable = readableBytes b;
            b' = b\<lparr>buffer_vec := overwrite (buffer_vec b) kCheapPrepend
                                  (bytes_between b (readerIndex b) (writerIndex b)),
                   readerIndex := kCheapPrepend,
                   writerIndex := kCheapPrepend + readable\<rparr>
        in assert_c (readable = readableBytes b') (Inr b')))"

definition ensureWritableBytes :: "nat \<Rightarrow> buffer \<Rightarrow> buffer res" where
  "ensureWritableBytes len b =
     rbind (if writableBytes b < len then makeSpace len b else Inr b)
      (\<lambda>b'. assert_c (len \<le> writableBytes b') (Inr b'))"

definition buf_append :: "char list \<Rightarrow> buffer \<Rightarrow> buffer res" where
  "buf_append data b =
     rbind (ensureWritableBytes (length data) b)
      (\<lambda>b'. hasWritten (length data)
              (b'\<lparr>buffer_vec := overwrite (buffer_vec b') (beginWrite b') data\<rparr>))"

definition prepend :: "char list \<Rightarrow> buffer \<Rightarrow> buffer res" where
  "prepend data b =
     assert_c (length data \<le> prependableBytes b)
      (let r = readerIndex b - length data
       in Inr (b\<lparr>readerIndex := r, buffer_vec := overwrite (buffer_vec b) r data\<rparr>))"

definition shrink :: "nat \<Rightarrow> buffer \<Rightarrow> buffer res" where
  "shrink reserve b =
     rbind (ensureWritableBytes (readableBytes b + reserve) (new_buffer kInitialSize))
      (\<lambda>oth. rbind (toStringPiece b)
        (\<lambda>str. rbind (buf_append str oth)
          (\<lambda>oth'. Inr (fst (buffer_swap b oth')))))"

section \<open>Integers in network order\<close>

definition appendInt64 :: "64 word \<Rightarrow> buffer \<Rightarrow> buffer res" where
  "appendInt64 x b = (let be64 = hostToNetwork64 x in buf_append (mem_of_word 8 be64) b)"

definition appendInt32 :: "32 word \<Rightarrow> buffer \<Rightarrow> buffer res" where
  "appendInt32 x b = (let be32 = hostToNetwork32 x in buf_append (mem_of_word 4 be32) b)"

definition appendInt16 :: "16 word \<Rightarrow> buffer \<Rightarrow> buffer res" where
  "appendInt16 x b = (let be16 = hostToNetwork16 x in buf_append (mem_of_word 2 be16) b)"

definition appendInt8 :: "8 word \<Rightarrow> buffer \<Rightarrow> buffer res" where
  "appendInt8 x b = buf_append (mem_of_word 1 x) b"

definition peekInt64 :: "buffer \<Rightarrow> 64 word res" where
  "peekInt64 b =
     assert_c (8 \<le> readableBytes b)
      (Inr (networkToHost64 (word_of_mem (bytes_between b (peek b) (peek b + 8)))))"

definition peekInt32 :: "buffer \<Rightarrow> 32 word res" where
  "peekInt32 b =
     assert_c (4 \<le> readableBytes b)
      (Inr (networkToHost32 (word_of_mem (bytes_between b (peek b) (peek b + 4)))))"

definition peekInt16 :: "buffer \<Rightarrow> 16 word res" where
  "peekInt16 b =
     assert_c (2 \<le> readableBytes b)
      (Inr (networkToHost16 (word_of_mem (bytes_between b (peek b) (peek b + 2)))))"

definition peekInt8 :: "buffer \<Rightarrow> 8 word res" where
  "peekInt8 b =
     assert_c (1 \<le> readableBytes b)
      (Inr (word_of_mem (bytes_between b (peek b) (peek b + 1))))"

definition readInt64 :: "buffer \<Rightarrow> (64 word \<times> buffer) res" where
  "readInt64 b = rbind (peekInt64 b) (\<lambda>x. rbind (retrieveInt64 b) (\<lambda>b'. Inr (x, b')))"

definition readInt32 :: "buffer \<Rightarrow> (32 word \<times> buffer) res" where
  "readInt32 b = rbind (peekInt32 b) (\<lambda>x. rbind (retrieveInt32 b) (\<lambda>b'. Inr (x, b')))"

definition readInt16 :: "buffer \<Rightarrow> (16 word \<times> buffer) res" where
  "readInt16 b = rbind (peekInt16 b) (\<lambda>x. rbind (retrieveInt16 b) (\<lambda>b'. Inr (x, b')))"

definition readInt8 :: "buffer \<Rightarrow> (8 word \<times> buffer) res" where
  "readInt8 b = rbind (peekInt8 b) (\<lambda>x. rbind (retrieveInt8 b) (\<lambda>b'. Inr (x, b')))"

definition prependInt64 :: "64 word \<Rightarrow> buffer \<Rightarrow> buffer res" where
  "prependInt64 x b = (let be64 = hostToNetwork64 x in prepend (mem_of_word 8 be64) b)"

definition prependInt32 :: "32 word \<Rightarrow> buffer \<Rightarrow> buffer res" where
  "prependInt32 x b = (let be32 = hostToNetwork32 x in prepend (mem_of_word 4 be32) b)"

definition prependInt16 :: "16 word \<Rightarrow> buffer \<Rightarrow> buffer res" where
  "prependInt16 x b = (let be16 = hostToNetwork16 x in prepend (mem_of_word 2 be16) b)"

definition prependInt8 :: "8 word \<Rightarrow> buffer \<Rightarrow> buffer res" where
  "prependInt8 x b = prepend (mem_of_word 1 x) b"

section \<open>Reading from a descriptor\<close>

text \<open>
  The outcome of readv: the bytes the kernel scattered over the given ranges, or an errno. The
  kernel is an argument of the model: a function from the lengths of the ranges to the outcome.
\<close>

datatype readv_result = Readv_ok "char list" | Readv_err int

definition readv_result_ok :: "(nat list \<Rightarrow> readv_result) \<Rightarrow> bool" where
  "readv_result_ok readv_k \<longleftrightarrow>
     (\<forall>lens bytes. readv_k lens = Readv_ok bytes \<longrightarrow> length bytes \<le> sum_list lens)"

definition sizeof_extrabuf :: nat where
  "sizeof_extrabuf = 65536"

text \<open>The lengths of the ranges passed to readv: the writable bytes, and the stack buffer if they are few.\<close>

definition readFd_iov :: "buffer \<Rightarrow> nat list" where
  "readFd_iov b =
     (let writable = writableBytes b
      in if writable < sizeof_extrabuf then [writable, sizeof_extrabuf] else [writable])"

text \<open>The result is the return value \<open>n\<close>, the saved errno when \<open>n < 0\<close>, and the buffer.\<close>

definition readFd :: "(nat list \<Rightarrow> readv_result) \<Rightarrow> buffer \<Rightarrow> (int \<times> int option \<times> buffer) res" where
  "readFd readv_k b =
     (let writable = writableBytes b
      in case readv_k (readFd_iov b) of
           Readv_err errno \<Rightarrow> Inr (- 1, Some errno, b)
         | Readv_ok bytes \<Rightarrow>
             (let n = length bytes;
                  b' = b\<lparr>buffer_vec := overwrite (buffer_vec b) (writerIndex b) (take writable bytes)\<rparr>
              in if n \<le> writable
                 then Inr (int n, None, b'\<lparr>writerIndex := writerIndex b' + n\<rparr>)
                 else rbind (buf_append (drop writable bytes)
                               (b'\<lparr>writerIndex := length (buffer_vec b')\<rparr>))
                       (\<lambda>b''. Inr (int n, None, b''))))"

section \<open>The invariant and the abstraction\<close>

definition buffer_inv :: "buffer \<Rightarrow> bool" where
  "buffer_inv b \<longleftrightarrow>
     readerIndex b \<le> writerIndex b \<and> writerIndex b \<le> length (buffer_vec b)
     \<and> kCheapPrepend \<le> length (buffer_vec b)"

lemmas index_defs =
  readableBytes_def writableBytes_def prependableBytes_def peek_def beginWrite_def

lemma length_contents: "buffer_inv b \<Longrightarrow> length (contents b) = readableBytes b"
  by (auto simp: buffer_inv_def contents_def bytes_between_def index_defs)

lemma readable_is_length: "buffer_inv b \<Longrightarrow> readableBytes b = length (contents b)"
  by (simp add: length_contents)

lemma bytes_between_take:
  "n \<le> readableBytes b \<Longrightarrow> bytes_between b (peek b) (peek b + n) = take n (contents b)"
  by (simp add: bytes_between_def contents_def index_defs min_def)

lemma new_buffer_inv [simp]: "buffer_inv (new_buffer n)"
  by (simp add: buffer_inv_def new_buffer_def)

lemma contents_new_buffer [simp]: "contents (new_buffer n) = []"
  by (simp add: contents_def bytes_between_def new_buffer_def index_defs)

lemma new_buffer_asserts:
  "readableBytes (new_buffer n) = 0" "writableBytes (new_buffer n) = n"
  "prependableBytes (new_buffer n) = kCheapPrepend"
  by (simp_all add: new_buffer_def index_defs)

lemma retrieveAll_inv [simp]: "buffer_inv b \<Longrightarrow> buffer_inv (retrieveAll b)"
  by (simp add: buffer_inv_def retrieveAll_def)

lemma contents_retrieveAll [simp]: "contents (retrieveAll b) = []"
  by (simp add: contents_def bytes_between_def retrieveAll_def index_defs)

text \<open>Taking bytes out never fails within the readable bytes and drops them from the front.\<close>

definition retrieved :: "nat \<Rightarrow> buffer \<Rightarrow> buffer" where
  "retrieved n b = projr (retrieve n b)"

lemma retrieve_Inr:
  "buffer_inv b \<Longrightarrow> n \<le> length (contents b) \<Longrightarrow> retrieve n b = Inr (retrieved n b)"
  by (simp add: retrieve_def retrieved_def length_contents)

lemma retrieve_over: "buffer_inv b \<Longrightarrow> length (contents b) < n \<Longrightarrow> retrieve n b = Inl Assert_failed"
  by (simp add: retrieve_def length_contents)

lemma retrieved_spec:
  assumes "buffer_inv b" "n \<le> length (contents b)"
  shows "buffer_inv (retrieved n b) \<and> contents (retrieved n b) = drop n (contents b)"
proof (cases "n < readableBytes b")
  case True
  then have eq: "retrieved n b = b\<lparr>readerIndex := readerIndex b + n\<rparr>"
    by (simp add: retrieved_def retrieve_def)
  from True assms show ?thesis
    unfolding eq by (auto simp: buffer_inv_def contents_def bytes_between_def index_defs drop_take add.commute)
next
  case False
  with assms have "n = readableBytes b" by (simp add: length_contents)
  then have "retrieved n b = retrieveAll b" by (simp add: retrieved_def retrieve_def)
  with False assms show ?thesis by (simp add: length_contents)
qed

lemma retrieved_inv [simp]: "buffer_inv b \<Longrightarrow> n \<le> length (contents b) \<Longrightarrow> buffer_inv (retrieved n b)"
  and contents_retrieved [simp]:
    "buffer_inv b \<Longrightarrow> n \<le> length (contents b) \<Longrightarrow> contents (retrieved n b) = drop n (contents b)"
  using retrieved_spec by blast+

lemma retrieveUntil_Inr:
  "buffer_inv b \<Longrightarrow> n \<le> length (contents b) \<Longrightarrow> retrieveUntil (peek b + n) b = Inr (retrieved n b)"
  by (simp add: retrieveUntil_def retrieve_Inr length_contents) (auto simp: assert_c_def index_defs buffer_inv_def)

lemma retrieveAsString_Inr:
  "buffer_inv b \<Longrightarrow> n \<le> length (contents b) \<Longrightarrow>
     retrieveAsString n b = Inr (take n (contents b), retrieved n b)"
  by (simp add: retrieveAsString_def Let_def retrieve_Inr bytes_between_take length_contents)

text \<open>Making room keeps the readable bytes; appending never fails.\<close>

lemma makeSpace_spec:
  assumes "buffer_inv b" "writableBytes b < len"
  shows "\<exists>b'. makeSpace len b = Inr b' \<and> buffer_inv b' \<and> contents b' = contents b \<and> len \<le> writableBytes b'"
proof (cases "writableBytes b + prependableBytes b < len + kCheapPrepend")
  case True
  with assms show ?thesis
    by (auto simp: makeSpace_def vec_resize_def buffer_inv_def contents_def bytes_between_def index_defs)
next
  case False
  have r: "kCheapPrepend < readerIndex b"
    using False assms by (simp add: index_defs)
  let ?s = "bytes_between b (readerIndex b) (writerIndex b)"
  let ?b = "b\<lparr>buffer_vec := overwrite (buffer_vec b) kCheapPrepend ?s, readerIndex := kCheapPrepend,
              writerIndex := kCheapPrepend + readableBytes b\<rparr>"
  have len: "length ?s = readableBytes b"
    using assms(1) by (auto simp: bytes_between_def buffer_inv_def index_defs)
  have fits: "kCheapPrepend + readableBytes b \<le> length (buffer_vec b)"
    using assms(1) r by (auto simp: buffer_inv_def index_defs)
  then have vec: "length (buffer_vec ?b) = length (buffer_vec b)" using len by simp
  have "makeSpace len b = Inr ?b"
    using False r by (simp add: makeSpace_def Let_def) (simp add: readableBytes_def)
  moreover have "buffer_inv ?b"
    using assms(1) fits vec by (simp add: buffer_inv_def)
  moreover have "contents ?b = contents b"
    using slice_overwrite [of kCheapPrepend "buffer_vec b" ?s] fits len
    by (simp add: contents_def bytes_between_def [of ?b] peek_def beginWrite_def)
  moreover have "len \<le> writableBytes ?b"
    using False fits vec assms(1) by (auto simp: index_defs buffer_inv_def)
  ultimately show ?thesis by blast
qed

lemma ensureWritableBytes_spec:
  assumes "buffer_inv b"
  shows "\<exists>b'. ensureWritableBytes len b = Inr b' \<and> buffer_inv b' \<and> contents b' = contents b
           \<and> len \<le> writableBytes b'"
  using makeSpace_spec [OF assms, of len] assms
  by (cases "writableBytes b < len") (auto simp: ensureWritableBytes_def)

definition appended :: "char list \<Rightarrow> buffer \<Rightarrow> buffer" where
  "appended s b = projr (buf_append s b)"

lemma write_at_end:
  assumes "buffer_inv b" "length s \<le> writableBytes b"
  shows "hasWritten (length s) (b\<lparr>buffer_vec := overwrite (buffer_vec b) (beginWrite b) s\<rparr>)
         = Inr (b\<lparr>buffer_vec := overwrite (buffer_vec b) (beginWrite b) s,
                 writerIndex := writerIndex b + length s\<rparr>)"
    and "buffer_inv (b\<lparr>buffer_vec := overwrite (buffer_vec b) (beginWrite b) s,
                      writerIndex := writerIndex b + length s\<rparr>)"
    and "contents (b\<lparr>buffer_vec := overwrite (buffer_vec b) (beginWrite b) s,
                    writerIndex := writerIndex b + length s\<rparr>) = contents b @ s"
proof -
  have bounds: "readerIndex b \<le> writerIndex b" "writerIndex b + length s \<le> length (buffer_vec b)"
    "kCheapPrepend \<le> length (buffer_vec b)"
    using assms by (auto simp: buffer_inv_def index_defs)
  show "hasWritten (length s) (b\<lparr>buffer_vec := overwrite (buffer_vec b) (beginWrite b) s\<rparr>)
         = Inr (b\<lparr>buffer_vec := overwrite (buffer_vec b) (beginWrite b) s,
                 writerIndex := writerIndex b + length s\<rparr>)"
    using bounds by (simp add: hasWritten_def assert_c_def index_defs)
  show "buffer_inv (b\<lparr>buffer_vec := overwrite (buffer_vec b) (beginWrite b) s,
                      writerIndex := writerIndex b + length s\<rparr>)"
    using bounds by (simp add: buffer_inv_def beginWrite_def)
  show "contents (b\<lparr>buffer_vec := overwrite (buffer_vec b) (beginWrite b) s,
                    writerIndex := writerIndex b + length s\<rparr>) = contents b @ s"
    using slice_extend [OF bounds(1,2)] by (simp add: contents_def bytes_between_def index_defs)
qed

lemma appended_spec:
  assumes "buffer_inv b"
  shows "buf_append s b = Inr (appended s b) \<and> buffer_inv (appended s b)
         \<and> contents (appended s b) = contents b @ s"
proof -
  obtain b' where b': "ensureWritableBytes (length s) b = Inr b'" "buffer_inv b'"
    "contents b' = contents b" "length s \<le> writableBytes b'"
    using ensureWritableBytes_spec [OF assms] by blast
  note w = write_at_end [OF b'(2,4)]
  have app: "buf_append s b = Inr (b'\<lparr>buffer_vec := overwrite (buffer_vec b') (beginWrite b') s,
                 writerIndex := writerIndex b' + length s\<rparr>)"
    by (simp add: buf_append_def b'(1) w(1))
  show ?thesis using w(2,3) b'(3) by (simp add: appended_def app)
qed

lemma buf_append_Inr: "buffer_inv b \<Longrightarrow> buf_append s b = Inr (appended s b)"
  and appended_inv [simp]: "buffer_inv b \<Longrightarrow> buffer_inv (appended s b)"
  and contents_appended [simp]: "buffer_inv b \<Longrightarrow> contents (appended s b) = contents b @ s"
  using appended_spec by blast+

text \<open>Prepending needs the room in front, and then puts the bytes before the readable ones.\<close>

lemma prepend_spec:
  assumes "buffer_inv b" "length s \<le> prependableBytes b"
  shows "\<exists>b'. prepend s b = Inr b' \<and> buffer_inv b' \<and> contents b' = s @ contents b"
proof -
  have bounds: "length s \<le> readerIndex b" "readerIndex b \<le> writerIndex b"
    "writerIndex b \<le> length (buffer_vec b)" "kCheapPrepend \<le> length (buffer_vec b)"
    using assms by (auto simp: buffer_inv_def index_defs)
  let ?b = "b\<lparr>readerIndex := readerIndex b - length s,
              buffer_vec := overwrite (buffer_vec b) (readerIndex b - length s) s\<rparr>"
  have "prepend s b = Inr ?b" using bounds by (simp add: prepend_def Let_def index_defs)
  moreover have "buffer_inv ?b" using bounds by (simp add: buffer_inv_def)
  moreover have "contents ?b = s @ contents b"
    using slice_prepend [OF bounds(1-3)] by (simp add: contents_def bytes_between_def index_defs)
  ultimately show ?thesis by blast
qed

lemma unwrite_spec:
  assumes "buffer_inv b" "n \<le> length (contents b)"
  shows "\<exists>b'. unwrite n b = Inr b' \<and> buffer_inv b' \<and> contents b' = take (length (contents b) - n) (contents b)"
  using assms by (auto simp: unwrite_def length_contents)
    (auto simp: buffer_inv_def contents_def bytes_between_def index_defs min_def ac_simps)

lemma shrink_spec:
  assumes "buffer_inv b" "length (contents b) < 2 ^ 31"
  shows "\<exists>b'. shrink reserve b = Inr b' \<and> buffer_inv b' \<and> contents b' = contents b"
proof -
  obtain oth where oth: "ensureWritableBytes (readableBytes b + reserve) (new_buffer kInitialSize) = Inr oth"
    "buffer_inv oth" "contents oth = []"
    using ensureWritableBytes_spec [OF new_buffer_inv, of "readableBytes b + reserve" kInitialSize] by auto
  have str: "toStringPiece b = Inr (contents b)"
    using assms by (simp add: toStringPiece_def bytes_between_take length_contents)
  let ?o = "appended (contents b) oth"
  have "shrink reserve b = Inr (fst (buffer_swap b ?o))"
    using oth by (simp add: shrink_def str buf_append_Inr)
  moreover have "buffer_inv (fst (buffer_swap b ?o))"
    using appended_inv [OF oth(2), of "contents b"] by (simp add: buffer_swap_def buffer_inv_def)
  moreover have "contents (fst (buffer_swap b ?o)) = contents ?o"
    by (simp add: buffer_swap_def contents_def bytes_between_def index_defs)
  ultimately show ?thesis using oth by simp
qed

section \<open>The buffer as a queue of bytes\<close>

text \<open>
  What the protocol code relies on: appending never fails and adds at the back; retrieving within
  the readable bytes never fails and removes from the front.
\<close>

locale byte_queue =
  fixes bytes :: "'b \<Rightarrow> char list"
    and inv :: "'b \<Rightarrow> bool"
    and app :: "char list \<Rightarrow> 'b \<Rightarrow> 'b res"
    and ret :: "nat \<Rightarrow> 'b \<Rightarrow> 'b res"
  assumes app_ok: "inv b \<Longrightarrow> \<exists>b'. app s b = Inr b' \<and> inv b' \<and> bytes b' = bytes b @ s"
    and ret_ok: "inv b \<Longrightarrow> n \<le> length (bytes b) \<Longrightarrow>
                   \<exists>b'. ret n b = Inr b' \<and> inv b' \<and> bytes b' = drop n (bytes b)"
    and ret_fail: "inv b \<Longrightarrow> length (bytes b) < n \<Longrightarrow> ret n b = Inl Assert_failed"
begin

lemma app_then_ret:
  "inv b \<Longrightarrow> bytes b = [] \<Longrightarrow>
     \<exists>b'. rbind (app s b) (ret (length s)) = Inr b' \<and> inv b' \<and> bytes b' = []"
proof -
  assume "inv b" "bytes b = []"
  then obtain b1 where b1: "app s b = Inr b1" "inv b1" "bytes b1 = s"
    using app_ok [of b s] by auto
  with ret_ok [of b1 "length s"] show ?thesis by auto
qed

lemma app_app:
  "inv b \<Longrightarrow> \<exists>b'. rbind (app s b) (app t) = Inr b' \<and> inv b' \<and> bytes b' = bytes b @ s @ t"
proof -
  assume "inv b"
  then obtain b1 where b1: "app s b = Inr b1" "inv b1" "bytes b1 = bytes b @ s"
    using app_ok [of b s] by auto
  with app_ok [of b1 t] show ?thesis by auto
qed

lemma ret_ret:
  assumes "inv b" "m + n \<le> length (bytes b)"
  shows "\<exists>b'. rbind (ret m b) (ret n) = Inr b' \<and> inv b' \<and> bytes b' = drop (m + n) (bytes b)"
proof -
  obtain b1 where b1: "ret m b = Inr b1" "inv b1" "bytes b1 = drop m (bytes b)"
    using ret_ok [of b m] assms by auto
  with ret_ok [of b1 n] assms show ?thesis by (auto simp: add.commute)
qed

lemma app_fold:
  "inv b \<Longrightarrow> \<exists>b'. fold (\<lambda>s r. rbind r (app s)) ss (Inr b) = Inr b' \<and> inv b' \<and> bytes b' = bytes b @ concat ss"
proof (induction ss arbitrary: b)
  case Nil
  then show ?case by simp
next
  case (Cons s ss)
  from app_ok [OF Cons.prems, of s] obtain b1 where "app s b = Inr b1" "inv b1" "bytes b1 = bytes b @ s"
    by blast
  with Cons.IH [of b1] show ?case by auto
qed

end

interpretation bq: byte_queue contents buffer_inv buf_append retrieve
proof unfold_locales
  fix b s assume "buffer_inv b"
  then show "\<exists>b'. buf_append s b = Inr b' \<and> buffer_inv b' \<and> contents b' = contents b @ s"
    using appended_spec by blast
next
  fix b n assume "buffer_inv b" "n \<le> length (contents b)"
  then show "\<exists>b'. retrieve n b = Inr b' \<and> buffer_inv b' \<and> contents b' = drop n (contents b)"
    using retrieve_Inr retrieved_spec by blast
qed (rule retrieve_over)

section \<open>Refinement of a queue of bytes\<close>

text \<open>
  The operations a client can apply in any order, on the buffer and on the abstract queue, a plain
  list of bytes. Both stop at the first assertion; the abstract queue has no indices and no vector.
\<close>

datatype buf_op =
    Op_append "char list"
  | Op_retrieve nat
  | Op_retrieveAll
  | Op_unwrite nat
  | Op_ensureWritable nat
  | Op_shrink nat

fun buf_step :: "buf_op \<Rightarrow> buffer \<Rightarrow> buffer res" where
  "buf_step (Op_append s) b = buf_append s b"
| "buf_step (Op_retrieve n) b = retrieve n b"
| "buf_step Op_retrieveAll b = Inr (retrieveAll b)"
| "buf_step (Op_unwrite n) b = unwrite n b"
| "buf_step (Op_ensureWritable n) b = ensureWritableBytes n b"
| "buf_step (Op_shrink n) b = shrink n b"

fun queue_step :: "buf_op \<Rightarrow> char list \<Rightarrow> char list res" where
  "queue_step (Op_append s) cs = Inr (cs @ s)"
| "queue_step (Op_retrieve n) cs = assert_c (n \<le> length cs) (Inr (drop n cs))"
| "queue_step Op_retrieveAll cs = Inr []"
| "queue_step (Op_unwrite n) cs = assert_c (n \<le> length cs) (Inr (take (length cs - n) cs))"
| "queue_step (Op_ensureWritable n) cs = Inr cs"
| "queue_step (Op_shrink n) cs = (if length cs < 2 ^ 31 then Inr cs else Inl Out_of_range)"

fun buf_run :: "buf_op list \<Rightarrow> buffer \<Rightarrow> buffer res" where
  "buf_run [] b = Inr b"
| "buf_run (x # xs) b = rbind (buf_step x b) (buf_run xs)"

fun queue_run :: "buf_op list \<Rightarrow> char list \<Rightarrow> char list res" where
  "queue_run [] cs = Inr cs"
| "queue_run (x # xs) cs = rbind (queue_step x cs) (queue_run xs)"

definition sim_res :: "buffer res \<Rightarrow> char list res \<Rightarrow> bool" where
  "sim_res r q \<longleftrightarrow>
     (case r of Inl e \<Rightarrow> q = Inl e | Inr b \<Rightarrow> buffer_inv b \<and> q = Inr (contents b))"

lemma sim_res_simps [simp]:
  "sim_res (Inl e) q \<longleftrightarrow> q = Inl e"
  "sim_res (Inr b) q \<longleftrightarrow> buffer_inv b \<and> q = Inr (contents b)"
  by (simp_all add: sim_res_def)

lemma buf_step_sim: "buffer_inv b \<Longrightarrow> sim_res (buf_step x b) (queue_step x (contents b))"
proof (cases x)
  case (Op_append s)
  assume "buffer_inv b"
  with Op_append show ?thesis by (simp add: buf_append_Inr)
next
  case (Op_retrieve n)
  assume "buffer_inv b"
  with Op_retrieve show ?thesis
    by (cases "n \<le> length (contents b)") (simp_all add: retrieve_Inr retrieve_over)
next
  case Op_retrieveAll
  assume "buffer_inv b"
  with Op_retrieveAll show ?thesis by simp
next
  case (Op_unwrite n)
  assume b: "buffer_inv b"
  show ?thesis
  proof (cases "n \<le> length (contents b)")
    case True
    with unwrite_spec [OF b True] Op_unwrite show ?thesis by auto
  next
    case False
    with b Op_unwrite show ?thesis by (simp add: unwrite_def length_contents)
  qed
next
  case (Op_ensureWritable n)
  assume "buffer_inv b"
  with ensureWritableBytes_spec [of b n] Op_ensureWritable show ?thesis by auto
next
  case (Op_shrink n)
  assume b: "buffer_inv b"
  show ?thesis
  proof (cases "length (contents b) < 2 ^ 31")
    case True
    with shrink_spec [OF b True, of n] Op_shrink show ?thesis by auto
  next
    case False
    moreover obtain oth where "ensureWritableBytes (readableBytes b + n) (new_buffer kInitialSize) = Inr oth"
      using ensureWritableBytes_spec [OF new_buffer_inv] by blast
    ultimately show ?thesis
      using b Op_shrink by (simp add: shrink_def toStringPiece_def length_contents)
  qed
qed



section \<open>Reading from a descriptor: what reaches the buffer\<close>

lemma fill_writable:
  assumes "buffer_inv b" "n = length bytes" "n \<le> writableBytes b"
  shows "buffer_inv (b\<lparr>buffer_vec := overwrite (buffer_vec b) (writerIndex b) bytes,
                      writerIndex := writerIndex b + n\<rparr>)"
    and "contents (b\<lparr>buffer_vec := overwrite (buffer_vec b) (writerIndex b) bytes,
                    writerIndex := writerIndex b + n\<rparr>) = contents b @ bytes"
  using write_at_end(2,3) [of b bytes] assms by (simp_all add: beginWrite_def)

lemma readFd_ok:
  assumes inv: "buffer_inv b" and k: "readv_k (readFd_iov b) = Readv_ok bytes"
  shows "\<exists>b'. readFd readv_k b = Inr (int (length bytes), None, b') \<and> buffer_inv b'
             \<and> contents b' = contents b @ bytes"
proof (cases "length bytes \<le> writableBytes b")
  case True
  then have "readFd readv_k b = Inr (int (length bytes), None,
      b\<lparr>buffer_vec := overwrite (buffer_vec b) (writerIndex b) bytes,
        writerIndex := writerIndex b + length bytes\<rparr>)"
    using k by (simp add: readFd_def Let_def)
  with fill_writable [OF inv refl True] show ?thesis by blast
next
  case False
  let ?w = "writableBytes b"
  let ?b1 = "b\<lparr>buffer_vec := overwrite (buffer_vec b) (writerIndex b) (take ?w bytes),
               writerIndex := writerIndex b + ?w\<rparr>"
  from False have len: "?w = length (take ?w bytes)" by simp
  note b1 = fill_writable [OF inv len order_refl]
  have sz: "length (overwrite (buffer_vec b) (writerIndex b) (take ?w bytes)) = writerIndex b + ?w"
    using inv False by (auto simp: buffer_inv_def writableBytes_def)
  have "readFd readv_k b = Inr (int (length bytes), None, appended (drop ?w bytes) ?b1)"
    using False k b1(1) by (simp add: readFd_def Let_def sz buf_append_Inr)
  with b1 show ?thesis by (simp add: append_assoc)
qed

text \<open>C2: One Buffer::readFd call, against any readv that returns at most the bytes it was offered room
  for: an error leaves the buffer as it was and saves errno; otherwise every byte the kernel
  delivered is appended to the readable bytes in order, those that landed in the 64 KiB stack buffer
  included, the result is their number, and at most 128 KiB - 1 bytes arrive when the stack buffer
  is used, as its comment says.\<close>

theorem readFd_appends:
  assumes "buffer_inv b" and "readv_result_ok readv_k"
  shows "case readv_k (readFd_iov b) of
      Readv_err e \<Rightarrow> readFd readv_k b = Inr (- 1, Some e, b)
    | Readv_ok bytes \<Rightarrow>
        (\<exists>b'. readFd readv_k b = Inr (int (length bytes), None, b') \<and> buffer_inv b'
              \<and> contents b' = contents b @ bytes
              \<and> length bytes \<le> (if length (readFd_iov b) = 2 then 128 * 1024 - 1 else writableBytes b))"
proof (cases "readv_k (readFd_iov b)")
  case (Readv_ok bytes)
  with assms(2) have "length bytes \<le> sum_list (readFd_iov b)" by (simp add: readv_result_ok_def)
  then have "length bytes \<le> (if length (readFd_iov b) = 2 then 128 * 1024 - 1 else writableBytes b)"
    by (simp add: readFd_iov_def Let_def sizeof_extrabuf_def split: if_splits)
  with readFd_ok [where readv_k = readv_k, OF assms(1) Readv_ok] Readv_ok show ?thesis by auto
next
  case (Readv_err e)
  then show ?thesis by (simp add: readFd_def Let_def)
qed

theorem readFd_appends_witness:
  "\<exists>b'. readFd (\<lambda>lens. Readv_ok (take (sum_list lens) ''GET / HTTP/1.1'')) (new_buffer 4) = Inr (14, None, b')
          \<and> contents b' = ''GET / HTTP/1.1''"
proof -
  let ?k = "\<lambda>lens. Readv_ok (take (sum_list lens) ''GET / HTTP/1.1'')"
  have k: "readv_result_ok ?k" by (simp add: readv_result_ok_def)
  have kv: "?k (readFd_iov (new_buffer 4)) = Readv_ok ''GET / HTTP/1.1''"
    by (simp add: readFd_iov_def Let_def sizeof_extrabuf_def new_buffer_asserts)
  show ?thesis
    using readFd_appends [OF new_buffer_inv [of 4] k] unfolding kv by auto
qed

section \<open>Integers\<close>

lemma read_codec:
  assumes "buffer_inv b" "contents b = s @ rest" "length s = n"
  shows "n \<le> readableBytes b" "bytes_between b (peek b) (peek b + n) = s"
    "retrieve n b = Inr (retrieved n b)" "buffer_inv (retrieved n b)" "contents (retrieved n b) = rest"
  using assms by (simp_all add: readable_is_length bytes_between_take retrieve_Inr)

lemma readInt64_front:
  assumes "buffer_inv b" "contents b = be64_enc x @ rest"
  shows "readInt64 b = Inr (x, retrieved 8 b)"
  using read_codec [OF assms be64.length_enc] be64.dec_enc [of x]
  by (simp add: readInt64_def peekInt64_def retrieveInt64_def be64_dec_def)

lemma readInt32_front:
  assumes "buffer_inv b" "contents b = be32_enc x @ rest"
  shows "readInt32 b = Inr (x, retrieved 4 b)"
  using read_codec [OF assms be32.length_enc] be32.dec_enc [of x]
  by (simp add: readInt32_def peekInt32_def retrieveInt32_def be32_dec_def)

lemma readInt16_front:
  assumes "buffer_inv b" "contents b = be16_enc x @ rest"
  shows "readInt16 b = Inr (x, retrieved 2 b)"
  using read_codec [OF assms be16.length_enc] be16.dec_enc [of x]
  by (simp add: readInt16_def peekInt16_def retrieveInt16_def be16_dec_def)

lemma readInt8_front:
  assumes "buffer_inv b" "contents b = be8_enc x @ rest"
  shows "readInt8 b = Inr (x, retrieved 1 b)"
  using read_codec [OF assms be8.length_enc] be8.dec_enc [of x]
  by (simp add: readInt8_def peekInt8_def retrieveInt8_def be8_dec_def)

lemma appendInt_codecs:
  "appendInt64 x b = buf_append (be64_enc x) b" "appendInt32 y b = buf_append (be32_enc y) b"
  "appendInt16 z b = buf_append (be16_enc z) b" "appendInt8 w b = buf_append (be8_enc w) b"
  by (simp_all add: appendInt64_def appendInt32_def appendInt16_def appendInt8_def
      be64_enc_def be32_enc_def be16_enc_def be8_enc_def Let_def)

lemma prependInt_codecs:
  "prependInt64 x b = prepend (be64_enc x) b" "prependInt32 y b = prepend (be32_enc y) b"
  "prependInt16 z b = prepend (be16_enc z) b" "prependInt8 w b = prepend (be8_enc w) b"
  by (simp_all add: prependInt64_def prependInt32_def prependInt16_def prependInt8_def
      be64_enc_def be32_enc_def be16_enc_def be8_enc_def Let_def)

text \<open>C3: Integers of every width come back as they went in: after appendInt64, appendInt32, appendInt16
  and appendInt8 on an empty buffer, readInt64, readInt32, readInt16 and readInt8 return the same
  values in that order without an assertion and leave the buffer empty; on the wire a 64-bit value
  is its bytes, most significant first.\<close>

theorem append_read_ints_roundtrip:
  assumes "buffer_inv b" "contents b = []"
  shows "\<exists>b'. rbind (appendInt64 x b) (\<lambda>b. rbind (appendInt32 y b) (\<lambda>b. rbind (appendInt16 z b) (appendInt8 w)))
              = Inr b'
            \<and> contents b' = rev (le_bytes 8 (unat x)) @ rev (le_bytes 4 (unat y)) @ rev (le_bytes 2 (unat z)) @ be8_enc w
            \<and> (\<exists>b''. rbind (readInt64 b') (\<lambda>(x', b). rbind (readInt32 b) (\<lambda>(y', b).
                    rbind (readInt16 b) (\<lambda>(z', b). rbind (readInt8 b) (\<lambda>(w', b). Inr (x', y', z', w', b)))))
                  = Inr (x, y, z, w, b'') \<and> buffer_inv b'' \<and> contents b'' = [])"
proof -
  let ?b = "appended (be8_enc w) (appended (be16_enc z) (appended (be32_enc y) (appended (be64_enc x) b)))"
  have inv: "buffer_inv ?b" using assms by simp
  have c: "contents ?b = be64_enc x @ be32_enc y @ be16_enc z @ be8_enc w" using assms by simp
  note r1 = read_codec(4,5) [OF inv c be64.length_enc]
  note r2 = read_codec(4,5) [OF r1 be32.length_enc]
  note r3 = read_codec(4,5) [OF r2 be16.length_enc]
  have r4: "contents (retrieved 2 (retrieved 4 (retrieved 8 ?b))) = be8_enc w @ []" using r3(2) by simp
  note r5 = read_codec(4,5) [OF r3(1) r4 be8.length_enc]
  show ?thesis
  proof (intro exI conjI)
    show "rbind (appendInt64 x b) (\<lambda>b. rbind (appendInt32 y b) (\<lambda>b. rbind (appendInt16 z b) (appendInt8 w))) = Inr ?b"
      using assms by (simp add: appendInt_codecs buf_append_Inr)
    show "contents ?b = rev (le_bytes 8 (unat x)) @ rev (le_bytes 4 (unat y)) @ rev (le_bytes 2 (unat z)) @ be8_enc w"
      using c by (simp add: be64_enc_big_endian be32_enc_big_endian be16_enc_big_endian)
    show "rbind (readInt64 ?b) (\<lambda>(x', b). rbind (readInt32 b) (\<lambda>(y', b).
            rbind (readInt16 b) (\<lambda>(z', b). rbind (readInt8 b) (\<lambda>(w', b). Inr (x', y', z', w', b)))))
          = Inr (x, y, z, w, retrieved 1 (retrieved 2 (retrieved 4 (retrieved 8 ?b))))"
      by (simp only: readInt64_front [OF inv c] readInt32_front [OF r1] readInt16_front [OF r2]
          readInt8_front [OF r3(1) r4] rbind_Inr prod.case)
  qed (use r5 in simp_all)
qed

theorem append_read_ints_roundtrip_witness:
  "\<exists>b'. rbind (appendInt64 258 (new_buffer 4)) (\<lambda>b. rbind (appendInt32 7 b)
          (\<lambda>b. rbind (appendInt16 513 b) (appendInt8 9))) = Inr b'
      \<and> contents b' = rev (le_bytes 8 258) @ rev (le_bytes 4 7) @ rev (le_bytes 2 513) @ be8_enc 9"
proof -
  have "unat (258 :: 64 word) = 258" "unat (7 :: 32 word) = 7" "unat (513 :: 16 word) = 513" by simp_all
  with append_read_ints_roundtrip [OF new_buffer_inv [of 4] contents_new_buffer [of 4], of 258 7 513 9]
  show ?thesis by (metis (no_types))
qed

section \<open>Lines of text\<close>

lemma search_crlf_line: "CHR 0x0D \<notin> set line \<Longrightarrow> std_search kCRLF (line @ kCRLF @ rest) = Some (length line)"
  by (induction line) (auto simp: kCRLF_def)

lemma crlf_line_parts:
  "take (length line) (line @ kCRLF @ rest) = line" "drop (length line + 2) (line @ kCRLF @ rest) = rest"
  by (simp_all add: kCRLF_def)

text \<open>The lines of a list of header fields, of a request or of a response.\<close>

definition header_lines :: "(char list \<times> char list) list \<Rightarrow> char list" where
  "header_lines hs = concat (map (\<lambda>(k, v). k @ '': '' @ v @ kCRLF) hs)"

end
