(* ===== verification/HttpContext.thy ===== *)
theory HttpContext
  imports HttpRequest NetBuffer
begin

text \<open>
  http/HttpContext.h and http/HttpContext.cc: the per-connection parser of HTTP requests. The loop
  of parseRequest is one step function and a partial function that iterates it, so that a run that
  does not return is the value \<open>None\<close>; the local \<open>body_lenth\<close>, which the function leaves
  uninitialised, is an option, and reading it before it is assigned is a fault.
\<close>

section \<open>State\<close>

datatype parse_state = kExpectRequestLine | kExpectHeaders | kExpectBody | kGotAll

text \<open>
  The iterator into the server's connection list is the identity of the list node it points to,
  \<open>None\<close> when it was never set; \<open>close_\<close> is not set by the constructor.
\<close>

record http_context =
  cx_state :: parse_state
  cx_request :: http_request
  cx_lastReceiveTime :: timestamp
  cx_position :: "nat option"
  cx_cgiRequestId :: int
  cx_close :: "bool option"

definition new_context :: http_context where
  "new_context = \<lparr>cx_state = kExpectRequestLine, cx_request = new_request,
                  cx_lastReceiveTime = invalid_ts, cx_position = None, cx_cgiRequestId = 0, cx_close = None\<rparr>"

definition gotAll :: "http_context \<Rightarrow> bool" where
  "gotAll c \<longleftrightarrow> cx_state c = kGotAll"

definition ctx_reset :: "http_context \<Rightarrow> http_context" where
  "ctx_reset c =
     (let dummy = new_request
      in c\<lparr>cx_state := kExpectRequestLine, cx_request := fst (request_swap (cx_request c) dummy)\<rparr>)"

definition setLastReceiveTime :: "timestamp \<Rightarrow> http_context \<Rightarrow> http_context" where
  "setLastReceiveTime t c = c\<lparr>cx_lastReceiveTime := t\<rparr>"

definition setPostion :: "nat \<Rightarrow> http_context \<Rightarrow> http_context" where
  "setPostion i c = c\<lparr>cx_position := Some i\<rparr>"

definition setCgiRequestId :: "int \<Rightarrow> http_context \<Rightarrow> http_context" where
  "setCgiRequestId i c = c\<lparr>cx_cgiRequestId := i\<rparr>"

definition setClose :: "bool \<Rightarrow> http_context \<Rightarrow> http_context" where
  "setClose b c = c\<lparr>cx_close := Some b\<rparr>"

definition getClose :: "http_context \<Rightarrow> bool res" where
  "getClose c = (case cx_close c of Some b \<Rightarrow> Inr b | None \<Rightarrow> Inl Uninitialised)"

section \<open>The request line\<close>

definition processRequestLine :: "char list \<Rightarrow> http_request \<Rightarrow> (bool \<times> http_request) res" where
  "processRequestLine line r =
     (let space = std_find (CHR '' '') line
      in if space \<noteq> length line
         then rbind (setMethod (take space line) r) (\<lambda>(known, r).
           if known
           then (let rest = drop (space + 1) line;
                     space = std_find (CHR '' '') rest
                 in if space \<noteq> length rest
                    then (let target = take space rest;
                              question = std_find (CHR ''?'') target;
                              r = (if question \<noteq> length target
                                   then setQuery (drop question target) (setPath (take question target) r)
                                   else setPath target r);
                              version = drop (space + 1) rest
                          in if length version = 8 \<and> take 7 version = ''HTTP/1.''
                             then (if version ! 7 = CHR ''1'' then Inr (True, setVersion kHttp11 r)
                                   else if version ! 7 = CHR ''0'' then Inr (True, setVersion kHttp10 r)
                                   else Inr (False, r))
                             else Inr (False, r))
                    else Inr (False, r))
           else Inr (False, r))
         else Inr (False, r))"

section \<open>The parser loop\<close>

text \<open>
  One round of the loop: \<open>(hasMore, ok, context, buffer, body_lenth)\<close>. A round in state
  \<open>kGotAll\<close> matches no branch and changes nothing.
\<close>

type_synonym parse_vars = "http_context \<times> buffer \<times> int option"

definition parse_request_line :: "timestamp \<Rightarrow> parse_vars \<Rightarrow> (bool \<times> bool \<times> parse_vars) res" where
  "parse_request_line receiveTime = (\<lambda>(c, buf, len).
     case findCRLF buf of
       Some crlf \<Rightarrow>
         rbind (processRequestLine (bytes_between buf (peek buf) crlf) (cx_request c)) (\<lambda>(ok, r).
           if ok
           then rbind (retrieveUntil (crlf + 2) buf) (\<lambda>buf.
                  Inr (True, True, c\<lparr>cx_request := setReceiveTime receiveTime r, cx_state := kExpectHeaders\<rparr>, buf, len))
           else Inr (False, False, c\<lparr>cx_request := r\<rparr>, buf, len))
     | None \<Rightarrow> Inr (False, True, c, buf, len))"

definition parse_header_line :: "parse_vars \<Rightarrow> (bool \<times> bool \<times> parse_vars) res" where
  "parse_header_line = (\<lambda>(c, buf, len).
     case findCRLF buf of
       Some crlf \<Rightarrow>
         (let line = bytes_between buf (peek buf) crlf;
              colon = std_find (CHR '':'') line
          in rbind
              (if colon \<noteq> length line
               then Inr (True, c\<lparr>cx_request := addHeader line colon (cx_request c)\<rparr>, len)
               else if length (getHeader ''Content-Length'' (cx_request c)) = 0
               then Inr (False, c\<lparr>cx_state := kGotAll\<rparr>, len)
               else rbind (stoi (getHeader ''Content-Length'' (cx_request c))) (\<lambda>n.
                      Inr (True, c\<lparr>cx_state := kExpectBody\<rparr>, Some n)))
              (\<lambda>(hasMore, c, len).
                 rbind (retrieveUntil (crlf + 2) buf) (\<lambda>buf. Inr (hasMore, True, c, buf, len))))
     | None \<Rightarrow> Inr (False, True, c, buf, len))"

text \<open>\<open>static_cast<size_t>\<close> of an int.\<close>

definition size_t_of_int :: "int \<Rightarrow> nat" where
  "size_t_of_int v = nat (v mod 2 ^ 64)"

definition parse_body :: "parse_vars \<Rightarrow> (bool \<times> bool \<times> parse_vars) res" where
  "parse_body = (\<lambda>(c, buf, len).
     case len of
       None \<Rightarrow> Inl Uninitialised
     | Some body_lenth \<Rightarrow>
         if readableBytes buf \<ge> size_t_of_int body_lenth
         then Inr (False, True,
                c\<lparr>cx_request := setBody (bytes_between buf (peek buf) (peek buf + size_t_of_int body_lenth)) (cx_request c),
                  cx_state := kGotAll\<rparr>, buf, len)
         else Inr (False, True, c, buf, len))"

definition parse_round :: "timestamp \<Rightarrow> parse_vars \<Rightarrow> (bool \<times> bool \<times> parse_vars) res" where
  "parse_round receiveTime v =
     (case cx_state (fst v) of
        kExpectRequestLine \<Rightarrow> parse_request_line receiveTime v
      | kExpectHeaders \<Rightarrow> parse_header_line v
      | kExpectBody \<Rightarrow> parse_body v
      | kGotAll \<Rightarrow> Inr (True, True, v))"

partial_function (option) parse_loop :: "timestamp \<Rightarrow> parse_vars \<Rightarrow> (bool \<times> http_context \<times> buffer) res option" where
  "parse_loop receiveTime v =
     (case parse_round receiveTime v of
        Inl e \<Rightarrow> Some (Inl e)
      | Inr q \<Rightarrow> (if fst q then parse_loop receiveTime (snd (snd q))
                  else Some (Inr (fst (snd q), fst (snd (snd q)), fst (snd (snd (snd q)))))))"

definition parseRequest :: "timestamp \<Rightarrow> http_context \<Rightarrow> buffer \<Rightarrow> (bool \<times> http_context \<times> buffer) res option" where
  "parseRequest receiveTime c buf = parse_loop receiveTime (c, buf, None)"

section \<open>The parser on plain bytes\<close>

text \<open>
  The same loop on the list of unread bytes instead of the buffer. It is the specification the
  buffer version is shown to implement; every round that goes on consumes a line, which is why it
  terminates from every state but \<open>kGotAll\<close>.
\<close>

type_synonym text_vars = "http_context \<times> char list \<times> int option"

definition text_request_line :: "timestamp \<Rightarrow> text_vars \<Rightarrow> (bool \<times> bool \<times> text_vars) res" where
  "text_request_line t = (\<lambda>(c, cs, len).
     case std_search kCRLF cs of
       Some i \<Rightarrow>
         rbind (processRequestLine (take i cs) (cx_request c)) (\<lambda>(ok, r).
           if ok
           then Inr (True, True, c\<lparr>cx_request := setReceiveTime t r, cx_state := kExpectHeaders\<rparr>, drop (i + 2) cs, len)
           else Inr (False, False, c\<lparr>cx_request := r\<rparr>, cs, len))
     | None \<Rightarrow> Inr (False, True, c, cs, len))"

definition text_header_line :: "text_vars \<Rightarrow> (bool \<times> bool \<times> text_vars) res" where
  "text_header_line = (\<lambda>(c, cs, len).
     case std_search kCRLF cs of
       Some i \<Rightarrow>
         (let line = take i cs; colon = std_find (CHR '':'') line
          in rbind
              (if colon \<noteq> length line
               then Inr (True, c\<lparr>cx_request := addHeader line colon (cx_request c)\<rparr>, len)
               else if length (getHeader ''Content-Length'' (cx_request c)) = 0
               then Inr (False, c\<lparr>cx_state := kGotAll\<rparr>, len)
               else rbind (stoi (getHeader ''Content-Length'' (cx_request c))) (\<lambda>n.
                      Inr (True, c\<lparr>cx_state := kExpectBody\<rparr>, Some n)))
              (\<lambda>(hasMore, c, len). Inr (hasMore, True, c, drop (i + 2) cs, len)))
     | None \<Rightarrow> Inr (False, True, c, cs, len))"

definition text_body :: "text_vars \<Rightarrow> (bool \<times> bool \<times> text_vars) res" where
  "text_body = (\<lambda>(c, cs, len).
     case len of
       None \<Rightarrow> Inl Uninitialised
     | Some n \<Rightarrow>
         if length cs \<ge> size_t_of_int n
         then Inr (False, True,
                c\<lparr>cx_request := setBody (take (size_t_of_int n) cs) (cx_request c), cx_state := kGotAll\<rparr>, cs, len)
         else Inr (False, True, c, cs, len))"

definition text_round :: "timestamp \<Rightarrow> text_vars \<Rightarrow> (bool \<times> bool \<times> text_vars) res" where
  "text_round t v =
     (case cx_state (fst v) of
        kExpectRequestLine \<Rightarrow> text_request_line t v
      | kExpectHeaders \<Rightarrow> text_header_line v
      | kExpectBody \<Rightarrow> text_body v
      | kGotAll \<Rightarrow> Inr (True, True, v))"

lemma search_crlf_bound: "std_search kCRLF cs = Some i \<Longrightarrow> i + 2 \<le> length cs"
  using std_search_SomeD [of kCRLF cs i] by (simp add: kCRLF_def)

lemma text_round_consumes:
  assumes "text_round t (c, cs, len) = Inr (True, ok, c', cs', len')" "cx_state c \<noteq> kGotAll"
  shows "length cs' < length cs \<and> cx_state c' \<noteq> kGotAll \<and> ok"
  using assms
  by (auto simp: text_round_def text_request_line_def text_header_line_def text_body_def Let_def
      res_iffs dest!: search_crlf_bound split: parse_state.splits option.splits if_splits)

function text_loop :: "timestamp \<Rightarrow> text_vars \<Rightarrow> (bool \<times> http_context \<times> char list) res option" where
  "text_loop t (c, cs, len) =
     (if cx_state c = kGotAll then None
      else case text_round t (c, cs, len) of
        Inl e \<Rightarrow> Some (Inl e)
      | Inr (go_on, ok, c', cs', len') \<Rightarrow>
          (if go_on then text_loop t (c', cs', len') else Some (Inr (ok, c', cs'))))"
  by pat_completeness auto
termination
  by (relation "measure (\<lambda>(t, c, cs, len). length cs)") (auto dest: text_round_consumes)

declare text_loop.simps [simp del]

definition sim_round :: "(bool \<times> bool \<times> parse_vars) res \<Rightarrow> (bool \<times> bool \<times> text_vars) res \<Rightarrow> bool" where
  "sim_round r q \<longleftrightarrow>
     (case r of Inl e \<Rightarrow> q = Inl e
      | Inr (go_on, ok, c, buf, len) \<Rightarrow> buffer_inv buf \<and> q = Inr (go_on, ok, c, contents buf, len))"

lemma sim_round_simps [simp]:
  "sim_round (Inl e) q \<longleftrightarrow> q = Inl e"
  "sim_round (Inr (go_on, ok, c, buf, len)) q \<longleftrightarrow> buffer_inv buf \<and> q = Inr (go_on, ok, c, contents buf, len)"
  by (simp_all add: sim_round_def)

text \<open>What findCRLF and the range up to it mean for the bytes.\<close>

lemma findCRLF_contents:
  "findCRLF b = map_option (\<lambda>i. peek b + i) (std_search kCRLF (contents b))"
  by (simp add: findCRLF_def contents_def)

lemma line_contents:
  "buffer_inv b \<Longrightarrow> std_search kCRLF (contents b) = Some i \<Longrightarrow>
     bytes_between b (peek b) (peek b + i) = take i (contents b)"
  using search_crlf_bound [of "contents b" i] by (simp add: bytes_between_take length_contents)

lemma take_line_contents:
  "buffer_inv b \<Longrightarrow> std_search kCRLF (contents b) = Some i \<Longrightarrow>
     retrieveUntil (peek b + i + 2) b = Inr (retrieved (i + 2) b)
     \<and> buffer_inv (retrieved (i + 2) b) \<and> contents (retrieved (i + 2) b) = drop (i + 2) (contents b)"
  using retrieveUntil_Inr [of b "i + 2"] search_crlf_bound [of "contents b" i] by (simp add: add.assoc)

lemma parse_round_sim:
  assumes inv: "buffer_inv buf"
  shows "sim_round (parse_round t (c, buf, len)) (text_round t (c, contents buf, len))"
proof (cases "cx_state c")
  case kExpectRequestLine
  show ?thesis
  proof (cases "std_search kCRLF (contents buf)")
    case None
    with kExpectRequestLine inv show ?thesis
      by (simp add: parse_round_def text_round_def parse_request_line_def text_request_line_def findCRLF_contents)
  next
    case (Some i)
    note l = line_contents [OF inv Some] take_line_contents [OF inv Some]
    show ?thesis
      by (cases "processRequestLine (take i (contents buf)) (cx_request c)")
        (use kExpectRequestLine inv Some l in \<open>auto simp: parse_round_def text_round_def
          parse_request_line_def text_request_line_def findCRLF_contents\<close>)
  qed
next
  case kExpectHeaders
  show ?thesis
  proof (cases "std_search kCRLF (contents buf)")
    case None
    with kExpectHeaders inv show ?thesis
      by (simp add: parse_round_def text_round_def parse_header_line_def text_header_line_def findCRLF_contents)
  next
    case (Some i)
    note l = line_contents [OF inv Some] take_line_contents [OF inv Some]
    show ?thesis
      by (cases "stoi (getHeader ''Content-Length'' (cx_request c))")
        (use kExpectHeaders inv Some l in \<open>auto simp: parse_round_def text_round_def
          parse_header_line_def text_header_line_def findCRLF_contents Let_def\<close>)
  qed
next
  case kExpectBody
  with inv show ?thesis
    by (auto simp: parse_round_def text_round_def parse_body_def text_body_def readable_is_length
        bytes_between_take split: option.splits)
next
  case kGotAll
  with inv show ?thesis by (simp add: parse_round_def text_round_def)
qed

section \<open>The parser implements its specification\<close>

definition sim_loop :: "(bool \<times> http_context \<times> buffer) res option \<Rightarrow> (bool \<times> http_context \<times> char list) res option \<Rightarrow> bool" where
  "sim_loop r q \<longleftrightarrow>
     (case r of
        None \<Rightarrow> q = None
      | Some (Inl e) \<Rightarrow> q = Some (Inl e)
      | Some (Inr (ok, c, b)) \<Rightarrow> buffer_inv b \<and> q = Some (Inr (ok, c, contents b)))"

lemma sim_loop_simps [simp]:
  "sim_loop None q \<longleftrightarrow> q = None"
  "sim_loop (Some (Inl e)) q \<longleftrightarrow> q = Some (Inl e)"
  "sim_loop (Some (Inr (ok, c, b))) q \<longleftrightarrow> buffer_inv b \<and> q = Some (Inr (ok, c, contents b))"
  by (simp_all add: sim_loop_def)

lemma parse_loop_gotAll: "cx_state (fst v) = kGotAll \<Longrightarrow> parse_loop t v = None"
proof (rule ccontr)
  assume st: "cx_state (fst v) = kGotAll" and "parse_loop t v \<noteq> None"
  then obtain y where "parse_loop t v = Some y" by auto
  then have "cx_state (fst v) \<noteq> kGotAll"
  proof (rule parse_loop.raw_induct [where P = "\<lambda>t v y. cx_state (fst v) \<noteq> kGotAll", rotated])
    fix f :: "timestamp \<Rightarrow> parse_vars \<Rightarrow> (bool \<times> http_context \<times> buffer) res option"
      and t v y
    assume IH: "\<And>t v y. f t v = Some y \<Longrightarrow> cx_state (fst v) \<noteq> kGotAll"
      and eq: "(case parse_round t v of Inl e \<Rightarrow> Some (Inl e)
        | Inr q \<Rightarrow> if fst q then f t (snd (snd q))
                   else Some (Inr (fst (snd q), fst (snd (snd q)), fst (snd (snd (snd q)))))) = Some y"
    show "cx_state (fst v) \<noteq> kGotAll"
    proof
      assume "cx_state (fst v) = kGotAll"
      moreover from this eq have "f t v = Some y" by (simp add: parse_round_def)
      ultimately show False using IH by blast
    qed
  qed
  with st show False by simp
qed

lemma parse_loop_sim:
  "buffer_inv buf \<Longrightarrow> sim_loop (parse_loop t (c, buf, len)) (text_loop t (c, contents buf, len))"
proof (induction "length (contents buf)" arbitrary: c buf len rule: less_induct)
  case less
  show ?case
  proof (cases "cx_state c = kGotAll")
    case True
    then show ?thesis by (simp add: parse_loop_gotAll text_loop.simps)
  next
    case False
    note sim = parse_round_sim [OF less.prems, of t c len]
    show ?thesis
    proof (cases "parse_round t (c, buf, len)")
      case (Inl e)
      with sim False show ?thesis by (simp add: parse_loop.simps text_loop.simps)
    next
      case (Inr q)
      obtain go_on ok c' b' len' where q: "q = (go_on, ok, c', b', len')" by (cases q) auto
      from sim Inr q have inv_b': "buffer_inv b'"
        and tx: "text_round t (c, contents buf, len) = Inr (go_on, ok, c', contents b', len')" by auto
      show ?thesis
      proof (cases go_on)
        case True
        with text_round_consumes [of t c "contents buf" len ok c' "contents b'" len'] tx False
        have "length (contents b') < length (contents buf)" by simp
        from less.hyps [OF this inv_b'] have "sim_loop (parse_loop t (c', b', len')) (text_loop t (c', contents b', len'))" .
        with True Inr q tx False show ?thesis
          by (simp add: parse_loop.simps [of t "(c, buf, len)"] text_loop.simps [of t c])
      next
        case False
        with \<open>cx_state c \<noteq> kGotAll\<close> Inr q tx inv_b' show ?thesis
          by (simp add: parse_loop.simps [of t "(c, buf, len)"] text_loop.simps [of t c])
      qed
    qed
  qed
qed

text \<open>The result of a parse on the buffer is the result of the text parser on its readable bytes.\<close>

definition text_parse :: "timestamp \<Rightarrow> http_context \<Rightarrow> char list \<Rightarrow> (bool \<times> http_context \<times> char list) res option" where
  "text_parse t c cs = text_loop t (c, cs, None)"

lemma parseRequest_sim: "buffer_inv b \<Longrightarrow> sim_loop (parseRequest t c b) (text_parse t c (contents b))"
  by (simp add: parseRequest_def text_parse_def parse_loop_sim)

lemma text_loop_total: "cx_state c \<noteq> kGotAll \<Longrightarrow> text_loop t (c, cs, len) \<noteq> None"
proof (induction "length cs" arbitrary: c cs len rule: less_induct)
  case less
  then show ?case
    by (auto simp: text_loop.simps [of t c] dest!: text_round_consumes split: sum.splits)
qed

text \<open>C6: parseRequest returns on every buffer from every state but \<open>kGotAll\<close>, and never returns from
  \<open>kGotAll\<close>: there no branch of the loop matches and \<open>hasMore\<close> stays true, so the caller must
  reset a completed context before it parses again (which HttpServer::onMessage does).\<close>

theorem parseRequest_returns_iff:
  assumes "buffer_inv b"
  shows "parseRequest t c b \<noteq> None \<longleftrightarrow> cx_state c \<noteq> kGotAll"
proof (cases "cx_state c = kGotAll")
  case True
  then show ?thesis by (simp add: parseRequest_def parse_loop_gotAll)
next
  case False
  with text_loop_total [of c t "contents b" None] parseRequest_sim [OF assms, of t c] show ?thesis
    by (cases "parseRequest t c b") (auto simp: text_parse_def)
qed

theorem parseRequest_returns_iff_witness:
  "parseRequest invalid_ts new_context (new_buffer 4) \<noteq> None
   \<and> parseRequest invalid_ts (new_context\<lparr>cx_state := kGotAll\<rparr>) (new_buffer 4) = None"
  using parseRequest_returns_iff [OF new_buffer_inv [of 4], of invalid_ts new_context]
    parseRequest_returns_iff [OF new_buffer_inv [of 4], of invalid_ts "new_context\<lparr>cx_state := kGotAll\<rparr>"]
  by (simp add: new_context_def)

section \<open>The request line accepted\<close>

lemma request_target_render:
  assumes "CHR '' '' \<notin> set target"
  shows "std_find (CHR '' '') (target @ '' HTTP/1.'' @ [v]) = length target"
    and "drop (length target + 1) (target @ '' HTTP/1.'' @ [v]) = ''HTTP/1.'' @ [v]"
  using assms by (simp_all add: std_find_append)

lemma request_line_render:
  "std_find (CHR '' '') (methodString m @ '' '' @ rest) = length (methodString m)"
  "drop (length (methodString m) + 1) (methodString m @ '' '' @ rest) = rest"
  using methodString_no_space [of m] by (simp_all add: std_find_append)

lemma processRequestLine_render:
  assumes "m \<noteq> kInvalid" "CHR '' '' \<notin> set target" "v \<in> {CHR ''0'', CHR ''1''}"
  shows "processRequestLine (methodString m @ '' '' @ target @ '' HTTP/1.'' @ [v]) new_request
    = Inr (True, new_request\<lparr>rq_method := m, rq_path := takeWhile (\<lambda>c. c \<noteq> CHR ''?'') target,
              rq_query := dropWhile (\<lambda>c. c \<noteq> CHR ''?'') target,
              rq_version := (if v = CHR ''1'' then kHttp11 else kHttp10)\<rparr>)"
proof -
  let ?rest = "target @ '' HTTP/1.'' @ [v]"
  let ?r = "new_request\<lparr>rq_method := m\<rparr>"
  let ?r' = "if std_find (CHR ''?'') target \<noteq> length target
      then setQuery (dropWhile (\<lambda>c. c \<noteq> CHR ''?'') target) (setPath (takeWhile (\<lambda>c. c \<noteq> CHR ''?'') target) ?r)
      else setPath target ?r"
  have sm: "setMethod (take (length (methodString m)) (methodString m @ '' '' @ ?rest)) new_request = Inr (True, ?r)"
    using assms(1) by (simp add: setMethod_def method_of_string_methodString new_request_def)
  have ne: "length (methodString m) \<noteq> length (methodString m @ '' '' @ ?rest)"
    "length target \<noteq> length ?rest" by simp_all
  have ver: "length (''HTTP/1.'' @ [v]) = 8" "take 7 (''HTTP/1.'' @ [v]) = ''HTTP/1.''" "(''HTTP/1.'' @ [v]) ! 7 = v"
    by simp_all
  have tk: "take (length target) ?rest = target" by simp
  have "processRequestLine (methodString m @ '' '' @ ?rest) new_request
    = (if v = CHR ''1'' then Inr (True, setVersion kHttp11 ?r')
       else if v = CHR ''0'' then Inr (True, setVersion kHttp10 ?r') else Inr (False, ?r'))"
    unfolding processRequestLine_def Let_def request_line_render request_target_render [OF assms(2)] sm tk ver
    unfolding take_std_find drop_std_find
    by (simp only: ne rbind_Inr prod.case if_True not_False_eq_True simp_thms)
  also have "... = Inr (True, new_request\<lparr>rq_method := m, rq_path := takeWhile (\<lambda>c. c \<noteq> CHR ''?'') target,
              rq_query := dropWhile (\<lambda>c. c \<noteq> CHR ''?'') target,
              rq_version := (if v = CHR ''1'' then kHttp11 else kHttp10)\<rparr>)"
    using assms(3) by (auto simp: setQuery_def setPath_def setVersion_def std_find_eq_length_iff new_request_def)
  finally show ?thesis .
qed

text \<open>C7: processRequestLine on a fresh request accepts exactly the lines
  \<open>METHOD SP target SP HTTP/1.0\<close> and \<open>... HTTP/1.1\<close> with one of the five methods and a target without
  a blank, and then the request holds that method and version, the path up to the first question
  mark, and the query from the question mark (included) on.\<close>

theorem processRequestLine_accepts_iff:
  "processRequestLine line new_request = Inr (True, r) \<longleftrightarrow>
     (\<exists>m target v. m \<noteq> kInvalid \<and> CHR '' '' \<notin> set target \<and> v \<in> {CHR ''0'', CHR ''1''}
        \<and> line = methodString m @ '' '' @ target @ '' HTTP/1.'' @ [v]
        \<and> r = new_request\<lparr>rq_method := m, rq_path := takeWhile (\<lambda>c. c \<noteq> CHR ''?'') target,
              rq_query := dropWhile (\<lambda>c. c \<noteq> CHR ''?'') target,
              rq_version := (if v = CHR ''1'' then kHttp11 else kHttp10)\<rparr>)"
  (is "?acc \<longleftrightarrow> ?form")
proof
  assume acc: ?acc
  then have "std_find (CHR '' '') line \<noteq> length line"
    by (auto simp: processRequestLine_def Let_def)
  then obtain m rest where line: "line = m @ CHR '' '' # rest" "CHR '' '' \<notin> set m"
    "std_find (CHR '' '') line = length m" by (rule std_find_split)
  have m: "method_of_string m \<noteq> kInvalid" and "std_find (CHR '' '') rest \<noteq> length rest"
    using acc by (auto simp: processRequestLine_def Let_def line setMethod_def std_find_append
        new_request_def split: if_splits)
  from this(2) obtain target ver where rest: "rest = target @ CHR '' '' # ver" "CHR '' '' \<notin> set target"
    "std_find (CHR '' '') rest = length target" by (rule std_find_split)
  have len: "length ver = 8" and pre: "take 7 ver = ''HTTP/1.''" and v: "ver ! 7 \<in> {CHR ''0'', CHR ''1''}"
    and r: "r = new_request\<lparr>rq_method := method_of_string m, rq_path := takeWhile (\<lambda>c. c \<noteq> CHR ''?'') target,
              rq_query := dropWhile (\<lambda>c. c \<noteq> CHR ''?'') target,
              rq_version := (if ver ! 7 = CHR ''1'' then kHttp11 else kHttp10)\<rparr>"
    using acc m by (auto simp: processRequestLine_def Let_def line rest setMethod_def std_find_append setPath_def
        setQuery_def setVersion_def take_std_find drop_std_find new_request_def std_find_eq_length_iff split: if_splits)
  have "ver = take 7 ver @ [ver ! 7]"
    using len take_Suc_conv_app_nth [of 7 ver] by simp
  then have ver: "ver = ''HTTP/1.'' @ [ver ! 7]" unfolding pre .
  have "methodString (method_of_string m) = m"
    using m by (auto simp: method_of_string_def split: if_splits)
  with line(1) rest(1) ver have "line = methodString (method_of_string m) @ '' '' @ target @ '' HTTP/1.'' @ [ver ! 7]"
    by simp
  with m v r rest(2) show ?form by blast
next
  assume ?form
  then show ?acc by (auto simp: processRequestLine_render simp del: append_Cons)
qed

section \<open>Requests that arrive in fragments\<close>

lemma take_within:
  "std_search kCRLF cs = Some i \<Longrightarrow> take i (cs @ ys) = take i cs \<and> drop (i + 2) (cs @ ys) = drop (i + 2) cs @ ys"
  using search_crlf_bound [of cs i] by simp

lemma text_round_request:
  "cx_state c = kExpectRequestLine \<Longrightarrow> text_round t (c, cs, len) = text_request_line t (c, cs, len)"
  "cx_state c = kExpectHeaders \<Longrightarrow> text_round t (c, cs, len) = text_header_line (c, cs, len)"
  "cx_state c = kExpectBody \<Longrightarrow> text_round t (c, cs, len) = text_body (c, cs, len)"
  by (simp_all add: text_round_def)

lemma text_round_extend:
  assumes "text_round t (c, cs, len) = Inr (True, ok, c', cs', len')" "cx_state c \<noteq> kGotAll"
  shows "text_round t (c, cs @ ys, len) = Inr (True, ok, c', cs' @ ys, len')"
proof (cases "cx_state c")
  case kExpectRequestLine
  with assms(1) obtain i where i: "std_search kCRLF cs = Some i"
    by (auto simp: text_round_request text_request_line_def split: option.splits)
  with assms(1) kExpectRequestLine obtain r where r: "processRequestLine (take i cs) (cx_request c) = Inr (True, r)"
    and eqs: "ok" "c' = c\<lparr>cx_request := setReceiveTime t r, cx_state := kExpectHeaders\<rparr>" "cs' = drop (i + 2) cs" "len' = len"
    by (auto simp: text_round_request text_request_line_def rbind_Inr_iff split: if_splits)
  show ?thesis
    unfolding text_round_request(1) [OF kExpectRequestLine] text_request_line_def eqs(2-4)
    using std_search_append_Some [OF i, of ys] search_crlf_bound [OF i] r eqs(1) by simp
next
  case kExpectHeaders
  with assms(1) obtain i where i: "std_search kCRLF cs = Some i"
    by (auto simp: text_round_request text_header_line_def split: option.splits)
  from assms(1) kExpectHeaders take_within [OF i, of ys] have "cs' = drop (i + 2) cs"
    by (auto simp: text_round_request text_header_line_def i rbind_Inr_iff Let_def split: if_splits)
  moreover from assms(1) kExpectHeaders have "text_round t (c, cs @ ys, len) = Inr (True, ok, c', drop (i + 2) (cs @ ys), len')"
    unfolding text_round_request(2) [OF kExpectHeaders] text_header_line_def
    using std_search_append_Some [OF i, of ys] search_crlf_bound [OF i]
    by (simp add: i rbind_Inr_iff Let_def split: if_splits) auto
  ultimately show ?thesis using take_within [OF i, of ys] by simp
next
  case kExpectBody
  with assms(1) show ?thesis
    by (simp add: text_round_request text_body_def split: option.splits if_splits)
qed (use assms(2) in simp)

lemma text_round_pause:
  assumes "text_round t (c, cs, len) = Inr (False, True, c', cs', len')" "cx_state c' \<noteq> kGotAll"
  shows "c' = c \<and> cs' = cs \<and> len' = len"
  using assms
  by (auto simp: text_round_def text_request_line_def text_header_line_def text_body_def Let_def res_iffs
      split: parse_state.splits option.splits if_splits)

lemma text_round_next_state:
  assumes "text_round t (c, cs, len) = Inr (True, ok, c', cs', len')" "cx_state c \<noteq> kGotAll"
  shows "cx_state c' \<in> {kExpectHeaders, kExpectBody}"
  using assms
  by (auto simp: text_round_def text_request_line_def text_header_line_def text_body_def Let_def res_iffs
      split: parse_state.splits option.splits if_splits)

lemma text_loop_step:
  assumes "cx_state c \<noteq> kGotAll" "text_round t (c, cs, len) = Inr (True, ok, c', cs', len')"
  shows "text_loop t (c, cs, len) = text_loop t (c', cs', len')"
  using assms by (simp add: text_loop.simps [of t c])

lemma text_loop_split:
  "text_loop t (c, cs, len) = Some (Inr (True, c1, cs1)) \<Longrightarrow> cx_state c1 \<noteq> kGotAll \<Longrightarrow>
   \<exists>len1. text_loop t (c, cs @ ys, len) = text_loop t (c1, cs1 @ ys, len1)
         \<and> (cx_state c1 = kExpectRequestLine \<longrightarrow> c1 = c \<and> cs1 = cs)"
proof (induction "length cs" arbitrary: c cs len rule: less_induct)
  case less
  from less.prems have st: "cx_state c \<noteq> kGotAll"
    by (simp add: text_loop.simps [of t c] split: if_splits)
  with less.prems obtain go_on ok c' cs' len' where r: "text_round t (c, cs, len) = Inr (go_on, ok, c', cs', len')"
    by (auto simp: text_loop.simps [of t c] split: sum.splits if_splits)
  show ?case
  proof (cases go_on)
    case True
    with r have r: "text_round t (c, cs, len) = Inr (True, ok, c', cs', len')" by simp
    have less: "length cs' < length cs" and c': "cx_state c' \<in> {kExpectHeaders, kExpectBody}"
      using text_round_consumes [OF r st] text_round_next_state [OF r st] by simp_all
    have loop: "text_loop t (c, cs, len) = text_loop t (c', cs', len')"
      and loop2: "text_loop t (c, cs @ ys, len) = text_loop t (c', cs' @ ys, len')"
      using r st True text_round_extend [of t c cs len ok c' cs' len' ys] by (simp_all add: text_loop_step)
    from less.hyps [OF less less.prems(1) [unfolded loop] less.prems(2)]
    obtain len1 where "text_loop t (c', cs' @ ys, len') = text_loop t (c1, cs1 @ ys, len1)"
      "cx_state c1 = kExpectRequestLine \<longrightarrow> c1 = c' \<and> cs1 = cs'" by blast
    with loop2 c' show ?thesis by auto
  next
    case False
    with less.prems r st have "ok" "c' = c1" "cs' = cs1"
      by (simp_all add: text_loop.simps [of t c])
    with text_round_pause [of t c cs len c1 cs1 len'] r False less.prems(2) show ?thesis by auto
  qed
qed

text \<open>The local \<open>body_lenth\<close> is only read in state \<open>kExpectBody\<close>, the receive time only before the headers.\<close>

lemma text_round_len:
  assumes "cx_state c \<in> {kExpectRequestLine, kExpectHeaders}"
  shows "text_round t (c, cs, len2) = map_sum id (\<lambda>(g, ok, c', cs', l).
           (g, ok, c', cs', if cx_state c' = kExpectBody then l else len2)) (text_round t (c, cs, len))"
proof (cases "cx_state c")
  case kExpectRequestLine
  then show ?thesis
    by (cases "std_search kCRLF cs"; cases "processRequestLine (take (the (std_search kCRLF cs)) cs) (cx_request c)")
      (auto simp: text_round_request text_request_line_def)
next
  case kExpectHeaders
  then show ?thesis
    by (cases "std_search kCRLF cs"; cases "stoi (getHeader ''Content-Length'' (cx_request c))")
      (auto simp: text_round_request text_header_line_def Let_def)
qed (use assms in auto)

lemma text_loop_len:
  "cx_state c \<in> {kExpectRequestLine, kExpectHeaders} \<Longrightarrow> text_loop t (c, cs, len2) = text_loop t (c, cs, len)"
proof (induction "length cs" arbitrary: c cs len len2 rule: less_induct)
  case less
  note r2 = text_round_len [OF less.prems, of t cs len2 len]
  have st: "cx_state c \<noteq> kGotAll" using less.prems by auto
  show ?case
  proof (cases "text_round t (c, cs, len)")
    case (Inl e)
    with r2 show ?thesis by (simp add: text_loop.simps [of t c])
  next
    case (Inr q)
    obtain go_on ok c' cs' l where q: "q = (go_on, ok, c', cs', l)" by (cases q) auto
    show ?thesis
    proof (cases "go_on \<and> cx_state c' \<noteq> kExpectBody")
      case True
      with Inr q have r: "text_round t (c, cs, len) = Inr (True, ok, c', cs', l)" by simp
      from text_round_consumes [OF r st] text_round_next_state [OF r st] True
      have "length cs' < length cs" "cx_state c' \<in> {kExpectRequestLine, kExpectHeaders}" by auto
      from less.hyps [OF this, of len2 l] True r r2 st show ?thesis
        by (simp add: text_loop.simps [of t c])
    next
      case False
      with Inr q r2 st show ?thesis by (auto simp: text_loop.simps [of t c])
    qed
  qed
qed

lemma text_loop_time:
  "cx_state c \<noteq> kExpectRequestLine \<Longrightarrow> text_loop t (c, cs, len) = text_loop t' (c, cs, len)"
proof (induction "length cs" arbitrary: c cs len rule: less_induct)
  case less
  have r: "text_round t (c, cs, len) = text_round t' (c, cs, len)"
    using less.prems by (simp add: text_round_def split: parse_state.splits)
  show ?case
    by (auto simp: text_loop.simps [of _ c] r split: sum.splits
        dest: text_round_consumes text_round_next_state intro!: less.hyps)
qed


section \<open>Rendered requests\<close>

definition headers_ok :: "(char list \<times> char list) list \<Rightarrow> bool" where
  "headers_ok hs \<longleftrightarrow> (\<forall>(n, v) \<in> set hs. CHR '':'' \<notin> set n \<and> CHR 0x0D \<notin> set n \<and> CHR 0x0D \<notin> set v \<and> trimmed v)"

definition header_table :: "(char list \<times> char list) list \<Rightarrow> (char list, char list) std_map" where
  "header_table hs = fold (\<lambda>(n, v). map_put n v) hs []"

lemma text_header_loop:
  "cx_state c = kExpectHeaders \<Longrightarrow> headers_ok hs \<Longrightarrow>
   text_loop t (c, header_lines hs @ kCRLF @ rest, len)
   = text_loop t (c\<lparr>cx_request := (cx_request c)\<lparr>rq_headers := fold (\<lambda>(n, v). map_put n v) hs (rq_headers (cx_request c))\<rparr>\<rparr>,
       kCRLF @ rest, len)"
proof (induction hs arbitrary: c)
  case Nil
  then show ?case by (simp add: header_lines_def)
next
  case (Cons h hs)
  obtain n v where h: "h = (n, v)" by (cases h)
  with Cons.prems have ok: "CHR '':'' \<notin> set n" "CHR 0x0D \<notin> set n" "CHR 0x0D \<notin> set v" "trimmed v" "headers_ok hs"
    by (auto simp: headers_ok_def)
  let ?line = "n @ '': '' @ v"
  let ?rest = "header_lines hs @ kCRLF @ rest"
  let ?c = "c\<lparr>cx_request := (cx_request c)\<lparr>rq_headers := map_put n v (rq_headers (cx_request c))\<rparr>\<rparr>"
  have tx: "header_lines (h # hs) @ kCRLF @ rest = ?line @ kCRLF @ ?rest"
    by (simp add: header_lines_def h)
  have srch: "std_search kCRLF (?line @ kCRLF @ ?rest) = Some (length ?line)"
    using ok by (intro search_crlf_line) auto
  have colon: "std_find (CHR '':'') ?line = length n" "length n \<noteq> length ?line"
    using ok(1) by (simp_all add: std_find_append)
  have hv: "addHeader ?line (length n) (cx_request c) = (cx_request c)\<lparr>rq_headers := map_put n v (rq_headers (cx_request c))\<rparr>"
    using header_value_spaces [of "'' ''" "[]" v] ok(4) by (simp add: addHeader_def Let_def isspace_def)
  have parts: "take (length ?line) (?line @ kCRLF @ ?rest) = ?line" "drop (length ?line + 2) (?line @ kCRLF @ ?rest) = ?rest"
    by (rule crlf_line_parts)+
  have "text_round t (c, ?line @ kCRLF @ ?rest, len) = Inr (True, True, ?c, ?rest, len)"
    unfolding text_round_request(2) [OF Cons.prems(1)] text_header_line_def
    by (simp only: prod.case srch option.case Let_def parts colon hv rbind_Inr if_True not_False_eq_True simp_thms)
  then have "text_loop t (c, ?line @ kCRLF @ ?rest, len) = text_loop t (?c, ?rest, len)"
    using Cons.prems(1) by (intro text_loop_step) simp_all
  also have "... = text_loop t (?c\<lparr>cx_request := (cx_request ?c)\<lparr>rq_headers := fold (\<lambda>(n, v). map_put n v) hs (rq_headers (cx_request ?c))\<rparr>\<rparr>, kCRLF @ rest, len)"
    using Cons.prems(1) ok(5) by (intro Cons.IH) simp_all
  finally show ?case unfolding tx by (simp add: h)
qed

lemma text_request_line_loop:
  assumes "cx_state c = kExpectRequestLine" "cx_request c = new_request" "m \<noteq> kInvalid"
    "CHR '' '' \<notin> set target" "CHR 0x0D \<notin> set target" "v \<in> {CHR ''0'', CHR ''1''}"
  shows "text_loop t (c, (methodString m @ '' '' @ target @ '' HTTP/1.'' @ [v]) @ kCRLF @ rest, len)
    = text_loop t (c\<lparr>cx_state := kExpectHeaders, cx_request := setReceiveTime t
          (new_request\<lparr>rq_method := m, rq_path := takeWhile (\<lambda>c. c \<noteq> CHR ''?'') target,
              rq_query := dropWhile (\<lambda>c. c \<noteq> CHR ''?'') target,
              rq_version := (if v = CHR ''1'' then kHttp11 else kHttp10)\<rparr>)\<rparr>, rest, len)"
proof -
  let ?line = "methodString m @ '' '' @ target @ '' HTTP/1.'' @ [v]"
  have "CHR 0x0D \<notin> set (methodString m)" by (cases m) simp_all
  with assms(5,6) have srch: "std_search kCRLF (?line @ kCRLF @ rest) = Some (length ?line)"
    by (intro search_crlf_line) auto
  let ?r = "new_request\<lparr>rq_method := m, rq_path := takeWhile (\<lambda>c. c \<noteq> CHR ''?'') target,
              rq_query := dropWhile (\<lambda>c. c \<noteq> CHR ''?'') target,
              rq_version := (if v = CHR ''1'' then kHttp11 else kHttp10)\<rparr>"
  have "text_round t (c, ?line @ kCRLF @ rest, len)
    = Inr (True, True, c\<lparr>cx_request := setReceiveTime t ?r, cx_state := kExpectHeaders\<rparr>, rest, len)"
    unfolding text_round_request(1) [OF assms(1)] text_request_line_def
    by (simp only: prod.case srch option.case crlf_line_parts assms(2)
        processRequestLine_render [OF assms(3,4,6)] rbind_Inr if_True)
  then have "text_loop t (c, ?line @ kCRLF @ rest, len)
    = text_loop t (c\<lparr>cx_request := setReceiveTime t ?r, cx_state := kExpectHeaders\<rparr>, rest, len)"
    using assms(1) by (intro text_loop_step) simp_all
  moreover have "c\<lparr>cx_request := setReceiveTime t ?r, cx_state := kExpectHeaders\<rparr>
    = c\<lparr>cx_state := kExpectHeaders, cx_request := setReceiveTime t ?r\<rparr>" by simp
  ultimately show ?thesis by (simp only:)
qed

text \<open>The request the parser builds from a rendered one, before its body.\<close>

definition rendered_request :: "http_method \<Rightarrow> char list \<Rightarrow> char \<Rightarrow> (char list \<times> char list) list \<Rightarrow> timestamp \<Rightarrow> http_request" where
  "rendered_request m target v hs t =
     \<lparr>rq_method = m, rq_version = (if v = CHR ''1'' then kHttp11 else kHttp10),
      rq_path = takeWhile (\<lambda>c. c \<noteq> CHR ''?'') target, rq_query = dropWhile (\<lambda>c. c \<noteq> CHR ''?'') target,
      rq_receiveTime = t, rq_headers = header_table hs, rq_body = []\<rparr>"

definition render_head :: "http_method \<Rightarrow> char list \<Rightarrow> char \<Rightarrow> (char list \<times> char list) list \<Rightarrow> char list" where
  "render_head m target v hs =
     (methodString m @ '' '' @ target @ '' HTTP/1.'' @ [v]) @ kCRLF @ header_lines hs @ kCRLF"

definition head_ok :: "http_method \<Rightarrow> char list \<Rightarrow> char \<Rightarrow> (char list \<times> char list) list \<Rightarrow> bool" where
  "head_ok m target v hs \<longleftrightarrow>
     m \<noteq> kInvalid \<and> CHR '' '' \<notin> set target \<and> CHR 0x0D \<notin> set target \<and> v \<in> {CHR ''0'', CHR ''1''} \<and> headers_ok hs"

lemma text_head_loop:
  assumes "head_ok m target v hs" "cx_state c = kExpectRequestLine" "cx_request c = new_request"
  shows "text_loop t (c, render_head m target v hs @ rest, len)
    = text_loop t (c\<lparr>cx_state := kExpectHeaders, cx_request := rendered_request m target v hs t\<rparr>, kCRLF @ rest, len)"
proof -
  have "text_loop t (c, render_head m target v hs @ rest, len)
    = text_loop t (c, (methodString m @ '' '' @ target @ '' HTTP/1.'' @ [v]) @ kCRLF @ header_lines hs @ kCRLF @ rest, len)"
    by (simp add: render_head_def)
  also have "... = text_loop t (c\<lparr>cx_state := kExpectHeaders, cx_request := setReceiveTime t
          (new_request\<lparr>rq_method := m, rq_path := takeWhile (\<lambda>c. c \<noteq> CHR ''?'') target,
              rq_query := dropWhile (\<lambda>c. c \<noteq> CHR ''?'') target,
              rq_version := (if v = CHR ''1'' then kHttp11 else kHttp10)\<rparr>)\<rparr>, header_lines hs @ kCRLF @ rest, len)"
    using assms by (intro text_request_line_loop) (simp_all add: head_ok_def)
  also have "... = text_loop t (c\<lparr>cx_state := kExpectHeaders, cx_request := rendered_request m target v hs t\<rparr>, kCRLF @ rest, len)"
    using assms by (subst text_header_loop)
      (simp_all add: head_ok_def rendered_request_def setReceiveTime_def new_request_def header_table_def)
  finally show ?thesis .
qed

lemma blank_line_round:
  assumes "cx_state c = kExpectHeaders"
  shows "text_round t (c, kCRLF @ rest, len) =
    (if getHeader ''Content-Length'' (cx_request c) = [] then Inr (False, True, c\<lparr>cx_state := kGotAll\<rparr>, rest, len)
     else rbind (stoi (getHeader ''Content-Length'' (cx_request c)))
            (\<lambda>n. Inr (True, True, c\<lparr>cx_state := kExpectBody\<rparr>, rest, Some n)))"
proof -
  have "std_search kCRLF (kCRLF @ rest) = Some 0" using search_crlf_line [of "[]" rest] by simp
  then show ?thesis using assms
    by (auto simp: text_round_request text_header_line_def Let_def rbind_assoc) (simp_all add: kCRLF_def)
qed

lemma sim_loop_InrD:
  assumes "buffer_inv b" "text_parse t c (contents b) = Some (Inr (ok, c', cs'))"
  obtains b' where "parseRequest t c b = Some (Inr (ok, c', b'))" "contents b' = cs'" "buffer_inv b'"
  using parseRequest_sim [OF assms(1), of t c] assms(2)
  by (cases "parseRequest t c b") (auto simp: sim_loop_def split: sum.splits)

lemma sim_loop_InlD:
  assumes "buffer_inv b" "text_parse t c (contents b) = Some (Inl e)"
  shows "parseRequest t c b = Some (Inl e)"
  using parseRequest_sim [OF assms(1), of t c] assms(2)
  by (cases "parseRequest t c b") (auto simp: sim_loop_def split: sum.splits)

lemma parse_head_done:
  assumes "buffer_inv b" "contents b = render_head m target v hs @ rest" "head_ok m target v hs"
    and "map_of (rev hs) ''Content-Length'' \<in> {None, Some []}"
    and c: "cx_state c = kExpectRequestLine" "cx_request c = new_request"
  shows "\<exists>b'. parseRequest t c b
      = Some (Inr (True, c\<lparr>cx_state := kGotAll, cx_request := rendered_request m target v hs t\<rparr>, b'))
    \<and> contents b' = rest \<and> buffer_inv b'"
proof -
  let ?c = "c\<lparr>cx_state := kExpectHeaders, cx_request := rendered_request m target v hs t\<rparr>"
  let ?c' = "c\<lparr>cx_state := kGotAll, cx_request := rendered_request m target v hs t\<rparr>"
  have tbl: "map_of (header_table hs) = map_of (rev hs)"
    using smap.get_fold_put [of "[]" hs] by (simp add: header_table_def)
  have cl: "getHeader ''Content-Length'' (cx_request ?c) = []"
    using assms(4) by (auto simp: getHeader_def rendered_request_def tbl)
  have "text_parse t c (contents b) = text_loop t (?c, kCRLF @ rest, None)"
    unfolding text_parse_def assms(2) by (rule text_head_loop [OF assms(3) c])
  also have "... = Some (Inr (True, ?c', rest))"
    using blank_line_round [of ?c t rest None] cl by (simp add: text_loop.simps [of t ?c])
  finally show ?thesis using sim_loop_InrD [OF assms(1)] by metis
qed

text \<open>C4: A well-formed request without a body is parsed completely from one buffer: every method, target,
  version and list of headers comes back as the request's fields (path and query split at the first
  question mark, a repeated header with its last value), and exactly the request's bytes are
  consumed; what follows stays unread in the buffer.\<close>

theorem parse_rendered_request:
  assumes "buffer_inv b" "contents b = render_head m target v hs @ rest" "head_ok m target v hs"
    and "map_of (rev hs) ''Content-Length'' \<in> {None, Some []}"
  shows "\<exists>c' b'. parseRequest t new_context b = Some (Inr (True, c', b')) \<and> gotAll c'
           \<and> cx_request c' = rendered_request m target v hs t \<and> contents b' = rest
           \<and> map_of (rq_headers (cx_request c')) = map_of (rev hs)"
proof -
  have tbl: "map_of (header_table hs) = map_of (rev hs)"
    using smap.get_fold_put [of "[]" hs] by (simp add: header_table_def)
  from parse_head_done [OF assms, of new_context t] show ?thesis
    by (auto simp: gotAll_def rendered_request_def new_context_def tbl)
qed

lemma head_of_body_loop:
  assumes "head_ok m target v hs" "map_of (rev hs) ''Content-Length'' = Some (dec_nat n)" "n < 2 ^ 31"
  shows "text_parse t new_context (render_head m target v hs @ rest)
    = text_loop t (new_context\<lparr>cx_state := kExpectBody, cx_request := rendered_request m target v hs t\<rparr>, rest, Some (int n))"
proof -
  let ?c = "new_context\<lparr>cx_state := kExpectHeaders, cx_request := rendered_request m target v hs t\<rparr>"
  have "map_of (header_table hs) = map_of (rev hs)"
    using smap.get_fold_put [of "[]" hs] by (simp add: header_table_def)
  then have cl: "getHeader ''Content-Length'' (cx_request ?c) = dec_nat n"
    using assms(2) by (simp add: getHeader_def rendered_request_def)
  have "text_round t (?c, kCRLF @ rest, None) = Inr (True, True, ?c\<lparr>cx_state := kExpectBody\<rparr>, rest, Some (int n))"
    using blank_line_round [of ?c t rest None] cl stoi_dec_nat [OF assms(3), of "[]"] by simp
  then have "text_loop t (?c, kCRLF @ rest, None) = text_loop t (?c\<lparr>cx_state := kExpectBody\<rparr>, rest, Some (int n))"
    by (intro text_loop_step) simp_all
  with text_head_loop [OF assms(1), of new_context t rest None] show ?thesis
    by (simp add: text_parse_def new_context_def)
qed

lemma size_t_of_nat: "n < 2 ^ 31 \<Longrightarrow> size_t_of_int (int n) = n"
  by (simp add: size_t_of_int_def)

text \<open>C8: A request whose Content-Length names a body that is already in the buffer is parsed with that
  body, but the body is not taken out: the buffer still starts with the body's bytes after the
  request is complete, so the parser's next run on the connection reads the body as a request line.\<close>

theorem parse_rendered_body:
  assumes "buffer_inv b" "contents b = render_head m target v hs @ rest" "head_ok m target v hs"
    and "map_of (rev hs) ''Content-Length'' = Some (dec_nat n)" "n < 2 ^ 31" "n \<le> length rest"
  shows "\<exists>c' b'. parseRequest t new_context b = Some (Inr (True, c', b')) \<and> gotAll c'
           \<and> cx_request c' = (rendered_request m target v hs t)\<lparr>rq_body := take n rest\<rparr>
           \<and> contents b' = take n rest @ drop n rest"
proof -
  let ?c = "new_context\<lparr>cx_state := kExpectBody, cx_request := rendered_request m target v hs t\<rparr>"
  let ?c' = "?c\<lparr>cx_request := setBody (take n rest) (cx_request ?c), cx_state := kGotAll\<rparr>"
  have "text_loop t (?c, rest, Some (int n)) = Some (Inr (True, ?c', rest))"
    using assms(5,6) by (simp add: text_loop.simps [of t ?c] text_round_request text_body_def size_t_of_nat)
  then have "text_parse t new_context (contents b) = Some (Inr (True, ?c', rest))"
    using head_of_body_loop [OF assms(3-5), of t rest] assms(2) by simp
  from sim_loop_InrD [OF assms(1) this] obtain b' where
    "parseRequest t new_context b = Some (Inr (True, ?c', b'))" "contents b' = rest" by blast
  then show ?thesis by (auto simp: gotAll_def setBody_def)
qed

text \<open>C9: A body that is not yet complete when its headers arrive cannot be completed: the parse asks for
  more, and every later call, whatever arrives, reads the local \<open>body_lenth\<close> before any assignment
  to it, since its value was set in the earlier call.\<close>

theorem body_in_two_reads_faults:
  assumes "buffer_inv b" "contents b = render_head m target v hs @ rest" "head_ok m target v hs"
    and "map_of (rev hs) ''Content-Length'' = Some (dec_nat n)" "n < 2 ^ 31" "length rest < n"
  shows "\<exists>c' b'. parseRequest t new_context b = Some (Inr (True, c', b')) \<and> \<not> gotAll c' \<and> buffer_inv b'
           \<and> (\<forall>ys t'. \<exists>b''. buf_append ys b' = Inr b'' \<and> parseRequest t' c' b'' = Some (Inl Uninitialised))"
proof -
  let ?c = "new_context\<lparr>cx_state := kExpectBody, cx_request := rendered_request m target v hs t\<rparr>"
  have "text_loop t (?c, rest, Some (int n)) = Some (Inr (True, ?c, rest))"
    using assms(5,6) by (simp add: text_loop.simps [of t ?c] text_round_request text_body_def size_t_of_nat)
  then have "text_parse t new_context (contents b) = Some (Inr (True, ?c, rest))"
    using head_of_body_loop [OF assms(3-5), of t rest] assms(2) by simp
  from sim_loop_InrD [OF assms(1) this] obtain b' where
    b': "parseRequest t new_context b = Some (Inr (True, ?c, b'))" "buffer_inv b'" by blast
  have "parseRequest t' ?c (appended ys b') = Some (Inl Uninitialised)" for t' ys
    using b'(2) by (intro sim_loop_InlD) (simp_all add: text_parse_def text_loop.simps [of t' ?c] text_round_request text_body_def)
  with b' buf_append_Inr [OF b'(2)] show ?thesis by (auto simp: gotAll_def)
qed

text \<open>A request line that names a known method but is rejected (a bad version, a missing target) makes
  parseRequest return false with nothing consumed; when more bytes arrive and the line is parsed
  again, the assertion of HttpRequest::setMethod that no method is set fails.\<close>

theorem rejected_line_asserts_next_time:
  assumes "buffer_inv b" "contents b = line @ kCRLF @ rest" "CHR 0x0D \<notin> set line"
    and "processRequestLine line new_request = Inr (False, r)" "rq_method r \<noteq> kInvalid"
  shows "\<exists>c' b'. parseRequest t new_context b = Some (Inr (False, c', b')) \<and> contents b' = contents b
           \<and> (\<forall>ys t'. \<exists>b''. buf_append ys b' = Inr b'' \<and> parseRequest t' c' b'' = Some (Inl Assert_failed))"
proof -
  let ?c = "new_context\<lparr>cx_request := r\<rparr>"
  have st: "cx_state new_context = kExpectRequestLine" "cx_request new_context = new_request"
    by (simp_all add: new_context_def)
  have round: "text_round t (new_context, line @ kCRLF @ rest, None) = Inr (False, False, ?c, line @ kCRLF @ rest, None)"
    unfolding text_round_request(1) [OF st(1)] text_request_line_def
    by (simp add: search_crlf_line [OF assms(3)] crlf_line_parts st(2) assms(4))
  then have "text_parse t new_context (contents b) = Some (Inr (False, ?c, contents b))"
    by (simp add: text_parse_def text_loop.simps [of t new_context] st assms(2))
  from sim_loop_InrD [OF assms(1) this] obtain b' where
    b': "parseRequest t new_context b = Some (Inr (False, ?c, b'))" "contents b' = contents b" "buffer_inv b'" by blast
  have sp: "std_find (CHR '' '') line \<noteq> length line"
    using assms(4,5) by (auto simp: processRequestLine_def Let_def new_request_def)
  have again: "processRequestLine line r = Inl Assert_failed"
    using sp assms(5) by (simp add: processRequestLine_def setMethod_def)
  have "parseRequest t' ?c (appended ys b') = Some (Inl Assert_failed)" for t' ys
  proof (rule sim_loop_InlD)
    show "buffer_inv (appended ys b')" using b'(3) by simp
    have tx: "contents (appended ys b') = line @ kCRLF @ rest @ ys" using b' assms(2) by simp
    have "text_round t' (?c, line @ kCRLF @ rest @ ys, None) = Inl Assert_failed"
      unfolding text_round_def text_request_line_def
      by (simp add: st search_crlf_line [OF assms(3)] crlf_line_parts again)
    then show "text_parse t' ?c (contents (appended ys b')) = Some (Inl Assert_failed)"
      by (simp add: text_parse_def text_loop.simps [of t' ?c] st tx)
  qed
  with b' buf_append_Inr [OF b'(3)] show ?thesis by auto
qed

text \<open>A line without a colon ends the headers, whether it is empty or not.\<close>

lemma colonless_line_ends_headers:
  assumes "buffer_inv b" "contents b = line @ kCRLF @ rest" "CHR 0x0D \<notin> set line" "CHR '':'' \<notin> set line"
    and "cx_state c = kExpectHeaders" "getHeader ''Content-Length'' (cx_request c) = []"
  shows "\<exists>b'. parseRequest t c b = Some (Inr (True, c\<lparr>cx_state := kGotAll\<rparr>, b')) \<and> contents b' = rest"
proof -
  have "text_round t (c, line @ kCRLF @ rest, None) = Inr (False, True, c\<lparr>cx_state := kGotAll\<rparr>, rest, None)"
    unfolding text_round_request(2) [OF assms(5)] text_header_line_def
    by (simp only: prod.case search_crlf_line [OF assms(3)] option.case crlf_line_parts std_find_not_in [OF assms(4)] assms(6)
        Let_def simp_thms if_False if_True rbind_Inr list.size)
  then have "text_parse t c (contents b) = Some (Inr (True, c\<lparr>cx_state := kGotAll\<rparr>, rest))"
    using assms(5) by (simp add: text_parse_def text_loop.simps [of t c] assms(2))
  from sim_loop_InrD [OF assms(1) this] show ?thesis by blast
qed

section \<open>Concrete requests\<close>

lemma example_head_ok: "head_ok kPost ''/f?q=1'' (CHR ''1'') [(''Content-Length'', ''3''), (''Host'', ''h'')]"
  by (simp add: head_ok_def headers_ok_def trimmed_def isspace_def)

lemma dec_nat_3: "dec_nat 3 = ''3''"
  by code_simp

lemma text_parse_partial: "text_parse t new_context ''GET / HT'' = Some (Inr (True, new_context, ''GET / HT''))"
  by (simp add: text_parse_def text_loop.simps text_round_def text_request_line_def new_context_def kCRLF_def)


theorem parse_rendered_request_witness:
  "\<exists>c' b'. parseRequest (Timestamp 5) new_context
       (appended (render_head kGet ''/a?x=1'' (CHR ''1'') [(''Host'', ''h'')] @ ''GET'') (new_buffer 1024)) = Some (Inr (True, c', b'))
     \<and> gotAll c' \<and> rq_path (cx_request c') = ''/a'' \<and> rq_query (cx_request c') = ''?x=1''
     \<and> getHeader ''Host'' (cx_request c') = ''h'' \<and> contents b' = ''GET''"
proof -
  have ok: "head_ok kGet ''/a?x=1'' (CHR ''1'') [(''Host'', ''h'')]"
    by (simp add: head_ok_def headers_ok_def trimmed_def isspace_def)
  show ?thesis
    using parse_rendered_request [OF appended_inv [OF new_buffer_inv [of 1024]] _ ok, of _ "''GET''" "Timestamp 5"]
    by (fastforce simp: rendered_request_def getHeader_def header_table_def)
qed

theorem parse_rendered_body_witness:
  "\<exists>c' b'. parseRequest (Timestamp 5) new_context
       (appended (render_head kPost ''/f?q=1'' (CHR ''1'') [(''Content-Length'', ''3''), (''Host'', ''h'')] @ ''abc'') (new_buffer 1024))
       = Some (Inr (True, c', b'))
     \<and> gotAll c' \<and> rq_body (cx_request c') = ''abc'' \<and> contents b' = ''abc''"
proof -
  have cl: "map_of (rev [(''Content-Length'', ''3''), (''Host'', ''h'')]) ''Content-Length'' = Some (dec_nat 3)"
    by (simp add: dec_nat_3)
  show ?thesis
    using parse_rendered_body [OF appended_inv [OF new_buffer_inv [of 1024]] _ example_head_ok cl, of _ "''abc''" "Timestamp 5"]
    by fastforce
qed

theorem body_in_two_reads_faults_witness:
  "\<exists>c' b' b''. parseRequest (Timestamp 5) new_context
       (appended (render_head kPost ''/f?q=1'' (CHR ''1'') [(''Content-Length'', ''3''), (''Host'', ''h'')] @ ''ab'') (new_buffer 1024))
       = Some (Inr (True, c', b'))
     \<and> buf_append ''c'' b' = Inr b'' \<and> parseRequest (Timestamp 6) c' b'' = Some (Inl Uninitialised)"
proof -
  have cl: "map_of (rev [(''Content-Length'', ''3''), (''Host'', ''h'')]) ''Content-Length'' = Some (dec_nat 3)"
    by (simp add: dec_nat_3)
  show ?thesis
    using body_in_two_reads_faults [OF appended_inv [OF new_buffer_inv [of 1024]] _ example_head_ok cl, of _ "''ab''" "Timestamp 5"]
    by fastforce
qed

theorem rejected_line_asserts_next_time_witness:
  "\<exists>c' b' b''. parseRequest (Timestamp 5) new_context (appended (''GET / HTTP/2.0'' @ kCRLF @ []) (new_buffer 64)) = Some (Inr (False, c', b'))
     \<and> buf_append kCRLF b' = Inr b'' \<and> parseRequest (Timestamp 6) c' b'' = Some (Inl Assert_failed)"
proof -
  have rej: "processRequestLine ''GET / HTTP/2.0'' new_request = Inr (False, new_request\<lparr>rq_method := kGet, rq_path := ''/''\<rparr>)"
    by (simp add: processRequestLine_def setMethod_def method_of_string_def new_request_def Let_def setPath_def)
  show ?thesis
    using rejected_line_asserts_next_time [OF appended_inv [OF new_buffer_inv [of 64]] _ _ rej, of _ "[]" "Timestamp 5"]
    by fastforce
qed

end
