(* ===== verification/Poller.thy ===== *)
theory Poller
  imports Containers Timestamps Endian
begin

text \<open>
  net/Channel.h, net/Channel.cc, net/Poller.h and net/Poller.cc: a channel is the interest of the
  program in the events of one descriptor, the poller the array it hands to poll(2) and the table
  from descriptors to channels. Channel objects live in a store; a \<open>Channel*\<close> is an address in it.
  The poller does not own them, so the store is total. Each function runs in the loop's thread;
  assertInLoopThread is EventLoop's.
\<close>

section \<open>Channels\<close>

definition POLLIN :: "32 word" where "POLLIN = 0x1"
definition POLLPRI :: "32 word" where "POLLPRI = 0x2"
definition POLLOUT :: "32 word" where "POLLOUT = 0x4"
definition POLLERR :: "32 word" where "POLLERR = 0x8"
definition POLLHUP :: "32 word" where "POLLHUP = 0x10"
definition POLLNVAL :: "32 word" where "POLLNVAL = 0x20"
definition POLLRDHUP :: "32 word" where "POLLRDHUP = 0x2000"

lemmas poll_consts = POLLIN_def POLLPRI_def POLLOUT_def POLLERR_def POLLHUP_def POLLNVAL_def POLLRDHUP_def

text \<open>\<open>has revents m\<close> is the C condition \<open>revents & m\<close>.\<close>

unbundle bit_operations_syntax

definition kNoneEvent :: "32 word" where "kNoneEvent = 0"
definition kReadEvent :: "32 word" where "kReadEvent = POLLIN OR POLLPRI"
definition kWriteEvent :: "32 word" where "kWriteEvent = POLLOUT"

definition has :: "32 word \<Rightarrow> 32 word \<Rightarrow> bool" where
  "has x m \<longleftrightarrow> x AND m \<noteq> 0"

definition set_bits_of :: "32 word \<Rightarrow> 32 word \<Rightarrow> 32 word" where
  "set_bits_of m x = x OR m"

definition clear_bits_of :: "32 word \<Rightarrow> 32 word \<Rightarrow> 32 word" where
  "clear_bits_of m x = x AND NOT m"

lemma has_or: "has x (a OR b) \<longleftrightarrow> has x a \<or> has x b"
  by (simp add: has_def bit_eq_iff bit_and_iff bit_or_iff) blast

record channel =
  ch_fd :: int
  ch_events :: "32 word"
  ch_revents :: "32 word"
  ch_index :: int
  ch_eventHandling :: bool

definition new_channel :: "int \<Rightarrow> channel" where
  "new_channel fdArg = \<lparr>ch_fd = fdArg, ch_events = 0, ch_revents = 0, ch_index = -1, ch_eventHandling = False\<rparr>"

definition set_revents :: "32 word \<Rightarrow> channel \<Rightarrow> channel" where
  "set_revents revt c = c\<lparr>ch_revents := revt\<rparr>"

definition set_index :: "int \<Rightarrow> channel \<Rightarrow> channel" where
  "set_index idx c = c\<lparr>ch_index := idx\<rparr>"

definition isNoneEvent :: "channel \<Rightarrow> bool" where
  "isNoneEvent c \<longleftrightarrow> ch_events c = kNoneEvent"

definition isWriting :: "channel \<Rightarrow> bool" where
  "isWriting c \<longleftrightarrow> has (ch_events c) kWriteEvent"

text \<open>The destructor: destroying a channel inside its own handleEvent is the error it asserts against.\<close>

definition channel_dtor :: "channel \<Rightarrow> unit res" where
  "channel_dtor c = assert_c (\<not> ch_eventHandling c) (Inr ())"

section \<open>Dispatching events\<close>

text \<open>
  The four callbacks, each present or not, over the state \<open>'s\<close> they change. handleEvent calls them
  in a fixed order; the flag around them is reported to a setter of the state, because a callback
  may destroy the channel.
\<close>

record 's callbacks =
  readCallback :: "(timestamp \<Rightarrow> 's \<Rightarrow> 's res) option"
  writeCallback :: "('s \<Rightarrow> 's res) option"
  errorCallback :: "('s \<Rightarrow> 's res) option"
  closeCallback :: "('s \<Rightarrow> 's res) option"

definition call_opt :: "('s \<Rightarrow> 's res) option \<Rightarrow> 's \<Rightarrow> 's res" where
  "call_opt cb s = (case cb of None \<Rightarrow> Inr s | Some f \<Rightarrow> f s)"

definition handleEvent ::
  "'s callbacks \<Rightarrow> (bool \<Rightarrow> 's \<Rightarrow> 's) \<Rightarrow> 32 word \<Rightarrow> timestamp \<Rightarrow> 's \<Rightarrow> 's res" where
  "handleEvent cbs set_handling revents receiveTime s =
     rbind (if has revents POLLHUP \<and> \<not> has revents POLLIN then call_opt (closeCallback cbs) (set_handling True s)
            else Inr (set_handling True s))
      (\<lambda>s. rbind (if has revents (POLLERR OR POLLNVAL) then call_opt (errorCallback cbs) s else Inr s)
        (\<lambda>s. rbind (if has revents (POLLIN OR POLLPRI OR POLLRDHUP)
                     then call_opt (map_option (\<lambda>f. f receiveTime) (readCallback cbs)) s else Inr s)
          (\<lambda>s. rbind (if has revents POLLOUT then call_opt (writeCallback cbs) s else Inr s)
            (\<lambda>s. Inr (set_handling False s)))))"

section \<open>The poller\<close>

record pollfd =
  pfd_fd :: int
  pfd_events :: "16 word"
  pfd_revents :: "16 word"

record poller =
  pollfds :: "pollfd list"
  channels :: "(int, nat) std_map"
  chan :: "nat \<Rightarrow> channel"

definition new_poller :: "(nat \<Rightarrow> channel) \<Rightarrow> poller" where
  "new_poller cs = \<lparr>pollfds = [], channels = [], chan = cs\<rparr>"

definition chan_update :: "nat \<Rightarrow> (channel \<Rightarrow> channel) \<Rightarrow> poller \<Rightarrow> poller" where
  "chan_update c f p = p\<lparr>chan := (chan p)(c := f (chan p c))\<rparr>"

definition updateChannel :: "nat \<Rightarrow> poller \<Rightarrow> poller res" where
  "updateChannel c p =
     (let ch = chan p c; fd = ch_fd ch
      in if ch_index ch < 0 then
           assert_c (map_of (channels p) fd = None)
            (let pfd = \<lparr>pfd_fd = fd, pfd_events = ucast (ch_events ch), pfd_revents = 0\<rparr>;
                 fds = pollfds p @ [pfd];
                 idx = int (length fds) - 1
             in Inr (chan_update c (set_index idx) (p\<lparr>pollfds := fds, channels := map_put fd c (channels p)\<rparr>)))
         else
           assert_c (map_of (channels p) fd \<noteq> None)
            (assert_c (map_of (channels p) fd = Some c)
              (let idx = ch_index ch
               in assert_c (0 \<le> idx \<and> idx < int (length (pollfds p)))
                   (let pfd = pollfds p ! nat idx
                    in assert_c (pfd_fd pfd = fd \<or> pfd_fd pfd = - fd - 1)
                        (let pfd = pfd\<lparr>pfd_events := ucast (ch_events ch), pfd_revents := 0\<rparr>;
                             pfd = (if isNoneEvent ch then pfd\<lparr>pfd_fd := - fd - 1\<rparr> else pfd)
                         in Inr (p\<lparr>pollfds := (pollfds p)[nat idx := pfd]\<rparr>))))))"

text \<open>\<open>channels_[k]->set_index(idx)\<close>: the subscript creates a null pointer for an absent key.\<close>

definition set_index_at :: "int \<Rightarrow> int \<Rightarrow> poller \<Rightarrow> poller res" where
  "set_index_at k idx p =
     (case map_of (channels p) k of
        None \<Rightarrow> Inl Null_pointer
      | Some c \<Rightarrow> Inr (chan_update c (set_index idx) p))"

definition removeChannel :: "nat \<Rightarrow> poller \<Rightarrow> poller res" where
  "removeChannel c p =
     (let ch = chan p c; fd = ch_fd ch
      in assert_c (map_of (channels p) fd \<noteq> None)
          (assert_c (map_of (channels p) fd = Some c)
            (assert_c (isNoneEvent ch)
              (let idx = ch_index ch
               in assert_c (0 \<le> idx \<and> idx < int (length (pollfds p)))
                   (let pfd = pollfds p ! nat idx
                    in assert_c (pfd_fd pfd = - fd - 1 \<and> (scast (pfd_events pfd) :: 32 word) = ch_events ch)
                        (let p = p\<lparr>channels := map_erase fd (channels p)\<rparr>
                         in if nat idx = length (pollfds p) - 1
                            then Inr (p\<lparr>pollfds := butlast (pollfds p)\<rparr>)
                            else let atEnd = pfd_fd (last (pollfds p));
                                     p = p\<lparr>pollfds := (pollfds p)[nat idx := last (pollfds p),
                                                        length (pollfds p) - 1 := pfd]\<rparr>;
                                     atEnd = (if atEnd < 0 then - atEnd - 1 else atEnd)
                                 in rbind (set_index_at atEnd idx p)
                                     (\<lambda>p. Inr (p\<lparr>pollfds := butlast (pollfds p)\<rparr>))))))))"

text \<open>Changing the interest of a channel.\<close>

definition enableReading :: "nat \<Rightarrow> poller \<Rightarrow> poller res" where
  "enableReading c p = updateChannel c (chan_update c (\<lambda>ch. ch\<lparr>ch_events := set_bits_of kReadEvent (ch_events ch)\<rparr>) p)"

definition enableWriting :: "nat \<Rightarrow> poller \<Rightarrow> poller res" where
  "enableWriting c p = updateChannel c (chan_update c (\<lambda>ch. ch\<lparr>ch_events := set_bits_of kWriteEvent (ch_events ch)\<rparr>) p)"

definition disableWriting :: "nat \<Rightarrow> poller \<Rightarrow> poller res" where
  "disableWriting c p = updateChannel c (chan_update c (\<lambda>ch. ch\<lparr>ch_events := clear_bits_of kWriteEvent (ch_events ch)\<rparr>) p)"

definition disableAll :: "nat \<Rightarrow> poller \<Rightarrow> poller res" where
  "disableAll c p = updateChannel c (chan_update c (\<lambda>ch. ch\<lparr>ch_events := kNoneEvent\<rparr>) p)"

text \<open>The loop of fillActiveChannels, over the entries not yet looked at.\<close>

fun fill_loop :: "pollfd list \<Rightarrow> int \<Rightarrow> nat list \<Rightarrow> poller \<Rightarrow> (nat list \<times> poller) res" where
  "fill_loop [] n active p = Inr (active, p)"
| "fill_loop (pfd # fds) n active p =
     (if 0 < n then
        (if 0 < sint (pfd_revents pfd) then
           (case map_of (channels p) (pfd_fd pfd) of
              None \<Rightarrow> Inl Assert_failed
            | Some c \<Rightarrow>
                assert_c (ch_fd (chan p c) = pfd_fd pfd)
                 (fill_loop fds (n - 1) (active @ [c]) (chan_update c (set_revents (scast (pfd_revents pfd))) p)))
         else fill_loop fds n active p)
      else Inr (active, p))"

definition fillActiveChannels :: "int \<Rightarrow> nat list \<Rightarrow> poller \<Rightarrow> (nat list \<times> poller) res" where
  "fillActiveChannels numEvents active p = fill_loop (pollfds p) numEvents active p"

text \<open>
  poll(2) is an argument: from the array and the timeout the count of ready entries (negative on
  error) and the revents it stored.
\<close>

definition poller_poll ::
  "(pollfd list \<Rightarrow> int \<Rightarrow> int \<times> 16 word list) \<Rightarrow> int \<times> int \<Rightarrow> int \<Rightarrow> nat list \<Rightarrow> poller
     \<Rightarrow> (timestamp \<times> nat list \<times> poller) res" where
  "poller_poll poll_k tv timeoutMs active p =
     (let (numEvents, revs) = poll_k (pollfds p) timeoutMs;
          p = p\<lparr>pollfds := map (\<lambda>(pfd, r). pfd\<lparr>pfd_revents := r\<rparr>) (zip (pollfds p) revs)\<rparr>;
          now = ts_now tv
      in if 0 < numEvents
         then rbind (fillActiveChannels numEvents active p) (\<lambda>(active, p). Inr (now, active, p))
         else Inr (now, active, p))"

section \<open>The invariant\<close>

text \<open>The descriptor an entry of the array stands for, ignored (negative) or not.\<close>

definition pfd_key :: "pollfd \<Rightarrow> int" where
  "pfd_key pfd = (if pfd_fd pfd < 0 then - pfd_fd pfd - 1 else pfd_fd pfd)"

definition registered :: "poller \<Rightarrow> nat \<Rightarrow> bool" where
  "registered p c \<longleftrightarrow> map_of (channels p) (ch_fd (chan p c)) = Some c"

abbreviation entry_of :: "poller \<Rightarrow> nat \<Rightarrow> pollfd" where
  "entry_of p c \<equiv> pollfds p ! nat (ch_index (chan p c))"

text \<open>
  The table and the array are two views of one set of channels: every channel of the table knows the
  position of its entry, and every entry is the one of a channel of the table.
\<close>

definition poller_inv :: "poller \<Rightarrow> bool" where
  "poller_inv p \<longleftrightarrow>
     map_inv (channels p)
     \<and> (\<forall>fd c. map_of (channels p) fd = Some c \<longrightarrow>
          0 \<le> fd \<and> ch_fd (chan p c) = fd \<and> 0 \<le> ch_index (chan p c)
          \<and> nat (ch_index (chan p c)) < length (pollfds p) \<and> pfd_key (entry_of p c) = fd)
     \<and> (\<forall>i < length (pollfds p). \<exists>c. map_of (channels p) (pfd_key (pollfds p ! i)) = Some c
          \<and> ch_index (chan p c) = int i)"

lemma new_poller_inv: "poller_inv (new_poller cs)"
  by (simp add: poller_inv_def new_poller_def)

lemma poller_invD:
  assumes "poller_inv p" "map_of (channels p) fd = Some c"
  shows "0 \<le> fd" "ch_fd (chan p c) = fd" "0 \<le> ch_index (chan p c)"
    "nat (ch_index (chan p c)) < length (pollfds p)" "pfd_key (entry_of p c) = fd"
  using assms by (auto simp: poller_inv_def)

lemma poller_inv_entry:
  assumes "poller_inv p" "i < length (pollfds p)"
  obtains c where "map_of (channels p) (pfd_key (pollfds p ! i)) = Some c" "ch_index (chan p c) = int i"
  using assms by (auto simp: poller_inv_def)

lemma registered_index_inj:
  assumes "poller_inv p" "map_of (channels p) fd = Some c" "map_of (channels p) fd' = Some c'" "fd \<noteq> fd'"
  shows "ch_index (chan p c) \<noteq> ch_index (chan p c')"
  using poller_invD(5) [OF assms(1,2)] poller_invD(5) [OF assms(1,3)] assms(4) by metis

lemma registered_at:
  "poller_inv p \<Longrightarrow> map_of (channels p) fd = Some c \<Longrightarrow> registered p c"
  by (simp add: registered_def poller_invD)

lemma pfd_key_cases: "pfd_key pfd = fd \<Longrightarrow> pfd_fd pfd = fd \<or> pfd_fd pfd = - fd - 1"
  by (auto simp: pfd_key_def split: if_splits)

text \<open>Changing the events of a channel does not touch the two views.\<close>

lemma poller_inv_events:
  "poller_inv p \<Longrightarrow> poller_inv (chan_update c (\<lambda>ch. ch\<lparr>ch_events := f (ch_events ch)\<rparr>) p)"
  by (auto simp: poller_inv_def chan_update_def)

text \<open>The entry updateChannel writes for a registered channel.\<close>

definition refreshed :: "channel \<Rightarrow> pollfd \<Rightarrow> pollfd" where
  "refreshed ch pfd =
     pfd\<lparr>pfd_fd := (if isNoneEvent ch then - ch_fd ch - 1 else pfd_fd pfd),
         pfd_events := ucast (ch_events ch), pfd_revents := 0\<rparr>"

lemma updateChannel_registered:
  assumes inv: "poller_inv p" and reg: "registered p c"
  shows "updateChannel c p = Inr (p\<lparr>pollfds := (pollfds p)[nat (ch_index (chan p c)) := refreshed (chan p c) (entry_of p c)]\<rparr>)"
proof -
  note d = poller_invD [OF inv reg [unfolded registered_def]]
  from pfd_key_cases [OF d(5)] have "pfd_fd (entry_of p c) = ch_fd (chan p c) \<or> pfd_fd (entry_of p c) = - ch_fd (chan p c) - 1" .
  moreover have "ch_index (chan p c) < int (length (pollfds p))" using d(3,4) by linarith
  ultimately show ?thesis
    using d reg by (cases "entry_of p c") (auto simp: updateChannel_def registered_def refreshed_def Let_def)
qed

lemma pfd_key_refreshed: "pfd_key pfd = ch_fd ch \<Longrightarrow> 0 \<le> ch_fd ch \<Longrightarrow> pfd_key (refreshed ch pfd) = ch_fd ch"
  by (auto simp: pfd_key_def refreshed_def)

lemma poller_inv_refresh:
  assumes inv: "poller_inv p" and reg: "registered p c"
  shows "poller_inv (p\<lparr>pollfds := (pollfds p)[nat (ch_index (chan p c)) := refreshed (chan p c) (entry_of p c)]\<rparr>)"
proof -
  note d = poller_invD [OF inv reg [unfolded registered_def]]
  have k: "pfd_key ((pollfds p)[nat (ch_index (chan p c)) := refreshed (chan p c) (entry_of p c)] ! i) = pfd_key (pollfds p ! i)"
    for i
    using pfd_key_refreshed [OF d(5,1)] d by (cases "i = nat (ch_index (chan p c))") simp_all
  show ?thesis using inv by (simp add: poller_inv_def k)
qed

lemma updateChannel_fresh:
  assumes inv: "poller_inv p" and fresh: "ch_index (chan p c) < 0" "map_of (channels p) (ch_fd (chan p c)) = None"
    and fd: "0 \<le> ch_fd (chan p c)"
  shows "\<exists>p'. updateChannel c p = Inr p' \<and> poller_inv p' \<and> registered p' c
      \<and> pollfds p' = pollfds p @ [\<lparr>pfd_fd = ch_fd (chan p c), pfd_events = ucast (ch_events (chan p c)), pfd_revents = 0\<rparr>]
      \<and> channels p' = map_put (ch_fd (chan p c)) c (channels p)"
proof -
  let ?fd = "ch_fd (chan p c)"
  let ?e = "\<lparr>pfd_fd = ?fd, pfd_events = ucast (ch_events (chan p c)), pfd_revents = 0\<rparr>"
  let ?p = "chan_update c (set_index (int (length (pollfds p)))) (p\<lparr>pollfds := pollfds p @ [?e], channels := map_put ?fd c (channels p)\<rparr>)"
  have run: "updateChannel c p = Inr ?p"
    using fresh by (simp add: updateChannel_def Let_def)
  have other: "c' \<noteq> c" if "map_of (channels p) k = Some c'" for k c'
    using that fresh poller_invD(3) [OF inv that] by auto
  have "poller_inv ?p"
    unfolding poller_inv_def
  proof (intro conjI allI impI)
    show "map_inv (channels ?p)" using inv by (simp add: poller_inv_def chan_update_def map_inv_put)
  next
    fix fd c'
    assume a: "map_of (channels ?p) fd = Some c'"
    show "0 \<le> fd" "ch_fd (chan ?p c') = fd" "0 \<le> ch_index (chan ?p c')"
      "nat (ch_index (chan ?p c')) < length (pollfds ?p)" "pfd_key (entry_of ?p c') = fd"
      using a fd other poller_invD [OF inv, of fd c']
      by (auto simp: chan_update_def set_index_def pfd_key_def nth_append split: if_splits)
  next
    fix i assume i: "i < length (pollfds ?p)"
    show "\<exists>c'. map_of (channels ?p) (pfd_key (pollfds ?p ! i)) = Some c' \<and> ch_index (chan ?p c') = int i"
    proof (cases "i < length (pollfds p)")
      case True
      obtain c' where c': "map_of (channels p) (pfd_key (pollfds p ! i)) = Some c'" "ch_index (chan p c') = int i"
        using poller_inv_entry [OF inv True] .
      then show ?thesis using fresh(2) other True by (auto simp: chan_update_def nth_append)
    next
      case False
      with i have "i = length (pollfds p)" by (simp add: chan_update_def)
      then show ?thesis using fd by (simp add: chan_update_def set_index_def pfd_key_def)
    qed
  qed
  with run show ?thesis by (simp add: registered_def chan_update_def set_index_def)
qed

lemma removeChannel_spec:
  assumes inv: "poller_inv p" and reg: "registered p c" and none: "isNoneEvent (chan p c)"
    and entry: "entry_of p c = \<lparr>pfd_fd = - ch_fd (chan p c) - 1, pfd_events = 0, pfd_revents = r\<rparr>"
  shows "\<exists>p'. removeChannel c p = Inr p' \<and> poller_inv p'
      \<and> channels p' = map_erase (ch_fd (chan p c)) (channels p)
      \<and> length (pollfds p') = length (pollfds p) - 1"
proof -
  let ?fd = "ch_fd (chan p c)" and ?i = "nat (ch_index (chan p c))" and ?n = "length (pollfds p) - 1"
  note rc = reg [unfolded registered_def]
  note d = poller_invD [OF inv rc]
  have ev: "ch_events (chan p c) = 0" using none by (simp add: isNoneEvent_def kNoneEvent_def)
  have asserts: "map_of (channels p) ?fd \<noteq> None" "map_of (channels p) ?fd = Some c" "isNoneEvent (chan p c)"
    "0 \<le> ch_index (chan p c) \<and> ch_index (chan p c) < int (length (pollfds p))"
    "pfd_fd (entry_of p c) = - ?fd - 1 \<and> (scast (pfd_events (entry_of p c)) :: 32 word) = ch_events (chan p c)"
    using rc none d entry ev by auto
  have others: "nat (ch_index (chan p c')) \<noteq> ?i" "nat (ch_index (chan p c')) < length (pollfds p)" "c' \<noteq> c"
    if "map_of (channels p) k = Some c'" "k \<noteq> ?fd" for k c'
    using poller_invD [OF inv that(1)] registered_index_inj [OF inv that(1) rc that(2)] d(3) that rc
      eq_nat_nat_iff by (metis, metis, metis option.inject)
  show ?thesis
  proof (cases "?i = ?n")
    case True
    let ?p = "p\<lparr>channels := map_erase ?fd (channels p), pollfds := butlast (pollfds p)\<rparr>"
    have run: "removeChannel c p = Inr ?p"
      using asserts True by (simp add: removeChannel_def Let_def)
    have lt: "nat (ch_index (chan p c')) < ?n" if "map_of (channels p) k = Some c'" "k \<noteq> ?fd" for k c'
      using others [OF that] True by linarith
    have "poller_inv ?p"
      unfolding poller_inv_def
    proof (intro conjI allI impI)
      show "map_inv (channels ?p)" using inv by (simp add: poller_inv_def map_inv_erase)
    next
      fix fd c'
      assume a: "map_of (channels ?p) fd = Some c'"
      then have b: "map_of (channels p) fd = Some c'" "fd \<noteq> ?fd" by (auto split: if_splits)
      show "0 \<le> fd" "ch_fd (chan ?p c') = fd" "0 \<le> ch_index (chan ?p c')"
        "nat (ch_index (chan ?p c')) < length (pollfds ?p)" "pfd_key (entry_of ?p c') = fd"
        using poller_invD [OF inv b(1)] lt [OF b] by (simp_all add: nth_butlast)
    next
      fix i assume i: "i < length (pollfds ?p)"
      then have i': "i < length (pollfds p)" "i \<noteq> ?i" using True by auto
      obtain c' where c': "map_of (channels p) (pfd_key (pollfds p ! i)) = Some c'" "ch_index (chan p c') = int i"
        using poller_inv_entry [OF inv i'(1)] .
      then have "pfd_key (pollfds p ! i) \<noteq> ?fd" using rc i'(2) by auto
      then show "\<exists>c'. map_of (channels ?p) (pfd_key (pollfds ?p ! i)) = Some c' \<and> ch_index (chan ?p c') = int i"
        using c' i by (auto simp: nth_butlast)
    qed
    with run show ?thesis by simp
  next
    case False
    let ?last = "pollfds p ! ?n"
    have n: "?n < length (pollfds p)" "?i < ?n" and ne: "pollfds p \<noteq> []" using d(4) False by auto
    obtain c2 where c2: "map_of (channels p) (pfd_key ?last) = Some c2" "ch_index (chan p c2) = int ?n"
      using poller_inv_entry [OF inv n(1)] .
    have k2: "pfd_key ?last \<noteq> ?fd" using c2 rc d(3) False by auto
    have last: "last (pollfds p) = ?last" using ne by (simp add: last_conv_nth)
    have atEnd: "(if pfd_fd ?last < 0 then - pfd_fd ?last - 1 else pfd_fd ?last) = pfd_key ?last"
      by (simp add: pfd_key_def)
    have bl: "butlast ((pollfds p)[?i := ?last, ?n := x]) = (butlast (pollfds p))[?i := ?last]" for x
      using n by (auto simp: butlast_conv_take take_update_swap take_update_cancel list_update_beyond)
    let ?p = "chan_update c2 (set_index (int ?i)) (p\<lparr>channels := map_erase ?fd (channels p), pollfds := (butlast (pollfds p))[?i := ?last]\<rparr>)"
    have run: "removeChannel c p = Inr ?p"
      using asserts False c2 k2 bl [of "entry_of p c"]
      by (simp add: removeChannel_def Let_def last atEnd [unfolded Let_def] set_index_at_def chan_update_def pfd_key_def [symmetric]
          del: nat_eq_iff2 nat_eq_iff)
    have "poller_inv ?p"
      unfolding poller_inv_def
    proof (intro conjI allI impI)
      show "map_inv (channels ?p)" using inv by (simp add: poller_inv_def chan_update_def map_inv_erase)
    next
      fix fd c'
      assume a: "map_of (channels ?p) fd = Some c'"
      then have b: "map_of (channels p) fd = Some c'" "fd \<noteq> ?fd" by (auto simp: chan_update_def split: if_splits)
      note d' = poller_invD [OF inv b(1)]
      have same: "c' = c2 \<longleftrightarrow> nat (ch_index (chan p c')) = ?n"
        using d'(3,5) c2 b(1) by (metis int_nat_eq nat_int option.inject)
      have lt: "c' \<noteq> c2 \<Longrightarrow> nat (ch_index (chan p c')) < length (pollfds p) - Suc 0"
        using same others(2) [OF b] by linarith
      show "0 \<le> fd" "ch_fd (chan ?p c') = fd" "0 \<le> ch_index (chan ?p c')"
        "nat (ch_index (chan ?p c')) < length (pollfds ?p)" "pfd_key (entry_of ?p c') = fd"
        using d' others [OF b] n same lt
        by (auto simp: chan_update_def set_index_def nth_butlast nth_list_update)
    next
      fix i assume i: "i < length (pollfds ?p)"
      then have i': "i < ?n" by (simp add: chan_update_def)
      show "\<exists>c'. map_of (channels ?p) (pfd_key (pollfds ?p ! i)) = Some c' \<and> ch_index (chan ?p c') = int i"
      proof (cases "i = ?i")
        case True
        then show ?thesis using c2 k2 n by (auto simp: chan_update_def set_index_def)
      next
        case False
        obtain c' where c': "map_of (channels p) (pfd_key (pollfds p ! i)) = Some c'" "ch_index (chan p c') = int i"
          using poller_inv_entry [OF inv, of i] i' by (metis n(1) order.strict_trans)
        then have "pfd_key (pollfds p ! i) \<noteq> ?fd" "c' \<noteq> c2" using rc False c2(2) i' by auto
        then show ?thesis using c' i' False by (auto simp: chan_update_def nth_butlast)
      qed
    qed
    with run n show ?thesis by (simp add: chan_update_def)
  qed
qed

section \<open>Sequences of operations\<close>

datatype poller_op =
    Op_enableReading nat
  | Op_enableWriting nat
  | Op_disableWriting nat
  | Op_disableAll nat
  | Op_remove nat

fun poller_run :: "poller_op \<Rightarrow> poller \<Rightarrow> poller res" where
  "poller_run (Op_enableReading c) p = enableReading c p"
| "poller_run (Op_enableWriting c) p = enableWriting c p"
| "poller_run (Op_disableWriting c) p = disableWriting c p"
| "poller_run (Op_disableAll c) p = disableAll c p"
| "poller_run (Op_remove c) p = removeChannel c p"

text \<open>A channel the poller knows, or a new one on a descriptor the poller does not know.\<close>

definition usable :: "poller \<Rightarrow> nat \<Rightarrow> bool" where
  "usable p c \<longleftrightarrow> registered p c
     \<or> ch_index (chan p c) < 0 \<and> 0 \<le> ch_fd (chan p c) \<and> map_of (channels p) (ch_fd (chan p c)) = None"

definition removable :: "poller \<Rightarrow> nat \<Rightarrow> bool" where
  "removable p c \<longleftrightarrow> registered p c \<and> isNoneEvent (chan p c)
     \<and> pfd_fd (entry_of p c) = - ch_fd (chan p c) - 1 \<and> pfd_events (entry_of p c) = 0"

fun permitted :: "poller_op \<Rightarrow> poller \<Rightarrow> bool" where
  "permitted (Op_enableReading c) p = usable p c"
| "permitted (Op_enableWriting c) p = usable p c"
| "permitted (Op_disableWriting c) p = usable p c"
| "permitted (Op_disableAll c) p = usable p c"
| "permitted (Op_remove c) p = removable p c"

definition interest :: "(32 word \<Rightarrow> 32 word) \<Rightarrow> nat \<Rightarrow> poller \<Rightarrow> poller res" where
  "interest f c p = updateChannel c (chan_update c (\<lambda>ch. ch\<lparr>ch_events := f (ch_events ch)\<rparr>) p)"

lemma interest_ops:
  "enableReading c = interest (set_bits_of kReadEvent) c" "enableWriting c = interest (set_bits_of kWriteEvent) c"
  "disableWriting c = interest (clear_bits_of kWriteEvent) c" "disableAll c = interest (\<lambda>_. kNoneEvent) c"
  by (simp_all add: fun_eq_iff interest_def enableReading_def enableWriting_def disableWriting_def disableAll_def)

lemma chan_update_fields [simp]:
  "channels (chan_update c f p) = channels p" "pollfds (chan_update c f p) = pollfds p"
  "chan (chan_update c f p) c' = (if c' = c then f (chan p c) else chan p c')"
  by (simp_all add: chan_update_def)

lemma interest_registered:
  assumes "poller_inv p" "registered p c"
  shows "\<exists>p'. interest f c p = Inr p' \<and> poller_inv p' \<and> registered p' c \<and> ch_events (chan p' c) = f (ch_events (chan p c))
      \<and> ch_fd (chan p' c) = ch_fd (chan p c)
      \<and> entry_of p' c = refreshed (chan p' c) (entry_of p c)"
proof -
  let ?p = "chan_update c (\<lambda>ch. ch\<lparr>ch_events := f (ch_events ch)\<rparr>) p"
  have inv: "poller_inv ?p" using assms(1) by (rule poller_inv_events)
  have reg: "registered ?p c" using assms(2) by (simp add: registered_def)
  have lt: "nat (ch_index (chan p c)) < length (pollfds p)"
    using poller_invD(4) [OF assms(1)] assms(2) by (simp add: registered_def)
  show ?thesis
    unfolding interest_def updateChannel_registered [OF inv reg]
    using poller_inv_refresh [OF inv reg] reg lt by (simp add: registered_def)
qed

lemma interest_usable:
  assumes "poller_inv p" "usable p c"
  shows "\<exists>p'. interest f c p = Inr p' \<and> poller_inv p' \<and> registered p' c"
proof (cases "registered p c")
  case True
  then show ?thesis using interest_registered [OF assms(1)] by blast
next
  case False
  then show ?thesis
    using assms updateChannel_fresh [OF poller_inv_events [OF assms(1)], where c = c and c1 = c]
    by (auto simp: usable_def interest_def)
qed

lemma permitted_run:
  assumes "poller_inv p" "permitted x p"
  shows "\<exists>p'. poller_run x p = Inr p' \<and> poller_inv p'"
proof (cases x)
  case (Op_remove c)
  with assms show ?thesis
    using removeChannel_spec [OF assms(1), of c "pfd_revents (entry_of p c)"]
    by (cases "entry_of p c") (auto simp: removable_def)
qed (use assms interest_usable in \<open>fastforce simp: interest_ops\<close>)+

inductive poller_step :: "poller \<Rightarrow> poller \<Rightarrow> bool" where
  "permitted x p \<Longrightarrow> poller_run x p = Inr p' \<Longrightarrow> poller_step p p'"

definition poller_init :: "poller \<Rightarrow> bool" where
  "poller_init p \<longleftrightarrow> p = new_poller (chan p)"

interpretation polling: invariant_system poller_init poller_step poller_inv
proof
  show "poller_inv p" if "poller_init p" for p
    using that new_poller_inv by (metis poller_init_def)
  show "poller_inv p'" if "poller_inv p" "poller_step p p'" for p p'
    using that(2,1) by cases (use permitted_run in force)
qed

text \<open>C15: in every state reached by registering, changing and removing channels, the descriptor table and the poll
  array describe the same channels (each channel's index is the position of its entry, also after a removal
  moved the last entry into the gap), and the next permitted operation passes all of the poller's asserts.\<close>

theorem poller_never_asserts:
  assumes "reach poller_init poller_step p" "permitted x p"
  shows "\<exists>p'. poller_run x p = Inr p' \<and> poller_inv p'"
  using permitted_run [OF polling.reachable_inv [OF assms(1)] assms(2)] .

theorem poller_never_asserts_witness:
  "\<exists>p'. poller_run (Op_enableReading 3) (new_poller (\<lambda>c. new_channel (int c))) = Inr p' \<and> poller_inv p'"
  by (rule poller_never_asserts)
    (auto intro!: reach_init simp: poller_init_def new_poller_def usable_def new_channel_def)

text \<open>A channel that unregistered all its interest can be removed.\<close>

theorem disabled_is_removable:
  assumes "poller_inv p" "registered p c"
  shows "\<exists>p' p''. disableAll c p = Inr p' \<and> removeChannel c p' = Inr p'' \<and> poller_inv p''
    \<and> map_of (channels p'') (ch_fd (chan p c)) = None
    \<and> length (pollfds p'') = length (pollfds p') - 1"
proof -
  obtain p' where p': "disableAll c p = Inr p'" "poller_inv p'" "registered p' c" "ch_events (chan p' c) = 0"
    "ch_fd (chan p' c) = ch_fd (chan p c)" "entry_of p' c = refreshed (chan p' c) (entry_of p c)"
    using interest_registered [OF assms, of "\<lambda>_. kNoneEvent"] by (auto simp: interest_ops kNoneEvent_def)
  have none: "isNoneEvent (chan p' c)" using p'(4) by (simp add: isNoneEvent_def kNoneEvent_def)
  have "entry_of p' c = \<lparr>pfd_fd = - ch_fd (chan p' c) - 1, pfd_events = 0, pfd_revents = 0\<rparr>"
    using none p'(4) unfolding p'(6) by (cases "entry_of p c") (simp add: refreshed_def)
  from removeChannel_spec [OF p'(2,3) none this] p'(1,5) show ?thesis by auto
qed

theorem disabled_is_removable_witness:
  "\<exists>p p' p''. enableReading 3 (new_poller (\<lambda>c. new_channel (int c))) = Inr p
     \<and> disableAll 3 p = Inr p' \<and> removeChannel 3 p' = Inr p''"
proof -
  have "usable (new_poller (\<lambda>c. new_channel (int c))) 3" by (simp add: usable_def new_poller_def new_channel_def)
  from interest_usable [OF new_poller_inv this] obtain p where
    "enableReading 3 (new_poller (\<lambda>c. new_channel (int c))) = Inr p" "poller_inv p" "registered p 3"
    by (auto simp: interest_ops)
  with disabled_is_removable [of p 3] show ?thesis by blast
qed

text \<open>disableAll followed by enableReading does not bring the channel back: updateChannel makes the descriptor of
  the entry negative when the interest is empty and never positive again, so poll(2) keeps ignoring it
  although the channel is interested in reading.\<close>

theorem reenabled_channel_is_ignored:
  assumes "poller_inv p" "registered p c"
  shows "\<exists>p' p''. disableAll c p = Inr p' \<and> enableReading c p' = Inr p''
    \<and> has (ch_events (chan p'' c)) POLLIN \<and> pfd_fd (entry_of p'' c) < 0"
proof -
  obtain p' where p': "disableAll c p = Inr p'" "poller_inv p'" "registered p' c"
    "ch_fd (chan p' c) = ch_fd (chan p c)" "isNoneEvent (chan p' c)" "ch_events (chan p' c) = 0"
    "entry_of p' c = refreshed (chan p' c) (entry_of p c)"
    using interest_registered [OF assms, of "\<lambda>_. kNoneEvent"] by (auto simp: interest_ops isNoneEvent_def kNoneEvent_def)
  obtain p'' where p'': "enableReading c p' = Inr p''" "ch_events (chan p'' c) = set_bits_of kReadEvent 0"
    "entry_of p'' c = refreshed (chan p'' c) (entry_of p' c)"
    using interest_registered [OF p'(2,3), of "set_bits_of kReadEvent"] p'(6) by (auto simp: interest_ops)
  have "0 \<le> ch_fd (chan p' c)" using poller_invD(1) [OF p'(2)] p'(3) by (simp add: registered_def)
  then have neg: "pfd_fd (entry_of p' c) < 0" using p'(5) unfolding p'(7) by (simp add: refreshed_def)
  have ev: "set_bits_of kReadEvent 0 = 3" "has 3 POLLIN" "(3 :: 32 word) \<noteq> kNoneEvent"
    by (simp_all add: set_bits_of_def kReadEvent_def has_def kNoneEvent_def poll_consts)
  have "\<not> isNoneEvent (chan p'' c)" using p''(2) ev by (simp add: isNoneEvent_def)
  then have "pfd_fd (entry_of p'' c) < 0" using neg unfolding p''(3) by (simp add: refreshed_def)
  with p'(1) p''(1,2) ev show ?thesis by auto
qed

theorem reenabled_channel_is_ignored_witness:
  "\<exists>p p' p''. enableReading 3 (new_poller (\<lambda>c. new_channel (int c))) = Inr p
     \<and> disableAll 3 p = Inr p' \<and> enableReading 3 p' = Inr p'' \<and> pfd_fd (entry_of p'' 3) < 0"
proof -
  have "usable (new_poller (\<lambda>c. new_channel (int c))) 3" by (simp add: usable_def new_poller_def new_channel_def)
  from interest_usable [OF new_poller_inv this] obtain p where
    "enableReading 3 (new_poller (\<lambda>c. new_channel (int c))) = Inr p" "poller_inv p" "registered p 3"
    by (auto simp: interest_ops)
  with reenabled_channel_is_ignored [of p 3] show ?thesis by blast
qed

section \<open>Reporting ready channels\<close>

definition ready :: "pollfd \<Rightarrow> bool" where
  "ready pfd \<longleftrightarrow> 0 < sint (pfd_revents pfd)"

definition chan_of :: "poller \<Rightarrow> pollfd \<Rightarrow> nat" where
  "chan_of p pfd = the (map_of (channels p) (pfd_fd pfd))"

lemma fill_loop_spec:
  assumes "\<And>pfd. pfd \<in> set fds \<Longrightarrow> ready pfd \<Longrightarrow>
      \<exists>c. map_of (channels p) (pfd_fd pfd) = Some c \<and> ch_fd (chan p c) = pfd_fd pfd"
    and "int (length (filter ready fds)) = n" "distinct (map pfd_fd (filter ready fds))"
  shows "\<exists>p'. fill_loop fds n active p = Inr (active @ map (chan_of p) (filter ready fds), p')
    \<and> pollfds p' = pollfds p \<and> channels p' = channels p
    \<and> (\<forall>c. ch_fd (chan p' c) = ch_fd (chan p c) \<and> ch_index (chan p' c) = ch_index (chan p c)
         \<and> ch_events (chan p' c) = ch_events (chan p c))
    \<and> (\<forall>pfd \<in> set (filter ready fds). ch_revents (chan p' (chan_of p pfd)) = scast (pfd_revents pfd))
    \<and> (\<forall>c. c \<notin> chan_of p ` set (filter ready fds) \<longrightarrow> chan p' c = chan p c)"
  using assms
proof (induction fds arbitrary: n active p)
  case Nil
  then show ?case by simp
next
  case (Cons pfd fds)
  show ?case
  proof (cases "ready pfd")
    case False
    note ih = Cons.IH [of p n active, OF Cons.prems(1)]
    show ?thesis
    proof (cases "0 < n")
      case True
      then show ?thesis using ih Cons.prems(2,3) False by (simp add: ready_def)
    next
      case n: False
      then have "filter ready (pfd # fds) = []"
        using Cons.prems(2) by (cases "filter ready (pfd # fds)") auto
      with n show ?thesis by simp
    qed
  next
    case True
    obtain c where c: "map_of (channels p) (pfd_fd pfd) = Some c" "ch_fd (chan p c) = pfd_fd pfd"
      using Cons.prems(1) True by auto
    let ?p = "chan_update c (set_revents (scast (pfd_revents pfd))) p"
    have same: "ch_fd (chan ?p k) = ch_fd (chan p k)" "ch_index (chan ?p k) = ch_index (chan p k)"
      "ch_events (chan ?p k) = ch_events (chan p k)" for k
      by (simp_all add: set_revents_def)
    have chan_of: "chan_of ?p = chan_of p" by (simp add: chan_of_def fun_eq_iff)
    have pre: "\<And>x. x \<in> set fds \<Longrightarrow> ready x \<Longrightarrow>
        \<exists>k. map_of (channels ?p) (pfd_fd x) = Some k \<and> ch_fd (chan ?p k) = pfd_fd x"
      using Cons.prems(1) same(1) by simp
    have cnt: "int (length (filter ready fds)) = n - 1" "distinct (map pfd_fd (filter ready fds))" "0 < n"
      using Cons.prems(2,3) True by auto
    obtain p' where p': "fill_loop fds (n - 1) (active @ [c]) ?p
        = Inr ((active @ [c]) @ map (chan_of p) (filter ready fds), p')"
      "pollfds p' = pollfds p" "channels p' = channels p"
      "\<forall>k. ch_fd (chan p' k) = ch_fd (chan p k) \<and> ch_index (chan p' k) = ch_index (chan p k)
         \<and> ch_events (chan p' k) = ch_events (chan p k)"
      "\<forall>x \<in> set (filter ready fds). ch_revents (chan p' (chan_of p x)) = scast (pfd_revents x)"
      "\<forall>k. k \<notin> chan_of p ` set (filter ready fds) \<longrightarrow> chan p' k = chan ?p k"
      using Cons.IH [OF pre cnt(1,2), of "active @ [c]"] unfolding chan_of same chan_update_fields(1,2) by blast
    have cof: "chan_of p pfd = c" using c by (simp add: chan_of_def)
    have new: "c \<notin> chan_of p ` set (filter ready fds)"
    proof
      assume "c \<in> chan_of p ` set (filter ready fds)"
      then obtain x where x: "x \<in> set fds" "ready x" "chan_of p x = c" by auto
      then have "pfd_fd x = pfd_fd pfd" using Cons.prems(1) [of x] c by (auto simp: chan_of_def)
      moreover have "pfd_fd x \<in> pfd_fd ` set (filter ready fds)" using x by simp
      ultimately show False using Cons.prems(3) True by simp
    qed
    then have "ch_revents (chan p' c) = scast (pfd_revents pfd)" using p'(6) by (simp add: set_revents_def)
    moreover have "fill_loop (pfd # fds) n active p = fill_loop fds (n - 1) (active @ [c]) ?p"
      using c True cnt(3) by (simp add: ready_def)
    ultimately show ?thesis
      using p' True by (intro exI [of _ p']) (auto simp: cof)
  qed
qed

text \<open>What poll(2) documents: one revents per entry, none negative, zero for a negative descriptor, and the count of the others.\<close>

definition poll_result_ok :: "pollfd list \<Rightarrow> int \<times> 16 word list \<Rightarrow> bool" where
  "poll_result_ok fds r \<longleftrightarrow>
     length (snd r) = length fds \<and> (\<forall>x \<in> set (snd r). 0 \<le> sint x)
     \<and> (\<forall>i < length fds. pfd_fd (fds ! i) < 0 \<longrightarrow> snd r ! i = 0)
     \<and> fst r = int (length (filter (\<lambda>x. 0 < sint x) (snd r)))"

lemma pollfd_keys_inj:
  assumes "poller_inv p" "i < length (pollfds p)" "j < length (pollfds p)"
    "pfd_key (pollfds p ! i) = pfd_key (pollfds p ! j)"
  shows "i = j"
proof -
  obtain c d where "map_of (channels p) (pfd_key (pollfds p ! i)) = Some c" "ch_index (chan p c) = int i"
    "map_of (channels p) (pfd_key (pollfds p ! j)) = Some d" "ch_index (chan p d) = int j"
    using poller_inv_entry [OF assms(1,2)] poller_inv_entry [OF assms(1,3)] by metis
  then show ?thesis using assms(4) by simp
qed

lemma poll_ready:
  fixes p :: poller
  assumes inv: "poller_inv p" and k: "poll_result_ok (pollfds p) (poll_k (pollfds p) t)"
  defines "fds \<equiv> map (\<lambda>(pfd, r). pfd\<lparr>pfd_revents := r\<rparr>) (zip (pollfds p) (snd (poll_k (pollfds p) t)))"
  shows "\<exists>p'. poller_poll poll_k tv t [] p = Inr (ts_now tv, map (chan_of p) (filter ready fds), p')
    \<and> poller_inv p' \<and> channels p' = channels p
    \<and> (\<forall>pfd \<in> set (filter ready fds). ch_revents (chan p' (chan_of p pfd)) = scast (pfd_revents pfd))
    \<and> (\<forall>c. c \<notin> chan_of p ` set (filter ready fds) \<longrightarrow> chan p' c = chan p c)
    \<and> distinct (map (chan_of p) (filter ready fds))"
proof -
  obtain n revs where r: "poll_k (pollfds p) t = (n, revs)" by force
  have len: "length revs = length (pollfds p)" and n: "n = int (length (filter (\<lambda>x. 0 < sint x) revs))"
    and neg: "\<And>i. i < length (pollfds p) \<Longrightarrow> pfd_fd (pollfds p ! i) < 0 \<Longrightarrow> revs ! i = 0"
    using k by (auto simp: poll_result_ok_def r)
  let ?p = "p\<lparr>pollfds := fds\<rparr>"
  have lenf: "length fds = length (pollfds p)" by (simp add: fds_def r len)
  have nth: "pfd_fd (fds ! i) = pfd_fd (pollfds p ! i)" "pfd_revents (fds ! i) = revs ! i"
    if "i < length (pollfds p)" for i
    using that by (simp_all add: fds_def r len)
  have keys: "pfd_key (fds ! i) = pfd_key (pollfds p ! i)" if "i < length (pollfds p)" for i
    using nth(1) [OF that] by (simp add: pfd_key_def)
  have inv': "poller_inv ?p"
    using inv by (simp add: poller_inv_def lenf keys)
  have revs: "map pfd_revents fds = revs" by (intro nth_equalityI) (simp_all add: lenf len nth)
  have "int (length (filter ready fds)) = n"
    unfolding n revs [symmetric] by (simp add: filter_map comp_def ready_def [abs_def])
  moreover have pos: "0 \<le> pfd_fd pfd" if "pfd \<in> set fds" "ready pfd" for pfd
    using that neg nth lenf by (auto simp: in_set_conv_nth ready_def) (metis not_less order_less_irrefl sint_0)
  have tab: "\<exists>c. map_of (channels ?p) (pfd_fd pfd) = Some c \<and> ch_fd (chan ?p c) = pfd_fd pfd"
    if a: "pfd \<in> set fds" "ready pfd" for pfd
  proof -
    obtain i where i: "i < length fds" "pfd = fds ! i" using a(1) by (auto simp: in_set_conv_nth)
    have "pfd_key pfd = pfd_fd pfd" using pos [OF a] by (simp add: pfd_key_def)
    with poller_inv_entry [OF inv', of i] i show ?thesis
      using poller_invD(2) [OF inv'] by fastforce
  qed
  moreover have dist: "distinct (map pfd_fd (filter ready fds))"
  proof -
    have "distinct fds" using pollfd_keys_inj [OF inv'] by (auto simp: distinct_conv_nth)
    moreover have "inj_on pfd_fd (set (filter ready fds))"
      using pollfd_keys_inj [OF inv'] by (auto simp: inj_on_def in_set_conv_nth pfd_key_def) (metis)
    ultimately show ?thesis by (simp add: distinct_map)
  qed
  ultimately obtain p' where p': "fill_loop fds n [] ?p = Inr ([] @ map (chan_of ?p) (filter ready fds), p')"
    "pollfds p' = fds" "channels p' = channels p"
    "\<forall>c. ch_fd (chan p' c) = ch_fd (chan p c) \<and> ch_index (chan p' c) = ch_index (chan p c)
         \<and> ch_events (chan p' c) = ch_events (chan p c)"
    "\<forall>pfd \<in> set (filter ready fds). ch_revents (chan p' (chan_of ?p pfd)) = scast (pfd_revents pfd)"
    "\<forall>c. c \<notin> chan_of ?p ` set (filter ready fds) \<longrightarrow> chan p' c = chan p c"
    using fill_loop_spec [of fds ?p n "[]"] by auto
  have cof: "chan_of ?p = chan_of p" by (simp add: chan_of_def fun_eq_iff)
  have "poller_inv p'" using inv' p'(2-4) by (simp add: poller_inv_def)
  moreover have "poller_poll poll_k tv t [] p = Inr (ts_now tv, map (chan_of p) (filter ready fds), p')"
  proof (cases "0 < n")
    case True
    with p'(1) show ?thesis by (simp add: poller_poll_def r fds_def fillActiveChannels_def Let_def chan_of_def [abs_def])
  next
    case False
    then have none: "filter ready fds = []"
      using \<open>int (length (filter ready fds)) = n\<close> by (cases "filter ready fds") simp_all
    then have "chan p' = chan p" using p'(6) by (simp add: fun_eq_iff)
    then have "p' = ?p" using p'(2,3) by simp
    with False none show ?thesis by (simp add: poller_poll_def r fds_def Let_def)
  qed
  moreover have "distinct (map (chan_of p) (filter ready fds))"
  proof -
    have "pfd_fd x = ch_fd (chan p (chan_of p x))" if "x \<in> set fds" "ready x" for x
      using tab [OF that] by (auto simp: chan_of_def)
    then have "inj_on (chan_of p) (set (filter ready fds))"
      using dist by (auto simp: distinct_map inj_on_def)
    with dist show ?thesis by (simp add: distinct_map)
  qed
  ultimately show ?thesis using p' unfolding cof by blast
qed

text \<open>After poll(2) the active list holds exactly the channels whose entry is ready, in the order of the array, each with the
  events the kernel reported; no assert fails, the other channels and the two tables are unchanged.\<close>

theorem poll_reports_ready:
  fixes p :: poller
  assumes inv: "poller_inv p" and k: "poll_result_ok (pollfds p) (poll_k (pollfds p) t)"
  defines "fds \<equiv> map (\<lambda>(pfd, r). pfd\<lparr>pfd_revents := r\<rparr>) (zip (pollfds p) (snd (poll_k (pollfds p) t)))"
  shows "\<exists>p'. poller_poll poll_k tv t [] p = Inr (ts_now tv, map (chan_of p) (filter ready fds), p')
    \<and> poller_inv p' \<and> channels p' = channels p
    \<and> (\<forall>pfd \<in> set (filter ready fds). ch_revents (chan p' (chan_of p pfd)) = scast (pfd_revents pfd))
    \<and> (\<forall>c. c \<notin> chan_of p ` set (filter ready fds) \<longrightarrow> chan p' c = chan p c)"
  using poll_ready [where poll_k = poll_k and t = t and p = p and tv = tv, OF inv k] unfolding fds_def by blast

text \<open>A poller that knows one channel, on descriptor 3, interested in reading.\<close>

definition one_channel :: poller where
  "one_channel =
     chan_update 3 (set_index 0) (chan_update 3 (\<lambda>ch. ch\<lparr>ch_events := 3\<rparr>) (new_poller (\<lambda>c. new_channel (int c))))
      \<lparr>pollfds := [\<lparr>pfd_fd = 3, pfd_events = 3, pfd_revents = 0\<rparr>], channels := [(3, 3)]\<rparr>"

lemma one_channel:
  "enableReading 3 (new_poller (\<lambda>c. new_channel (int c))) = Inr one_channel" "poller_inv one_channel"
  "pollfds one_channel = [\<lparr>pfd_fd = 3, pfd_events = 3, pfd_revents = 0\<rparr>]" "channels one_channel = [(3, 3)]"
proof -
  let ?none = "new_poller (\<lambda>c. new_channel (int c))"
  have "usable ?none 3" by (simp add: usable_def new_poller_def new_channel_def)
  moreover show e: "enableReading 3 ?none = Inr one_channel"
    by (simp add: enableReading_def updateChannel_def Let_def new_poller_def new_channel_def chan_update_def
        set_bits_of_def kReadEvent_def poll_consts set_index_def fun_eq_iff one_channel_def)
  ultimately show "poller_inv one_channel"
    using interest_usable [OF new_poller_inv] by (metis interest_ops(1) Inr_inject)
qed (simp_all add: one_channel_def)

theorem poll_reports_ready_witness:
  "\<exists>p p'. enableReading 3 (new_poller (\<lambda>c. new_channel (int c))) = Inr p
     \<and> poller_poll (\<lambda>fds t. (1, [1])) (5, 0) 10000 [] p = Inr (Timestamp 5000000, [3], p')
     \<and> ch_revents (chan p' 3) = 1"
  using poll_reports_ready [OF one_channel(2), of "\<lambda>fds t. (1, [1])" 10000 "(5, 0)"] one_channel(1)
  by (auto simp: poll_result_ok_def ready_def chan_of_def ts_now_def kMicroSecondsPerSecond_def one_channel(3,4))

end
