(* ===== verification/TcpConnection.thy ===== *)
theory TcpConnection
  imports HttpContext Poller
begin

text \<open>
  net/TcpConnection.h and net/TcpConnection.cc: one connection, in its loop's thread. The kernel's
  answers (write, readv) are arguments. What the connection asks of its loop is recorded in order:
  the functors it queues, the delayed calls it schedules, and the calls of the close callback (which
  is the last statement of handleClose, so that the owner of the connection acts on it next). The
  bytes the kernel has taken and the call of shutdown(2) are recorded too.
\<close>

section \<open>State\<close>

datatype conn_state = kConnecting | kConnected | kDisconnecting | kDisconnected

datatype conn_functor = Write_complete | Force_close_in_loop | Connect_destroyed

record tcp_conn =
  tc_state :: conn_state
  tc_channel :: channel
  tc_registered :: bool
  tc_in :: buffer
  tc_out :: buffer
  tc_context :: http_context
  tc_hasWriteComplete :: bool
  tc_functors :: "conn_functor list"
  tc_timers :: "rat list"
  tc_closeCalls :: nat
  tc_connectionCalls :: "bool list"
  tc_wire :: "char list"
  tc_shutdownWrite :: bool

definition new_tcp_conn :: "int \<Rightarrow> bool \<Rightarrow> tcp_conn" where
  "new_tcp_conn sockfd wcc =
     \<lparr>tc_state = kConnecting, tc_channel = new_channel sockfd, tc_registered = False,
      tc_in = new_buffer kInitialSize, tc_out = new_buffer kInitialSize, tc_context = new_context,
      tc_hasWriteComplete = wcc, tc_functors = [], tc_timers = [], tc_closeCalls = 0,
      tc_connectionCalls = [], tc_wire = [], tc_shutdownWrite = False\<rparr>"

definition connected :: "tcp_conn \<Rightarrow> bool" where
  "connected c \<longleftrightarrow> tc_state c = kConnected"

definition setContext :: "http_context \<Rightarrow> tcp_conn \<Rightarrow> tcp_conn" where
  "setContext ctx c = c\<lparr>tc_context := ctx\<rparr>"

definition setState :: "conn_state \<Rightarrow> tcp_conn \<Rightarrow> tcp_conn" where
  "setState s c = c\<lparr>tc_state := s\<rparr>"

definition queue_functor :: "conn_functor \<Rightarrow> tcp_conn \<Rightarrow> tcp_conn" where
  "queue_functor f c = c\<lparr>tc_functors := tc_functors c @ [f]\<rparr>"

definition set_events :: "(32 word \<Rightarrow> 32 word) \<Rightarrow> tcp_conn \<Rightarrow> tcp_conn" where
  "set_events f c = c\<lparr>tc_channel := (tc_channel c)\<lparr>ch_events := f (ch_events (tc_channel c))\<rparr>, tc_registered := True\<rparr>"

section \<open>Sending\<close>

text \<open>The outcome of write(2): how many bytes it took, or an errno.\<close>

datatype write_result = Write_ok nat | Write_err int

definition EWOULDBLOCK :: int where "EWOULDBLOCK = 11"
definition EPIPE :: int where "EPIPE = 32"
definition ECONNRESET :: int where "ECONNRESET = 104"

definition write_ok :: "(char list \<Rightarrow> write_result) \<Rightarrow> bool" where
  "write_ok write_k \<longleftrightarrow> (\<forall>data n. write_k data = Write_ok n \<longrightarrow> n \<le> length data)"

text \<open>The direct write of sendInLoop: \<open>nwrote\<close>, \<open>faultError\<close> and the connection after it.\<close>

definition try_write :: "(char list \<Rightarrow> write_result) \<Rightarrow> char list \<Rightarrow> tcp_conn \<Rightarrow> nat \<times> bool \<times> tcp_conn" where
  "try_write write_k data c =
     (if \<not> isWriting (tc_channel c) \<and> readableBytes (tc_out c) = 0 then
        (case write_k data of
           Write_ok n \<Rightarrow>
             (let c = c\<lparr>tc_wire := tc_wire c @ take n data\<rparr>
              in (n, False,
                  if length data - n = 0 \<and> tc_hasWriteComplete c then queue_functor Write_complete c else c))
         | Write_err e \<Rightarrow> (0, e \<noteq> EWOULDBLOCK \<and> (e = EPIPE \<or> e = ECONNRESET), c))
      else (0, False, c))"

definition sendInLoop :: "(char list \<Rightarrow> write_result) \<Rightarrow> char list \<Rightarrow> tcp_conn \<Rightarrow> tcp_conn res" where
  "sendInLoop write_k data c =
     (if tc_state c = kDisconnected then Inr c
      else let (nwrote, faultError, c) = try_write write_k data c;
               remaining = length data - nwrote
           in assert_c (remaining \<le> length data)
               (if \<not> faultError \<and> 0 < remaining then
                  rbind (buf_append (drop nwrote data) (tc_out c)) (\<lambda>out.
                    let c = c\<lparr>tc_out := out\<rparr>
                    in Inr (if \<not> isWriting (tc_channel c) then set_events (set_bits_of kWriteEvent) c else c))
                else Inr c))"

text \<open>The two send of the header in the loop's thread; sending a Buffer takes its bytes out.\<close>

definition send :: "(char list \<Rightarrow> write_result) \<Rightarrow> char list \<Rightarrow> tcp_conn \<Rightarrow> tcp_conn res" where
  "send write_k message c = (if tc_state c = kConnected then sendInLoop write_k message c else Inr c)"

definition send_buffer :: "(char list \<Rightarrow> write_result) \<Rightarrow> buffer \<Rightarrow> tcp_conn \<Rightarrow> (buffer \<times> tcp_conn) res" where
  "send_buffer write_k buf c =
     (if tc_state c = kConnected
      then rbind (sendInLoop write_k (contents buf) c) (\<lambda>c. Inr (retrieveAll buf, c))
      else Inr (buf, c))"

section \<open>Closing\<close>

definition shutdownInLoop :: "tcp_conn \<Rightarrow> tcp_conn" where
  "shutdownInLoop c = (if \<not> isWriting (tc_channel c) then c\<lparr>tc_shutdownWrite := True\<rparr> else c)"

definition shutdown :: "tcp_conn \<Rightarrow> tcp_conn" where
  "shutdown c = (if tc_state c = kConnected then shutdownInLoop (setState kDisconnecting c) else c)"

definition handleClose :: "tcp_conn \<Rightarrow> tcp_conn res" where
  "handleClose c =
     assert_c (tc_state c = kConnected \<or> tc_state c = kDisconnecting)
      (let c = set_events (\<lambda>_. kNoneEvent) c
       in Inr (c\<lparr>tc_closeCalls := tc_closeCalls c + 1\<rparr>))"

definition forceClose :: "tcp_conn \<Rightarrow> tcp_conn" where
  "forceClose c =
     (if tc_state c = kConnected \<or> tc_state c = kDisconnecting
      then queue_functor Force_close_in_loop (setState kDisconnecting c) else c)"

definition forceCloseWithDelay :: "rat \<Rightarrow> tcp_conn \<Rightarrow> tcp_conn" where
  "forceCloseWithDelay seconds c =
     (if tc_state c = kConnected \<or> tc_state c = kDisconnecting
      then (setState kDisconnecting c)\<lparr>tc_timers := tc_timers c @ [seconds]\<rparr> else c)"

definition forceCloseInLoop :: "tcp_conn \<Rightarrow> tcp_conn res" where
  "forceCloseInLoop c =
     (if tc_state c = kConnected \<or> tc_state c = kDisconnecting then handleClose c else Inr c)"

section \<open>Life of the connection\<close>

text \<open>The connection callback is an argument; it may change the connection (its context, for one).\<close>

definition connectEstablished :: "(tcp_conn \<Rightarrow> tcp_conn res) \<Rightarrow> tcp_conn \<Rightarrow> tcp_conn res" where
  "connectEstablished connectionCallback c =
     assert_c (tc_state c = kConnecting)
      (let c = set_events (set_bits_of kReadEvent) (setState kConnected c)
       in connectionCallback (c\<lparr>tc_connectionCalls := tc_connectionCalls c @ [True]\<rparr>))"

definition connectDestroyed :: "(tcp_conn \<Rightarrow> tcp_conn res) \<Rightarrow> tcp_conn \<Rightarrow> tcp_conn res" where
  "connectDestroyed connectionCallback c =
     assert_c (tc_state c = kConnected \<or> tc_state c = kDisconnecting)
      (let c = set_events (\<lambda>_. kNoneEvent) (setState kDisconnected c)
       in rbind (connectionCallback (c\<lparr>tc_connectionCalls := tc_connectionCalls c @ [False]\<rparr>))
           (\<lambda>c. Inr (c\<lparr>tc_registered := False\<rparr>)))"

definition handleRead ::
  "(nat list \<Rightarrow> readv_result) \<Rightarrow> (timestamp \<Rightarrow> tcp_conn \<Rightarrow> tcp_conn res) \<Rightarrow> timestamp \<Rightarrow> tcp_conn \<Rightarrow> tcp_conn res" where
  "handleRead readv_k messageCallback receiveTime c =
     rbind (readFd readv_k (tc_in c)) (\<lambda>(n, savedErrno, inb).
       let c = c\<lparr>tc_in := inb\<rparr>
       in if 0 < n then messageCallback receiveTime c
          else if n = 0 then handleClose c
          else Inr c)"

definition handleWrite :: "(char list \<Rightarrow> write_result) \<Rightarrow> tcp_conn \<Rightarrow> tcp_conn res" where
  "handleWrite write_k c =
     (if isWriting (tc_channel c) then
        (case write_k (contents (tc_out c)) of
           Write_err e \<Rightarrow> Inr c
         | Write_ok n \<Rightarrow>
             if 0 < n then
               (let c = c\<lparr>tc_wire := tc_wire c @ take n (contents (tc_out c))\<rparr>
                in rbind (retrieve n (tc_out c)) (\<lambda>out.
                     let c = c\<lparr>tc_out := out\<rparr>
                     in if readableBytes (tc_out c) = 0 then
                          (let c = set_events (clear_bits_of kWriteEvent) c;
                               c = (if tc_hasWriteComplete c then queue_functor Write_complete c else c)
                           in Inr (if tc_state c = kDisconnecting then shutdownInLoop c else c))
                        else Inr c))
             else Inr c)
      else Inr c)"

section \<open>Flags\<close>

unbundle bit_operations_syntax

lemma writing_flag [simp]:
  "has (set_bits_of kWriteEvent e) kWriteEvent" "\<not> has (clear_bits_of kWriteEvent e) kWriteEvent"
  "has (set_bits_of kReadEvent e) kWriteEvent \<longleftrightarrow> has e kWriteEvent" "\<not> has kNoneEvent kWriteEvent"
  by (simp_all add: has_def set_bits_of_def clear_bits_of_def kWriteEvent_def kReadEvent_def kNoneEvent_def poll_consts
      bit.conj_disj_distrib2 and.assoc)

section \<open>The output as a stream\<close>

datatype conn_op =
    Op_send "char list \<Rightarrow> write_result" "char list"
  | Op_writable "char list \<Rightarrow> write_result"
  | Op_shutdown
  | Op_forceClose
  | Op_forceCloseWithDelay rat

fun do_conn_op :: "conn_op \<Rightarrow> tcp_conn \<Rightarrow> tcp_conn res" where
  "do_conn_op (Op_send w m) c = send w m c"
| "do_conn_op (Op_writable w) c = handleWrite w c"
| "do_conn_op Op_shutdown c = Inr (shutdown c)"
| "do_conn_op Op_forceClose c = Inr (forceClose c)"
| "do_conn_op (Op_forceCloseWithDelay s) c = Inr (forceCloseWithDelay s c)"

fun conn_run :: "conn_op list \<Rightarrow> tcp_conn \<Rightarrow> tcp_conn res" where
  "conn_run [] c = Inr c"
| "conn_run (x # xs) c = rbind (do_conn_op x c) (conn_run xs)"

fun kernel_ok :: "conn_op \<Rightarrow> bool" where
  "kernel_ok (Op_send w m) = write_ok w"
| "kernel_ok (Op_writable w) = write_ok w"
| "kernel_ok _ = True"

text \<open>
  The messages a connection takes: those sent while it is connected, except one whose direct write the
  kernel refused with EPIPE or ECONNRESET, which is dropped.
\<close>

fun taken :: "conn_op \<Rightarrow> tcp_conn \<Rightarrow> char list" where
  "taken (Op_send w m) c = (if tc_state c = kConnected \<and> \<not> fst (snd (try_write w m c)) then m else [])"
| "taken _ c = []"

fun all_taken :: "conn_op list \<Rightarrow> tcp_conn \<Rightarrow> char list" where
  "all_taken [] c = []"
| "all_taken (x # xs) c = taken x c @ (case do_conn_op x c of Inr c \<Rightarrow> all_taken xs c | Inl _ \<Rightarrow> [])"

text \<open>
  While the connection is up the channel asks for write events exactly when there is something left to
  write, and the write side is shut only when nothing is left and nothing more is taken.
\<close>

definition conn_inv :: "tcp_conn \<Rightarrow> bool" where
  "conn_inv c \<longleftrightarrow>
     buffer_inv (tc_in c) \<and> buffer_inv (tc_out c)
     \<and> (isWriting (tc_channel c) \<longleftrightarrow> contents (tc_out c) \<noteq> [])
     \<and> (tc_shutdownWrite c \<longrightarrow> contents (tc_out c) = [] \<and> tc_state c \<noteq> kConnected)"

lemma readable_zero: "buffer_inv b \<Longrightarrow> readableBytes b = 0 \<longleftrightarrow> contents b = []"
  by (simp add: readable_is_length)

lemma set_events_simps [simp]:
  "tc_state (set_events f c) = tc_state c" "tc_in (set_events f c) = tc_in c" "tc_out (set_events f c) = tc_out c"
  "tc_wire (set_events f c) = tc_wire c" "tc_shutdownWrite (set_events f c) = tc_shutdownWrite c"
  "tc_hasWriteComplete (set_events f c) = tc_hasWriteComplete c" "tc_closeCalls (set_events f c) = tc_closeCalls c"
  "tc_functors (set_events f c) = tc_functors c" "tc_context (set_events f c) = tc_context c"
  "ch_events (tc_channel (set_events f c)) = f (ch_events (tc_channel c))"
  by (simp_all add: set_events_def)

lemma queue_functor_simps [simp]:
  "tc_state (queue_functor g c) = tc_state c" "tc_in (queue_functor g c) = tc_in c" "tc_out (queue_functor g c) = tc_out c"
  "tc_wire (queue_functor g c) = tc_wire c" "tc_shutdownWrite (queue_functor g c) = tc_shutdownWrite c"
  "tc_channel (queue_functor g c) = tc_channel c" "tc_closeCalls (queue_functor g c) = tc_closeCalls c"
  "tc_hasWriteComplete (queue_functor g c) = tc_hasWriteComplete c" "tc_context (queue_functor g c) = tc_context c"
  by (simp_all add: queue_functor_def)

definition stream :: "tcp_conn \<Rightarrow> char list" where
  "stream c = tc_wire c @ contents (tc_out c)"

lemma send_stream:
  assumes inv: "conn_inv c" and k: "write_ok w"
  shows "\<exists>c'. send w m c = Inr c' \<and> conn_inv c' \<and> stream c' = stream c @ taken (Op_send w m) c \<and> tc_state c' = tc_state c"
proof (cases "tc_state c = kConnected")
  case False
  then show ?thesis using inv by (simp add: send_def)
next
  case up: True
  have out: "buffer_inv (tc_out c)" using inv by (simp add: conn_inv_def)
  have notshut: "\<not> tc_shutdownWrite c" using inv up by (auto simp: conn_inv_def)
  show ?thesis
  proof (cases "isWriting (tc_channel c)")
    case True
    then have tw: "try_write w m c = (0, False, c)" by (simp add: try_write_def)
    show ?thesis
    proof (cases "m = []")
      case True
      then show ?thesis using up inv tw by (simp add: send_def sendInLoop_def)
    next
      case False
      let ?c = "c\<lparr>tc_out := appended m (tc_out c)\<rparr>"
      have "send w m c = Inr ?c"
        using up tw False out True by (simp add: send_def sendInLoop_def buf_append_Inr)
      moreover have "conn_inv ?c" using inv True notshut False out by (auto simp: conn_inv_def)
      ultimately show ?thesis using up tw out by (simp add: stream_def)
    qed
  next
    case idle: False
    then have empty: "contents (tc_out c) = []" using inv by (simp add: conn_inv_def)
    then have z: "readableBytes (tc_out c) = 0" using out by (simp add: readable_zero)
    show ?thesis
    proof (cases "w m")
      case (Write_ok n)
      then have n: "n \<le> length m" using k by (auto simp: write_ok_def)
      obtain c1 where tw: "try_write w m c = (n, False, c1)"
        and c1: "tc_out c1 = tc_out c" "tc_in c1 = tc_in c" "tc_channel c1 = tc_channel c" "tc_state c1 = tc_state c"
        "tc_wire c1 = tc_wire c @ take n m" "tc_shutdownWrite c1 = tc_shutdownWrite c"
        using Write_ok idle z by (simp add: try_write_def Let_def)
      show ?thesis
      proof (cases "n = length m")
        case True
        then have "send w m c = Inr c1" using up tw by (simp add: send_def sendInLoop_def)
        then show ?thesis
          using inv c1 True up tw by (simp add: conn_inv_def stream_def empty)
      next
        case False
        let ?c2 = "set_events (set_bits_of kWriteEvent) (c1\<lparr>tc_out := appended (drop n m) (tc_out c)\<rparr>)"
        have "send w m c = Inr ?c2"
          using up tw c1 False n out idle by (simp add: send_def sendInLoop_def buf_append_Inr Let_def)
        moreover have "conn_inv ?c2"
          using inv c1 out False n notshut by (auto simp: conn_inv_def isWriting_def)
        ultimately show ?thesis using c1 out up tw by (simp add: stream_def empty)
      qed
    next
      case (Write_err e)
      let ?f = "e \<noteq> EWOULDBLOCK \<and> (e = EPIPE \<or> e = ECONNRESET)"
      have tw: "try_write w m c = (0, ?f, c)" using Write_err idle z by (simp add: try_write_def)
      show ?thesis
      proof (cases "?f \<or> m = []")
        case True
        then have "send w m c = Inr c" using up tw by (auto simp: send_def sendInLoop_def)
        then show ?thesis using inv up tw True by auto
      next
        case False
        let ?c2 = "set_events (set_bits_of kWriteEvent) (c\<lparr>tc_out := appended m (tc_out c)\<rparr>)"
        have "send w m c = Inr ?c2"
          using up tw False out idle by (simp add: send_def sendInLoop_def buf_append_Inr Let_def)
        moreover have "conn_inv ?c2"
          using inv out False notshut by (auto simp: conn_inv_def isWriting_def)
        ultimately show ?thesis using out up tw False by (auto simp: stream_def)
      qed
    qed
  qed
qed

lemma handleWrite_spec:
  assumes inv: "conn_inv c" and k: "write_ok w"
  shows "\<exists>c'. handleWrite w c = Inr c' \<and> conn_inv c' \<and> stream c' = stream c \<and> tc_state c' = tc_state c
    \<and> (\<forall>n. w (contents (tc_out c)) = Write_ok n \<longrightarrow> contents (tc_out c') = drop n (contents (tc_out c)))
    \<and> (tc_state c = kDisconnecting \<and> contents (tc_out c) \<noteq> [] \<and> contents (tc_out c') = [] \<longrightarrow> tc_shutdownWrite c')"
proof (cases "isWriting (tc_channel c)")
  case False
  then show ?thesis using inv by (simp add: handleWrite_def conn_inv_def)
next
  case True
  have out: "buffer_inv (tc_out c)" using inv by (simp add: conn_inv_def)
  have ne: "contents (tc_out c) \<noteq> []" using inv True by (simp add: conn_inv_def)
  then have notshut: "\<not> tc_shutdownWrite c" using inv by (auto simp: conn_inv_def)
  show ?thesis
  proof (cases "w (contents (tc_out c))")
    case (Write_err e)
    then show ?thesis using inv ne by (simp add: handleWrite_def)
  next
    case (Write_ok n)
    then have n: "n \<le> length (contents (tc_out c))" using k by (auto simp: write_ok_def)
    show ?thesis
    proof (cases "n = 0")
      case True
      then show ?thesis using inv ne Write_ok by (simp add: handleWrite_def)
    next
      case pos: False
      let ?c1 = "c\<lparr>tc_wire := tc_wire c @ take n (contents (tc_out c)), tc_out := retrieved n (tc_out c)\<rparr>"
      have c1: "buffer_inv (tc_out ?c1)" "contents (tc_out ?c1) = drop n (contents (tc_out c))"
        using out n by simp_all
      show ?thesis
      proof (cases "n = length (contents (tc_out c))")
        case False
        then have "handleWrite w c = Inr ?c1"
          using True Write_ok pos n out c1 by (simp add: handleWrite_def retrieve_Inr readable_zero)
        moreover have "conn_inv ?c1" using inv c1 n False True notshut by (auto simp: conn_inv_def)
        ultimately show ?thesis using c1 Write_ok False n by (auto simp: stream_def)
      next
        case all: True
        let ?c2 = "set_events (clear_bits_of kWriteEvent) ?c1"
        let ?c3 = "if tc_hasWriteComplete c then queue_functor Write_complete ?c2 else ?c2"
        let ?c4 = "if tc_state c = kDisconnecting then shutdownInLoop ?c3 else ?c3"
        have z: "readableBytes (retrieved n (tc_out c)) = 0" using c1 all by (simp add: readable_zero)
        have run: "handleWrite w c = Inr ?c4"
          using True Write_ok pos n out z by (simp add: handleWrite_def retrieve_Inr Let_def)
        have w4: "\<not> isWriting (tc_channel ?c3)" by (simp add: isWriting_def)
        have f: "tc_out ?c4 = tc_out ?c1" "tc_in ?c4 = tc_in c" "tc_state ?c4 = tc_state c" "tc_wire ?c4 = tc_wire ?c1"
          "tc_shutdownWrite ?c4 = (tc_state c = kDisconnecting \<or> tc_shutdownWrite c)" "\<not> isWriting (tc_channel ?c4)"
          using w4 by (simp_all add: shutdownInLoop_def)
        have "conn_inv ?c4" using inv f c1 all notshut by (auto simp: conn_inv_def)
        then show ?thesis using run f c1 all Write_ok by (auto simp: stream_def)
      qed
    qed
  qed
qed

lemma conn_op_stream:
  assumes inv: "conn_inv c" and k: "kernel_ok x"
  shows "\<exists>c'. do_conn_op x c = Inr c' \<and> conn_inv c' \<and> stream c' = stream c @ taken x c"
proof (cases x)
  case (Op_send w m)
  then show ?thesis using send_stream [OF inv, of w m] k by auto
next
  case (Op_writable w)
  then show ?thesis using handleWrite_spec [OF inv, of w] k by auto
qed (use inv in \<open>auto simp: shutdown_def shutdownInLoop_def setState_def forceClose_def forceCloseWithDelay_def
      queue_functor_def conn_inv_def stream_def\<close>)

text \<open>C21: whatever is sent, however the kernel takes it and whenever the connection is shut down, the bytes that went out followed by the bytes still in
  the output buffer are exactly the messages the connection took, in order; no operation fails; the channel waits for write events
  exactly while the buffer is not empty; and the write side is shut only when everything is out.\<close>

theorem output_stream_intact:
  assumes "conn_inv c" "list_all kernel_ok xs"
  shows "\<exists>c'. conn_run xs c = Inr c' \<and> conn_inv c'
    \<and> tc_wire c' @ contents (tc_out c') = tc_wire c @ contents (tc_out c) @ all_taken xs c
    \<and> (isWriting (tc_channel c') \<longleftrightarrow> contents (tc_out c') \<noteq> [])
    \<and> (tc_shutdownWrite c' \<longrightarrow> tc_wire c' = tc_wire c @ contents (tc_out c) @ all_taken xs c)"
proof -
  have "\<exists>c'. conn_run xs c = Inr c' \<and> conn_inv c' \<and> stream c' = stream c @ all_taken xs c"
    using assms
  proof (induction xs arbitrary: c)
    case Nil
    then show ?case by simp
  next
    case (Cons x xs)
    obtain c1 where c1: "do_conn_op x c = Inr c1" "conn_inv c1" "stream c1 = stream c @ taken x c"
      using conn_op_stream [OF Cons.prems(1), of x] Cons.prems(2) by auto
    with Cons.IH [OF c1(2)] Cons.prems(2) show ?case by auto
  qed
  then obtain c' where c': "conn_run xs c = Inr c'" "conn_inv c'" "stream c' = stream c @ all_taken xs c" by blast
  show ?thesis
    using c' by (intro exI [of _ c']) (auto simp: stream_def conn_inv_def)
qed

definition established_conn :: "int \<Rightarrow> bool \<Rightarrow> tcp_conn" where
  "established_conn fd wcc = projr (connectEstablished Inr (new_tcp_conn fd wcc))"

lemma established_conn_inv: "conn_inv (established_conn fd wcc)" "tc_state (established_conn fd wcc) = kConnected"
  "contents (tc_out (established_conn fd wcc)) = []" "tc_wire (established_conn fd wcc) = []"
  "tc_functors (established_conn fd wcc) = []" "tc_closeCalls (established_conn fd wcc) = 0"
proof -
  have "\<not> has 0 kWriteEvent" by (simp add: has_def)
  then show "conn_inv (established_conn fd wcc)" "tc_state (established_conn fd wcc) = kConnected"
    "contents (tc_out (established_conn fd wcc)) = []" "tc_wire (established_conn fd wcc) = []"
    "tc_functors (established_conn fd wcc) = []" "tc_closeCalls (established_conn fd wcc) = 0"
    by (simp_all add: established_conn_def connectEstablished_def new_tcp_conn_def setState_def conn_inv_def isWriting_def new_channel_def Let_def)
qed

theorem output_stream_intact_witness:
  "\<exists>c'. conn_run [Op_send (\<lambda>d. Write_ok (min 3 (length d))) ''hello'', Op_shutdown, Op_send (\<lambda>d. Write_ok (length d)) ''late'',
        Op_writable (\<lambda>d. Write_ok (length d))] (established_conn 5 False) = Inr c'
     \<and> tc_wire c' @ contents (tc_out c') = ''hello''"
proof -
  let ?c = "established_conn 5 False"
  let ?w = "\<lambda>d. Write_ok (min 3 (length (d :: char list)))" and ?a = "\<lambda>d. Write_ok (length (d :: char list))"
  let ?xs = "[Op_send ?w ''hello'', Op_shutdown, Op_send ?a ''late'', Op_writable ?a]"
  have "list_all kernel_ok ?xs" by (simp add: write_ok_def)
  from output_stream_intact [OF established_conn_inv(1) this] obtain c' where
    c': "conn_run ?xs ?c = Inr c'" "tc_wire c' @ contents (tc_out c') = all_taken ?xs ?c"
    by (auto simp: established_conn_inv)
  obtain c1 where c1: "send ?w ''hello'' ?c = Inr c1" "tc_state c1 = kConnected"
    using send_stream [OF established_conn_inv(1) [of 5 False], where w = ?w and m = "''hello''"] established_conn_inv(2) by (auto simp: write_ok_def)
  have "\<not> fst (snd (try_write ?w ''hello'' ?c))" by (simp add: try_write_def Let_def)
  moreover have "tc_state (shutdown c1) = kDisconnecting"
    using c1(2) by (simp add: shutdown_def shutdownInLoop_def setState_def)
  ultimately have "all_taken ?xs ?c = ''hello''"
    using c1 established_conn_inv(2) by (simp add: send_def split: sum.split)
  with c' show ?thesis by auto
qed

section \<open>Closing gracefully\<close>

text \<open>A kernel that takes at least one byte whenever there is one.\<close>

definition progressing :: "(char list \<Rightarrow> write_result) \<Rightarrow> bool" where
  "progressing w \<longleftrightarrow> (\<forall>data. data \<noteq> [] \<longrightarrow> (\<exists>n. w data = Write_ok n \<and> 0 < n))"

lemma drain:
  "conn_inv c \<Longrightarrow> write_ok w \<Longrightarrow> progressing w \<Longrightarrow> tc_state c = kDisconnecting \<Longrightarrow>
    (contents (tc_out c) = [] \<longrightarrow> tc_shutdownWrite c) \<Longrightarrow> length (contents (tc_out c)) \<le> k \<Longrightarrow>
    \<exists>c'. conn_run (replicate k (Op_writable w)) c = Inr c' \<and> conn_inv c' \<and> tc_wire c' = stream c \<and> tc_shutdownWrite c'"
proof (induction k arbitrary: c)
  case 0
  then show ?case by (simp add: stream_def)
next
  case (Suc k)
  obtain c1 where c1: "handleWrite w c = Inr c1" "conn_inv c1" "stream c1 = stream c" "tc_state c1 = tc_state c"
    "\<forall>n. w (contents (tc_out c)) = Write_ok n \<longrightarrow> contents (tc_out c1) = drop n (contents (tc_out c))"
    "tc_state c = kDisconnecting \<and> contents (tc_out c) \<noteq> [] \<and> contents (tc_out c1) = [] \<longrightarrow> tc_shutdownWrite c1"
    using handleWrite_spec [OF Suc.prems(1,2)] by blast
  have "(contents (tc_out c1) = [] \<longrightarrow> tc_shutdownWrite c1) \<and> length (contents (tc_out c1)) \<le> k"
  proof (cases "contents (tc_out c) = []")
    case True
    then have "handleWrite w c = Inr c" using Suc.prems(1) by (simp add: handleWrite_def conn_inv_def)
    then show ?thesis using c1(1) Suc.prems(5) True by simp
  next
    case False
    obtain n where n: "w (contents (tc_out c)) = Write_ok n" "0 < n"
      using False Suc.prems(3) by (auto simp: progressing_def)
    then have "length (contents (tc_out c1)) \<le> k" using c1(5) Suc.prems(6) by auto
    then show ?thesis using c1(6) False Suc.prems(4) by blast
  qed
  with Suc.IH [OF c1(2) Suc.prems(2,3)] c1 Suc.prems(4) show ?case by simp
qed

text \<open>C22: shutdown on a connected connection is graceful and always completes: after as many write events as there are bytes
  left (the kernel taking at least one byte each time), every byte that was in the buffer is on the wire, and
  only then the write side is shut.\<close>

theorem shutdown_completes:
  assumes "conn_inv c" "tc_state c = kConnected" "write_ok w" "progressing w"
  shows "\<exists>c'. conn_run (Op_shutdown # replicate (length (contents (tc_out c))) (Op_writable w)) c = Inr c'
    \<and> tc_wire c' = tc_wire c @ contents (tc_out c) \<and> contents (tc_out c') = [] \<and> tc_shutdownWrite c'"
proof -
  let ?c = "shutdown c"
  have inv: "conn_inv ?c" and out: "tc_out ?c = tc_out c" "tc_wire ?c = tc_wire c" "tc_state ?c = kDisconnecting"
    and shut: "contents (tc_out c) = [] \<longrightarrow> tc_shutdownWrite ?c"
    using assms(1,2) by (auto simp: shutdown_def shutdownInLoop_def setState_def conn_inv_def)
  from drain [OF inv assms(3,4) out(3)] out shut obtain c' where
    "conn_run (replicate (length (contents (tc_out c))) (Op_writable w)) ?c = Inr c'" "conn_inv c'"
    "tc_wire c' = stream ?c" "tc_shutdownWrite c'" by auto
  then show ?thesis using out by (intro exI [of _ c']) (auto simp: stream_def conn_inv_def)
qed

theorem shutdown_completes_witness:
  "\<exists>c c'. send (\<lambda>_. Write_err EWOULDBLOCK) ''bye'' (established_conn 5 True) = Inr c
     \<and> conn_run (Op_shutdown # replicate 3 (Op_writable (\<lambda>d. Write_ok (min 1 (length d))))) c = Inr c'
     \<and> tc_wire c' = ''bye'' \<and> tc_shutdownWrite c'"
proof -
  let ?c0 = "established_conn 5 True"
  let ?w = "\<lambda>d. Write_ok (min 1 (length (d :: char list)))"
  obtain c where c: "send (\<lambda>_. Write_err EWOULDBLOCK) ''bye'' ?c0 = Inr c" "conn_inv c" "tc_state c = kConnected"
    "stream c = ''bye''"
    using send_stream [OF established_conn_inv(1) [of 5 True], where w = "\<lambda>_. Write_err EWOULDBLOCK" and m = "''bye''"]
      established_conn_inv [of 5 True] by (auto simp: write_ok_def try_write_def stream_def)
  have "\<not> isWriting (tc_channel ?c0)" "readableBytes (tc_out ?c0) = 0" "buffer_inv (tc_out ?c0)"
    using established_conn_inv(1,3) [of 5 True] by (auto simp: conn_inv_def readable_zero)
  then have "tc_wire c = []"
    using c(1) established_conn_inv(2,4) [of 5 True]
    by (auto simp: send_def sendInLoop_def try_write_def EWOULDBLOCK_def Let_def buf_append_Inr split: if_splits)
  then have out: "contents (tc_out c) = ''bye''" "tc_wire c = []" using c(4) by (simp_all add: stream_def)
  have "write_ok ?w" "progressing ?w" by (auto simp: write_ok_def progressing_def)
  note fin = shutdown_completes [OF c(2,3) this]
  have three: "length (contents (tc_out c)) = 3" using out by simp
  obtain c' where "conn_run (Op_shutdown # replicate 3 (Op_writable ?w)) c = Inr c'"
      "tc_wire c' = tc_wire c @ contents (tc_out c)" "tc_shutdownWrite c'"
    using fin unfolding three by blast
  then show ?thesis using c(1) unfolding out by (metis append_Nil)
qed

text \<open>
  handleClose calls the close callback and leaves the state alone; the state changes only when
  connectDestroyed runs. In between, a second reason to close (a queued forceCloseInLoop, a read of 0
  bytes) calls the callback again.
\<close>

lemma close_callback_twice:
  assumes "tc_state c = kConnected \<or> tc_state c = kDisconnecting"
  shows "\<exists>c1 c2. handleClose (forceClose c) = Inr c1 \<and> forceCloseInLoop c1 = Inr c2
    \<and> tc_closeCalls c2 = tc_closeCalls c + 2"
  using assms by (auto simp: handleClose_def forceClose_def forceCloseInLoop_def queue_functor_def setState_def set_events_def Let_def)

end
