(* ===== verification/HttpResponse.thy ===== *)
theory HttpResponse
  imports CText Containers NetBuffer
begin

text \<open>
  http/HttpResponse.h and http/HttpResponse.cc: the response and its serialisation. The
  specification of the serialisation is a reader: what a client of HTTP/1.1 gets back from the bytes.
  Strings are shorter than 2 GiB (StringPiece keeps their length in an int).
\<close>

section \<open>State\<close>

datatype http_status =
    kUnknownStatus
  | k200Ok
  | k301MovedPermanently
  | k400BadRequest
  | k404NotFound
  | k403Forbidden

fun status_value :: "http_status \<Rightarrow> int" where
  "status_value kUnknownStatus = 0"
| "status_value k200Ok = 200"
| "status_value k301MovedPermanently = 301"
| "status_value k400BadRequest = 400"
| "status_value k404NotFound = 404"
| "status_value k403Forbidden = 403"

record http_response =
  rs_headers :: "(char list, char list) std_map"
  rs_statusCode :: http_status
  rs_statusMessage :: "char list"
  rs_closeConnection :: bool
  rs_body :: "char list"

definition new_response :: "bool \<Rightarrow> http_response" where
  "new_response close = \<lparr>rs_headers = [], rs_statusCode = kUnknownStatus, rs_statusMessage = [],
                         rs_closeConnection = close, rs_body = []\<rparr>"

definition setStatusCode :: "http_status \<Rightarrow> http_response \<Rightarrow> http_response" where
  "setStatusCode code r = r\<lparr>rs_statusCode := code\<rparr>"

definition setStatusMessage :: "char list \<Rightarrow> http_response \<Rightarrow> http_response" where
  "setStatusMessage message r = r\<lparr>rs_statusMessage := message\<rparr>"

definition setCloseConnection :: "bool \<Rightarrow> http_response \<Rightarrow> http_response" where
  "setCloseConnection on r = r\<lparr>rs_closeConnection := on\<rparr>"

definition resp_addHeader :: "char list \<Rightarrow> char list \<Rightarrow> http_response \<Rightarrow> http_response" where
  "resp_addHeader key value r = r\<lparr>rs_headers := map_put key value (rs_headers r)\<rparr>"

definition setContentType :: "char list \<Rightarrow> http_response \<Rightarrow> http_response" where
  "setContentType contentType r = resp_addHeader ''Content-Type'' contentType r"

text \<open>\<open>body_.resize(len)\<close> and the copy of \<open>len\<close> bytes over it.\<close>

definition resp_setBody :: "char list \<Rightarrow> http_response \<Rightarrow> http_response" where
  "resp_setBody data r = r\<lparr>rs_body := overwrite (vec_resize (length data) (rs_body r)) 0 data\<rparr>"

definition resp_setBody_move :: "char list \<Rightarrow> http_response \<Rightarrow> http_response" where
  "resp_setBody_move content r = r\<lparr>rs_body := content\<rparr>"

lemma resp_setBody_eq: "resp_setBody data r = r\<lparr>rs_body := data\<rparr>"
  by (simp add: resp_setBody_def overwrite_def vec_resize_def)

section \<open>Serialisation\<close>

text \<open>The loop over the header table.\<close>

fun append_headers :: "(char list \<times> char list) list \<Rightarrow> buffer \<Rightarrow> buffer res" where
  "append_headers [] out = Inr out"
| "append_headers ((k, v) # hs) out =
     rbind (buf_append k out) (\<lambda>out.
       rbind (buf_append '': '' out) (\<lambda>out.
         rbind (buf_append v out) (\<lambda>out.
           rbind (buf_append kCRLF out) (append_headers hs))))"

definition appendToBuffer :: "http_response \<Rightarrow> buffer \<Rightarrow> buffer res" where
  "appendToBuffer r out =
     rbind (buf_append (snprintf 32 (''HTTP/1.1 '' @ dec_int (status_value (rs_statusCode r)) @ '' '')) out) (\<lambda>out.
       rbind (buf_append (rs_statusMessage r) out) (\<lambda>out.
         rbind (buf_append kCRLF out) (\<lambda>out.
           rbind (if rs_closeConnection r
                  then buf_append (''Connection: close'' @ kCRLF) out
                  else rbind (buf_append (snprintf 32 (''Content-Length: '' @ dec_nat (length (rs_body r)) @ kCRLF)) out)
                         (buf_append (''Connection: Keep-Alive'' @ kCRLF))) (\<lambda>out.
             rbind (append_headers (rs_headers r) out) (\<lambda>out.
               rbind (buf_append kCRLF out) (buf_append (rs_body r)))))))"

section \<open>The text on the wire\<close>

lemma append_headers_spec:
  "buffer_inv b \<Longrightarrow> \<exists>b'. append_headers hs b = Inr b' \<and> buffer_inv b' \<and> contents b' = contents b @ header_lines hs"
proof (induction hs arbitrary: b)
  case Nil
  then show ?case by (simp add: header_lines_def)
next
  case (Cons h hs)
  obtain k v where h: "h = (k, v)" by (cases h)
  let ?b = "appended kCRLF (appended v (appended '': '' (appended k b)))"
  have inv: "buffer_inv ?b" using Cons.prems by simp
  have step: "append_headers (h # hs) b = append_headers hs ?b"
    using Cons.prems by (simp add: h buf_append_Inr)
  have wire: "contents ?b @ header_lines hs = contents b @ header_lines (h # hs)"
    using Cons.prems by (simp add: h header_lines_def)
  show ?case using Cons.IH [OF inv] unfolding step wire .
qed

definition framing_headers :: "http_response \<Rightarrow> (char list \<times> char list) list" where
  "framing_headers r =
     (if rs_closeConnection r then [(''Connection'', ''close'')]
      else [(''Content-Length'', dec_nat (length (rs_body r))), (''Connection'', ''Keep-Alive'')])"

definition response_text :: "http_response \<Rightarrow> char list" where
  "response_text r =
     (''HTTP/1.1 '' @ dec_int (status_value (rs_statusCode r)) @ '' '' @ rs_statusMessage r) @ kCRLF
     @ header_lines (framing_headers r @ rs_headers r) @ kCRLF @ rs_body r"

lemma length_dec_int_status: "length (dec_int (status_value s)) \<le> 3"
  by (cases s) (auto simp: dec_int_def intro!: length_dec_nat)

lemma length_dec_nat_31: "n < 2 ^ 31 \<Longrightarrow> length (dec_nat n) \<le> 10"
  by (rule length_dec_nat) simp_all

lemma appendToBuffer_text:
  assumes "buffer_inv b" "length (rs_body r) < 2 ^ 31"
  shows "\<exists>b'. appendToBuffer r b = Inr b' \<and> buffer_inv b' \<and> contents b' = contents b @ response_text r"
proof -
  have s1: "snprintf 32 (''HTTP/1.1 '' @ dec_int (status_value (rs_statusCode r)) @ '' '')
      = ''HTTP/1.1 '' @ dec_int (status_value (rs_statusCode r)) @ '' ''"
    using length_dec_int_status [of "rs_statusCode r"] by (intro snprintf_fits) simp
  have s2: "snprintf 32 (''Content-Length: '' @ dec_nat (length (rs_body r)) @ kCRLF)
      = ''Content-Length: '' @ dec_nat (length (rs_body r)) @ kCRLF"
    using length_dec_nat_31 [OF assms(2)] by (intro snprintf_fits) (simp add: kCRLF_def)
  let ?b1 = "appended kCRLF (appended (rs_statusMessage r)
      (appended (''HTTP/1.1 '' @ dec_int (status_value (rs_statusCode r)) @ '' '') b))"
  let ?b2 = "if rs_closeConnection r then appended (''Connection: close'' @ kCRLF) ?b1
      else appended (''Connection: Keep-Alive'' @ kCRLF)
             (appended (''Content-Length: '' @ dec_nat (length (rs_body r)) @ kCRLF) ?b1)"
  have inv2: "buffer_inv ?b2" using assms by simp
  obtain b3 where b3: "append_headers (rs_headers r) ?b2 = Inr b3" "buffer_inv b3"
    "contents b3 = contents ?b2 @ header_lines (rs_headers r)"
    using append_headers_spec [OF inv2] by blast
  have "appendToBuffer r b = Inr (appended (rs_body r) (appended kCRLF b3))"
    using assms b3 unfolding appendToBuffer_def s1 s2
    by (cases "rs_closeConnection r") (simp_all add: buf_append_Inr)
  moreover have "contents (appended (rs_body r) (appended kCRLF b3)) = contents b @ response_text r"
    using assms b3 by (simp add: response_text_def header_lines_def framing_headers_def)
  ultimately show ?thesis using b3(2) by auto
qed

section \<open>The reader on the other side\<close>

text \<open>
  A client: the status line up to the first CRLF, then one header per line up to the empty line, then
  the rest. It returns the status code, the reason phrase, the headers in order and the rest.
\<close>

function read_header_lines :: "char list \<Rightarrow> ((char list \<times> char list) list \<times> char list) option" where
  "read_header_lines cs =
     (case std_search kCRLF cs of
        None \<Rightarrow> None
      | Some i \<Rightarrow>
          (let line = take i cs; colon = std_find (CHR '':'') line
           in if i = 0 then Some ([], drop 2 cs)
              else map_option (\<lambda>(hs, rest). ((take colon line, drop (colon + 2) line) # hs, rest))
                     (read_header_lines (drop (i + 2) cs))))"
  by pat_completeness auto
termination
proof (relation "measure length", goal_cases)
  case (2 cs i line colon)
  then show ?case using std_search_SomeD [of kCRLF cs i] by (auto simp: kCRLF_def)
qed simp

declare read_header_lines.simps [simp del]

definition read_response :: "char list \<Rightarrow> (int \<times> char list \<times> (char list \<times> char list) list \<times> char list) option" where
  "read_response cs =
     (case std_search kCRLF cs of
        None \<Rightarrow> None
      | Some i \<Rightarrow>
          (let line = take i cs;
               code = drop 9 line;
               sp = std_find (CHR '' '') code
           in if take 9 line \<noteq> ''HTTP/1.1 '' then None
              else case stoi (take sp code) of
                Inl e \<Rightarrow> None
              | Inr n \<Rightarrow> map_option (\<lambda>(hs, rest). (n, drop (sp + 1) code, hs, rest))
                          (read_header_lines (drop (i + 2) cs))))"

definition wire_headers_ok :: "(char list \<times> char list) list \<Rightarrow> bool" where
  "wire_headers_ok hs \<longleftrightarrow> (\<forall>(k, v) \<in> set hs. k \<noteq> [] \<and> CHR '':'' \<notin> set k \<and> CHR 0x0D \<notin> set k \<and> CHR 0x0D \<notin> set v)"

lemma read_header_lines_wire:
  "wire_headers_ok hs \<Longrightarrow> read_header_lines (header_lines hs @ kCRLF @ rest) = Some (hs, rest)"
proof (induction hs)
  case Nil
  have "std_search kCRLF (kCRLF @ rest) = Some 0" using search_crlf_line [of "[]"] by simp
  then show ?case by (subst read_header_lines.simps) (simp add: header_lines_def kCRLF_def)
next
  case (Cons h hs)
  obtain k v where h: "h = (k, v)" by (cases h)
  with Cons.prems have ok: "k \<noteq> []" "CHR '':'' \<notin> set k" "CHR 0x0D \<notin> set k" "CHR 0x0D \<notin> set v" "wire_headers_ok hs"
    by (auto simp: wire_headers_ok_def)
  let ?line = "k @ '': '' @ v"
  let ?rest = "header_lines hs @ kCRLF @ rest"
  have tx: "header_lines (h # hs) @ kCRLF @ rest = ?line @ kCRLF @ ?rest" by (simp add: header_lines_def h)
  have srch: "std_search kCRLF (?line @ kCRLF @ ?rest) = Some (length ?line)"
    using ok by (intro search_crlf_line) auto
  have colon: "std_find (CHR '':'') ?line = length k" using ok(2) by (simp add: std_find_append)
  have fields: "take (length k) ?line = k" "drop (length k + 2) ?line = v" "length ?line \<noteq> 0" by simp_all
  show ?case
    unfolding tx
    by (subst read_header_lines.simps)
      (simp only: srch option.case Let_def crlf_line_parts colon fields if_False Cons.IH [OF ok(5)] option.map prod.case h)
qed

lemma stoi_status: "stoi (dec_int (status_value s)) = Inr (status_value s)"
proof -
  have "stoi (dec_nat n) = Inr (int n)" if "n < 2 ^ 31" for n
    using stoi_dec_nat [OF that, of "[]"] by simp
  from this [of "nat (status_value s)"] show ?thesis by (cases s) (simp_all add: dec_int_def)
qed

lemma dec_int_status_no_space: "CHR '' '' \<notin> set (dec_int (status_value s))"
  using dec_nat_digits [of "nat (status_value s)"] by (cases s) (auto simp: dec_int_def isdigit_def)

lemma dec_nat_no_cr: "CHR 0x0D \<notin> set (dec_nat n)"
  using dec_nat_digits [of n] by (auto simp: isdigit_def)

lemma read_response_text:
  assumes "CHR 0x0D \<notin> set (rs_statusMessage r)" "wire_headers_ok (rs_headers r)"
  shows "read_response (response_text r @ rest)
    = Some (status_value (rs_statusCode r), rs_statusMessage r, framing_headers r @ rs_headers r, rs_body r @ rest)"
proof -
  let ?d = "dec_int (status_value (rs_statusCode r))"
  let ?line = "''HTTP/1.1 '' @ ?d @ '' '' @ rs_statusMessage r"
  let ?rest = "header_lines (framing_headers r @ rs_headers r) @ kCRLF @ rs_body r @ rest"
  have "CHR 0x0D \<notin> set ?d"
    using dec_nat_no_cr by (cases "rs_statusCode r") (auto simp: dec_int_def)
  with assms(1) have srch: "std_search kCRLF (?line @ kCRLF @ ?rest) = Some (length ?line)"
    by (intro search_crlf_line) auto
  have hs: "read_header_lines ?rest = Some (framing_headers r @ rs_headers r, rs_body r @ rest)"
    using assms(2) by (intro read_header_lines_wire) (auto simp: wire_headers_ok_def framing_headers_def dec_nat_no_cr)
  have l9: "take 9 ?line = ''HTTP/1.1 ''" "drop 9 ?line = ?d @ '' '' @ rs_statusMessage r" by simp_all
  have sp: "std_find (CHR '' '') (?d @ '' '' @ rs_statusMessage r) = length ?d"
    using dec_int_status_no_space [of "rs_statusCode r"] by (simp add: std_find_append)
  have fields: "take (length ?d) (?d @ '' '' @ rs_statusMessage r) = ?d"
    "drop (length ?d + 1) (?d @ '' '' @ rs_statusMessage r) = rs_statusMessage r" by simp_all
  have "response_text r @ rest = ?line @ kCRLF @ ?rest" by (simp add: response_text_def)
  then show ?thesis
    unfolding read_response_def
    by (simp only: srch option.case Let_def crlf_line_parts l9 sp fields stoi_status sum.case hs option.map
        prod.case simp_thms if_False)
qed

text \<open>C10: appendToBuffer never fails and puts on the wire a response a client reads back exactly: status code,
  reason phrase, the framing headers followed by the table's headers in key order, and the body. On a
  kept-alive connection the Content-Length it carries is the length of the body, so the client takes
  the body and nothing of what follows it.\<close>

theorem response_roundtrip:
  assumes "buffer_inv b" "length (rs_body r) < 2 ^ 31" "CHR 0x0D \<notin> set (rs_statusMessage r)"
    and "wire_headers_ok (rs_headers r)"
  shows "\<exists>b' wire. appendToBuffer r b = Inr b' \<and> buffer_inv b' \<and> contents b' = contents b @ wire
    \<and> (\<forall>rest. \<exists>hs. read_response (wire @ rest)
          = Some (status_value (rs_statusCode r), rs_statusMessage r, hs @ rs_headers r, rs_body r @ rest)
        \<and> map_of hs ''Connection'' = Some (if rs_closeConnection r then ''close'' else ''Keep-Alive'')
        \<and> (\<not> rs_closeConnection r \<longrightarrow>
             (\<exists>l. map_of hs ''Content-Length'' = Some l \<and> stoi l = Inr (int (length (rs_body r))))))"
proof -
  obtain b' where b': "appendToBuffer r b = Inr b'" "buffer_inv b'" "contents b' = contents b @ response_text r"
    using appendToBuffer_text [OF assms(1,2)] by blast
  have "map_of (framing_headers r) ''Connection'' = Some (if rs_closeConnection r then ''close'' else ''Keep-Alive'')"
    by (simp add: framing_headers_def)
  moreover have "\<not> rs_closeConnection r \<longrightarrow>
      (\<exists>l. map_of (framing_headers r) ''Content-Length'' = Some l \<and> stoi l = Inr (int (length (rs_body r))))"
    using stoi_dec_nat [OF assms(2), of "[]"] by (simp add: framing_headers_def)
  ultimately show ?thesis using b' read_response_text [OF assms(3,4)] by blast
qed

theorem response_roundtrip_witness:
  "\<exists>b' wire. appendToBuffer (resp_setBody ''hi'' (resp_addHeader ''Server'' ''Muduo''
       (setStatusMessage ''OK'' (setStatusCode k200Ok (new_response False))))) (new_buffer 8) = Inr b'
     \<and> contents b' = wire \<and> (\<exists>hs. read_response (wire @ ''NEXT'') = Some (200, ''OK'', hs @ [(''Server'', ''Muduo'')], ''hiNEXT''))"
proof -
  let ?r = "resp_setBody ''hi'' (resp_addHeader ''Server'' ''Muduo''
       (setStatusMessage ''OK'' (setStatusCode k200Ok (new_response False))))"
  have fields: "rs_body ?r = ''hi''" "rs_statusMessage ?r = ''OK''" "rs_statusCode ?r = k200Ok"
    "rs_headers ?r = [(''Server'', ''Muduo'')]"
    by (simp_all add: resp_setBody_def resp_addHeader_def setStatusMessage_def setStatusCode_def new_response_def
        overwrite_def vec_resize_def)
  have "length (rs_body ?r) < 2 ^ 31" "CHR 0x0D \<notin> set (rs_statusMessage ?r)" "wire_headers_ok (rs_headers ?r)"
    unfolding fields by (simp_all add: wire_headers_ok_def)
  from response_roundtrip [OF new_buffer_inv [of 8] this] show ?thesis
    unfolding fields by (simp only: contents_new_buffer append_Nil status_value.simps) (metis append.simps)
qed

end
