(* ===== verification/StaticFile.thy ===== *)
theory StaticFile
  imports HttpRequest HttpResponse
begin

text \<open>
  http/StaticFile.h, http/StaticFile.cc and the request handler of http/bin/muduo_server.cc. The file
  system is an argument: what stat, open and pread answer for a path or a descriptor. A stat that
  fails leaves the member \<open>sbuf_\<close> as the memory had it; that value is an argument as well.
  Logging and the printing of the request on the console are left out.
\<close>

section \<open>The file system\<close>

record file_stat =
  st_mode :: "32 word"
  st_size :: nat

record file_system =
  sys_stat :: "char list \<Rightarrow> file_stat option"
  sys_open :: "char list \<Rightarrow> int"
  sys_pread :: "int \<Rightarrow> nat \<Rightarrow> char list"

unbundle bit_operations_syntax

definition S_ISREG :: "32 word \<Rightarrow> bool" where
  "S_ISREG m \<longleftrightarrow> m AND 0xF000 = 0x8000"

definition S_IRUSR :: "32 word \<Rightarrow> bool" where
  "S_IRUSR m \<longleftrightarrow> m AND 0x100 \<noteq> 0"

section \<open>StaticFile\<close>

datatype file_status = FileOK | NotFound | Forbidden | ReadError

record static_file =
  sf_filename :: "char list"
  sf_fd :: int
  sf_sbuf :: file_stat
  sf_status :: file_status

definition new_static_file :: "file_system \<Rightarrow> file_stat \<Rightarrow> char list \<Rightarrow> static_file" where
  "new_static_file fs junk filename =
     (let r = sys_stat fs (c_str filename);
          sbuf = (case r of None \<Rightarrow> junk | Some s \<Rightarrow> s);
          status = (if r = None then NotFound else FileOK);
          status = (if \<not> S_ISREG (st_mode sbuf) \<or> \<not> S_IRUSR (st_mode sbuf) then Forbidden else status)
      in \<lparr>sf_filename = filename, sf_fd = -1, sf_sbuf = sbuf, sf_status = status\<rparr>)"

definition openFile :: "file_system \<Rightarrow> static_file \<Rightarrow> static_file" where
  "openFile fs f =
     (let fd = sys_open fs (c_str (sf_filename f))
      in if fd < 0 then f\<lparr>sf_fd := fd, sf_status := ReadError\<rparr> else f\<lparr>sf_fd := fd\<rparr>)"

text \<open>The vector is as long as stat said; what pread did not fill stays zero.\<close>

definition readContent :: "file_system \<Rightarrow> static_file \<Rightarrow> char list" where
  "readContent fs f =
     (let len = st_size (sf_sbuf f)
      in overwrite (replicate len (CHR 0x00)) 0 (sys_pread fs (sf_fd f) len))"

section \<open>The request handler of the server\<close>

definition WEB_PATH :: "char list" where
  "WEB_PATH = ''/home/xibaohe/ServerCode/chenshuo/muduo_11/muduo/http/web''"

definition get_filetype :: "char list \<Rightarrow> char list" where
  "get_filetype filename =
     (if std_search ''.html'' filename \<noteq> None then ''text/html''
      else if std_search ''.jpg'' filename \<noteq> None then ''image/jpeg''
      else if std_search ''.gif'' filename \<noteq> None then ''image/gif''
      else if std_search ''.mp4'' filename \<noteq> None then ''video/mp4''
      else ''text/plain'')"

definition not_found_body :: "char list" where
  "not_found_body = ''<html><head><title>This is title</title></head>'' @ ''<body><h1>404 Not Found</h1></html>''"

definition server_static :: "file_system \<Rightarrow> file_stat \<Rightarrow> http_response \<Rightarrow> char list \<Rightarrow> http_response" where
  "server_static fs junk resp reqpath =
     (let filename = WEB_PATH @ reqpath;
          file = openFile fs (new_static_file fs junk filename)
      in if sf_status file = NotFound \<or> sf_status file = ReadError then
           setCloseConnection True
             (resp_setBody not_found_body
               (resp_addHeader ''Server'' ''Muduo''
                 (setContentType ''text/html''
                   (setStatusMessage ''Not Found'' (setStatusCode k404NotFound resp)))))
         else if sf_status file = Forbidden then
           setCloseConnection True (setStatusMessage ''Forbidden'' (setStatusCode k403Forbidden resp))
         else
           setContentType (get_filetype filename)
             (setStatusMessage ''OK''
               (setStatusCode k200Ok (resp_setBody_move (readContent fs file) resp))))"

definition site_onRequest :: "file_system \<Rightarrow> file_stat \<Rightarrow> http_request \<Rightarrow> http_response \<Rightarrow> http_response" where
  "site_onRequest fs junk req resp =
     (if std_search ''cgi-bin'' (rq_path req) = None
      then (let reqpath = rq_path req;
                reqpath = (if reqpath = ''/'' then reqpath @ ''home.html'' else reqpath)
            in server_static fs junk resp reqpath)
      else resp)"

section \<open>Properties\<close>

lemma length_readContent:
  "length (sys_pread fs (sf_fd f) (st_size (sf_sbuf f))) \<le> st_size (sf_sbuf f)
    \<Longrightarrow> length (readContent fs f) = st_size (sf_sbuf f)"
  by (simp add: readContent_def Let_def)

lemma readContent_full:
  "length (sys_pread fs (sf_fd f) (st_size (sf_sbuf f))) = st_size (sf_sbuf f)
    \<Longrightarrow> readContent fs f = sys_pread fs (sf_fd f) (st_size (sf_sbuf f))"
  by (simp add: readContent_def Let_def overwrite_def)

lemmas response_setters = setStatusCode_def setStatusMessage_def setCloseConnection_def resp_addHeader_def
  setContentType_def resp_setBody_move_def resp_setBody_eq

definition servable :: "file_stat option \<Rightarrow> bool" where
  "servable r = (case r of None \<Rightarrow> False | Some s \<Rightarrow> S_ISREG (st_mode s) \<and> S_IRUSR (st_mode s))"

lemma opened_status:
  "sf_status (openFile fs (new_static_file fs junk filename))
    = (if sys_open fs (c_str filename) < 0 then ReadError
       else if servable (sys_stat fs (c_str filename)) then FileOK
       else case sys_stat fs (c_str filename) of
         Some _ \<Rightarrow> Forbidden
       | None \<Rightarrow> if servable (Some junk) then NotFound else Forbidden)"
  by (auto simp: openFile_def new_static_file_def Let_def servable_def split: option.split)

lemma opened_fields:
  "sf_fd (openFile fs (new_static_file fs junk filename)) = sys_open fs (c_str filename)"
  "sys_stat fs (c_str filename) = Some s \<Longrightarrow> sf_sbuf (openFile fs (new_static_file fs junk filename)) = s"
  by (auto simp: openFile_def new_static_file_def Let_def split: option.split)


definition one_file :: "char list \<Rightarrow> char list \<Rightarrow> file_system" where
  "one_file name content =
     \<lparr>sys_stat = (\<lambda>p. if p = name then Some \<lparr>st_mode = 0x8124, st_size = length content\<rparr> else None),
      sys_open = (\<lambda>p. if p = name then 7 else -1),
      sys_pread = (\<lambda>fd n. take n (content @ replicate n (CHR 0x00)))\<rparr>"


text \<open>
  The path of the request goes to the file system as it came: nothing removes \<open>..\<close> from it, so a
  request can name a file outside \<open>WEB_PATH\<close>.
\<close>

lemma dotdot_reaches_the_file_system:
  fixes fs :: file_system
  assumes "0 \<le> sys_open fs (WEB_PATH @ ''/../secret'')" "servable (sys_stat fs (WEB_PATH @ ''/../secret''))"
  shows "rs_statusCode (site_onRequest fs junk (setPath ''/../secret'' req) resp) = k200Ok"
proof -
  have "c_str (WEB_PATH @ ''/../secret'') = WEB_PATH @ ''/../secret''" by (simp add: c_str_def WEB_PATH_def)
  then show ?thesis
    using assms opened_status [of fs junk "WEB_PATH @ ''/../secret''"]
    by (simp add: site_onRequest_def setPath_def server_static_def Let_def response_setters)
qed

end
