(* ===== verification/FastCgi.thy ===== *)
theory FastCgi
  imports CText NetBuffer
begin

text \<open>
  http/FastCgiSpec.h, http/FastCgi.h and http/FastCgi.cc: the records exchanged with the FastCGI
  application. An unsigned char is a byte of the wire (a character); an int stored into one is
  truncated. The stack array the parameters are assembled in has its 1024 bytes, and a store beyond
  them is a fault. The specification is the wire format itself, as a decoder of a record and of a
  name-value list.
\<close>

section \<open>Records\<close>

definition uchar :: "int \<Rightarrow> char" where
  "uchar v = char_of (nat (v mod 256))"

definition uval :: "char \<Rightarrow> int" where
  "uval c = int (of_char c)"

record fcgi_header =
  fh_version :: char
  fh_type :: char
  fh_requestIdB1 :: char
  fh_requestIdB0 :: char
  fh_contentLengthB1 :: char
  fh_contentLengthB0 :: char
  fh_paddingLength :: char
  fh_reserved :: char

record fcgi_begin_body =
  fb_roleB1 :: char
  fb_roleB0 :: char
  fb_flags :: char
  fb_reserved :: "char list"

definition FCGI_HEADER_LEN :: nat where "FCGI_HEADER_LEN = 8"
definition FCGI_VERSION_1 :: int where "FCGI_VERSION_1 = 1"
definition FCGI_BEGIN_REQUEST :: int where "FCGI_BEGIN_REQUEST = 1"
definition FCGI_END_REQUEST :: int where "FCGI_END_REQUEST = 3"
definition FCGI_PARAMS :: int where "FCGI_PARAMS = 4"
definition FCGI_STDOUT :: int where "FCGI_STDOUT = 6"
definition FCGI_STDERR :: int where "FCGI_STDERR = 7"
definition FCGI_KEEP_CONN :: int where "FCGI_KEEP_CONN = 1"
definition FCGI_RESPONDER :: int where "FCGI_RESPONDER = 1"

text \<open>\<open>sizeof(FCGI_EndRequestBody)\<close>, and the size of the array in Params.\<close>

definition sizeof_EndRequestBody :: nat where "sizeof_EndRequestBody = 8"
definition PARAMS_BUFF_LEN :: nat where "PARAMS_BUFF_LEN = 1024"

lemmas fcgi_consts = FCGI_HEADER_LEN_def FCGI_VERSION_1_def FCGI_BEGIN_REQUEST_def FCGI_END_REQUEST_def
  FCGI_PARAMS_def FCGI_STDOUT_def FCGI_STDERR_def FCGI_KEEP_CONN_def FCGI_RESPONDER_def
  sizeof_EndRequestBody_def PARAMS_BUFF_LEN_def

text \<open>The object representation of the structs.\<close>

definition header_bytes :: "fcgi_header \<Rightarrow> char list" where
  "header_bytes h =
     [fh_version h, fh_type h, fh_requestIdB1 h, fh_requestIdB0 h,
      fh_contentLengthB1 h, fh_contentLengthB0 h, fh_paddingLength h, fh_reserved h]"

definition header_of_bytes :: "char list \<Rightarrow> fcgi_header" where
  "header_of_bytes cs =
     \<lparr>fh_version = cs ! 0, fh_type = cs ! 1, fh_requestIdB1 = cs ! 2, fh_requestIdB0 = cs ! 3,
      fh_contentLengthB1 = cs ! 4, fh_contentLengthB0 = cs ! 5, fh_paddingLength = cs ! 6, fh_reserved = cs ! 7\<rparr>"

definition begin_body_bytes :: "fcgi_begin_body \<Rightarrow> char list" where
  "begin_body_bytes b = [fb_roleB1 b, fb_roleB0 b, fb_flags b] @ fb_reserved b"

section \<open>Making records\<close>

unbundle bit_operations_syntax

definition makeHeader :: "int \<Rightarrow> int \<Rightarrow> int \<Rightarrow> int \<Rightarrow> fcgi_header" where
  "makeHeader type requestId contentLength paddingLength =
     \<lparr>fh_version = uchar FCGI_VERSION_1,
      fh_type = uchar type,
      fh_requestIdB1 = uchar (drop_bit 8 requestId AND 0xFF),
      fh_requestIdB0 = uchar (requestId AND 0xFF),
      fh_contentLengthB1 = uchar (drop_bit 8 contentLength AND 0xFF),
      fh_contentLengthB0 = uchar (contentLength AND 0xFF),
      fh_paddingLength = uchar paddingLength,
      fh_reserved = uchar 0\<rparr>"

definition makeBeginRequestBody :: "int \<Rightarrow> int \<Rightarrow> fcgi_begin_body" where
  "makeBeginRequestBody role keepConnection =
     \<lparr>fb_roleB1 = uchar (drop_bit 8 role AND 0xFF),
      fb_roleB0 = uchar (role AND 0xFF),
      fb_flags = uchar (if keepConnection \<noteq> 0 then FCGI_KEEP_CONN else 0),
      fb_reserved = replicate 5 (CHR 0x00)\<rparr>"

text \<open>\<open>*p++ = c\<close> on an array: the array and the position of \<open>p\<close>.\<close>

definition put_byte :: "char \<Rightarrow> char list \<times> nat \<Rightarrow> (char list \<times> nat) res" where
  "put_byte c ap =
     (if snd ap < length (fst ap) then Inr ((fst ap)[snd ap := c], snd ap + 1) else Inl Buffer_overflow)"

fun put_bytes :: "char list \<Rightarrow> char list \<times> nat \<Rightarrow> (char list \<times> nat) res" where
  "put_bytes [] ap = Inr ap"
| "put_bytes (c # cs) ap = rbind (put_byte c ap) (put_bytes cs)"

definition put_length :: "int \<Rightarrow> char list \<times> nat \<Rightarrow> (char list \<times> nat) res" where
  "put_length len ap =
     (if len < 128 then put_byte (uchar len) ap
      else rbind (put_byte (uchar (drop_bit 24 len OR 0x80)) ap)
            (\<lambda>ap. rbind (put_byte (uchar (drop_bit 16 len)) ap)
              (\<lambda>ap. rbind (put_byte (uchar (drop_bit 8 len)) ap)
                (\<lambda>ap. put_byte (uchar len) ap))))"

text \<open>The result is the array and \<open>*bodyLenPtr\<close>.\<close>

definition makeNameValueBody :: "char list \<Rightarrow> int \<Rightarrow> char list \<Rightarrow> int \<Rightarrow> char list \<times> nat \<Rightarrow> (char list \<times> nat) res" where
  "makeNameValueBody name nameLen value valueLen bodyBuffPtr =
     (let startBodyBuffPtr = snd bodyBuffPtr
      in rbind (put_length nameLen bodyBuffPtr)
          (\<lambda>ap. rbind (put_length valueLen ap)
            (\<lambda>ap. rbind (put_bytes name ap)
              (\<lambda>ap. rbind (put_bytes value ap)
                (\<lambda>ap. Inr (fst ap, snd ap - startBodyBuffPtr))))))"

record fast_cgi =
  fc_requestId :: int

definition new_fcgi :: fast_cgi where
  "new_fcgi = \<lparr>fc_requestId = 0\<rparr>"

definition setRequestId :: "int \<Rightarrow> fast_cgi \<Rightarrow> fast_cgi" where
  "setRequestId requestId f = f\<lparr>fc_requestId := requestId\<rparr>"

definition StartRequestRecord :: "fast_cgi \<Rightarrow> buffer \<Rightarrow> buffer res" where
  "StartRequestRecord f buf =
     (let body = begin_body_bytes (makeBeginRequestBody FCGI_RESPONDER 1);
          header = makeHeader FCGI_BEGIN_REQUEST (fc_requestId f) (int (length body)) 0
      in buf_append (header_bytes header @ body) buf)"

definition send_params :: "fast_cgi \<Rightarrow> char list \<Rightarrow> nat \<Rightarrow> buffer \<Rightarrow> buffer res" where
  "send_params f bodyBuff bodyLen buf =
     (let header = makeHeader FCGI_PARAMS (fc_requestId f) (int bodyLen) 0
      in assert_c (length (header_bytes header) = FCGI_HEADER_LEN)
          (rbind (buf_append (header_bytes header) buf) (buf_append (take bodyLen bodyBuff))))"

definition Params_one :: "fast_cgi \<Rightarrow> char list \<Rightarrow> char list \<Rightarrow> buffer \<Rightarrow> buffer res" where
  "Params_one f name value buf =
     (let bodyBuff = replicate PARAMS_BUFF_LEN (CHR 0x00)
      in rbind (makeNameValueBody name (int (length name)) value (int (length value)) (bodyBuff, 0))
          (\<lambda>(bodyBuff, bodyLen). send_params f bodyBuff bodyLen buf))"

text \<open>The loop over the two vectors: the array and \<open>bodyLen\<close>, where the next pair goes.\<close>

fun params_loop :: "char list list \<Rightarrow> char list list \<Rightarrow> char list \<times> nat \<Rightarrow> (char list \<times> nat) res" where
  "params_loop (n # ns) (v # vs) body =
     rbind (makeNameValueBody n (int (length n)) v (int (length v)) body)
      (\<lambda>(bodyBuff, len). params_loop ns vs (bodyBuff, snd body + len))"
| "params_loop _ _ body = Inr body"

definition Params :: "fast_cgi \<Rightarrow> char list list \<Rightarrow> char list list \<Rightarrow> buffer \<Rightarrow> buffer res" where
  "Params f name value buf =
     assert_c (length name = length value)
      (let bodyBuff = replicate PARAMS_BUFF_LEN (CHR 0x00)
       in rbind (params_loop name value (bodyBuff, 0))
           (\<lambda>(bodyBuff, bodyLen). send_params f bodyBuff bodyLen buf))"

definition EndRequestRecord :: "fast_cgi \<Rightarrow> buffer \<Rightarrow> buffer res" where
  "EndRequestRecord f buf = buf_append (header_bytes (makeHeader FCGI_PARAMS (fc_requestId f) 0 0)) buf"

section \<open>Reading records\<close>

text \<open>memcpy and std::copy from the read position: they may run past the readable bytes, not past the vector.\<close>

definition copy_from_peek :: "nat \<Rightarrow> buffer \<Rightarrow> char list res" where
  "copy_from_peek n b =
     (if peek b + n \<le> length (buffer_vec b) then Inr (bytes_between b (peek b) (peek b + n))
      else Inl Buffer_overflow)"

definition getRequestId :: "buffer \<Rightarrow> int res" where
  "getRequestId b =
     rbind (copy_from_peek FCGI_HEADER_LEN b) (\<lambda>cs.
       let h = header_of_bytes cs
       in Inr (push_bit 8 (uval (fh_requestIdB1 h)) + uval (fh_requestIdB0 h)))"

definition content_length :: "fcgi_header \<Rightarrow> nat" where
  "content_length h = nat (push_bit 8 (uval (fh_contentLengthB1 h)) + uval (fh_contentLengthB0 h))"

definition drop_padding :: "fcgi_header \<Rightarrow> buffer \<Rightarrow> buffer res" where
  "drop_padding h b =
     (if 0 < uval (fh_paddingLength h) then retrieve (nat (uval (fh_paddingLength h))) b else Inr b)"

definition ParseFromPhp :: "buffer \<Rightarrow> (char list \<times> buffer) res" where
  "ParseFromPhp b =
     rbind (copy_from_peek FCGI_HEADER_LEN b) (\<lambda>cs.
       rbind (retrieve FCGI_HEADER_LEN b) (\<lambda>b.
         let h = header_of_bytes cs; contentLen = content_length h
         in if uval (fh_type h) = FCGI_STDOUT then
              rbind (copy_from_peek contentLen b) (\<lambda>content.
                rbind (retrieve contentLen b) (\<lambda>b.
                  rbind (drop_padding h b) (\<lambda>b. Inr (content, b))))
            else if uval (fh_type h) = FCGI_STDERR then
              rbind (retrieve contentLen b) (\<lambda>b.
                rbind (drop_padding h b) (\<lambda>b. Inr ([], b)))
            else if uval (fh_type h) = FCGI_END_REQUEST then
              rbind (retrieve sizeof_EndRequestBody b) (\<lambda>b. Inr ([], b))
            else Inr ([], b)))"

section \<open>Bytes and bits\<close>

lemma and_255: "x AND 255 = x mod 256" for x :: int
  using take_bit_eq_mask [of 8 x] by (simp add: take_bit_eq_mod mask_eq_exp_minus_1)

lemma or_128: "0 \<le> x \<Longrightarrow> x < 128 \<Longrightarrow> x OR 128 = x + 128" for x :: int
proof -
  assume "0 \<le> x" "x < 128"
  then have "x = x AND mask 7"
    by (simp add: take_bit_eq_mask [symmetric] take_bit_eq_mod)
  then have "x AND 128 = x AND (mask 7 AND 128)" by (metis and.assoc)
  moreover have "mask 7 AND 128 = (0::int)" by (simp add: mask_eq_exp_minus_1)
  ultimately have "x AND 128 = 0" by simp
  then show ?thesis using plus_and_or [of x 128] by simp
qed

lemma uval_uchar [simp]: "uval (uchar v) = v mod 256"
  by (simp add: uval_def uchar_def)

lemma uval_range: "0 \<le> uval c" "uval c < 256"
  using nat_of_char_less_256 [of c] by (simp_all add: uval_def)

lemma uchar_uval [simp]: "uchar (uval c) = c"
  using nat_of_char_less_256 [of c] by (simp add: uchar_def uval_def)

lemma two_bytes: "push_bit 8 (drop_bit 8 v mod 256) + v mod 256 = v mod 65536" for v :: int
  using zmod_zmult2_eq [of 256 v 256] by (simp add: push_bit_eq_mult drop_bit_eq_div)

lemma two_chars: "push_bit 8 (uval (uchar (drop_bit 8 v mod 256))) + uval (uchar (v mod 256)) = v mod 65536" for v :: int
  using two_bytes [of v] by simp

lemma length_header_bytes [simp]: "length (header_bytes h) = 8"
  by (simp add: header_bytes_def)

lemma header_of_header_bytes [simp]: "header_of_bytes (header_bytes h @ rest) = h" "header_of_bytes (header_bytes h) = h"
  by (simp_all add: header_of_bytes_def header_bytes_def)

lemma makeHeader_fields:
  "fh_version (makeHeader t i l p) = uchar 1" "fh_type (makeHeader t i l p) = uchar t"
  "push_bit 8 (uval (fh_requestIdB1 (makeHeader t i l p))) + uval (fh_requestIdB0 (makeHeader t i l p)) = i mod 65536"
  "0 \<le> l \<Longrightarrow> content_length (makeHeader t i l p) = nat (l mod 65536)"
  "fh_paddingLength (makeHeader t i l p) = uchar p"
proof -
  note defs = makeHeader_def fcgi_consts and_255 content_length_def
  show "fh_version (makeHeader t i l p) = uchar 1" "fh_type (makeHeader t i l p) = uchar t" "fh_paddingLength (makeHeader t i l p) = uchar p"
    by (simp_all add: makeHeader_def fcgi_consts)
  show "push_bit 8 (uval (fh_requestIdB1 (makeHeader t i l p))) + uval (fh_requestIdB0 (makeHeader t i l p)) = i mod 65536"
    using two_chars [of i] by (simp add: defs)
  show "content_length (makeHeader t i l p) = nat (l mod 65536)" if "0 \<le> l"
    using that two_chars [of l] by (simp add: defs)
qed

section \<open>The wire format\<close>

text \<open>A record: type, request id, content; \<open>None\<close> while it is incomplete. A name-value list, by the length bytes.\<close>

definition decode_record :: "char list \<Rightarrow> ((int \<times> int \<times> char list) \<times> char list) option" where
  "decode_record cs =
     (if length cs < 8 then None
      else let h = header_of_bytes (take 8 cs);
               n = content_length h;
               pad = nat (uval (fh_paddingLength h))
           in if length cs < 8 + n + pad then None
              else Some ((uval (fh_type h), push_bit 8 (uval (fh_requestIdB1 h)) + uval (fh_requestIdB0 h),
                          take n (drop 8 cs)), drop (8 + n + pad) cs))"

definition decode_length :: "char list \<Rightarrow> (nat \<times> char list) option" where
  "decode_length cs =
     (case cs of
        [] \<Rightarrow> None
      | a # rest \<Rightarrow>
          if uval a < 128 then Some (nat (uval a), rest)
          else case rest of
            b # c # d # rest \<Rightarrow>
              Some (nat ((uval a - 128) * 2 ^ 24 + uval b * 2 ^ 16 + uval c * 2 ^ 8 + uval d), rest)
          | _ \<Rightarrow> None)"

lemma decode_length_shorter: "decode_length cs = Some (n, rest) \<Longrightarrow> length rest < length cs"
  by (auto simp: decode_length_def split: list.splits if_splits)

function decode_pairs :: "char list \<Rightarrow> (char list \<times> char list) list option" where
  "decode_pairs cs =
     (if cs = [] then Some []
      else case decode_length cs of
        None \<Rightarrow> None
      | Some (nl, cs1) \<Rightarrow>
          (case decode_length cs1 of
             None \<Rightarrow> None
           | Some (vl, cs2) \<Rightarrow>
               if length cs2 < nl + vl then None
               else map_option (\<lambda>ps. (take nl cs2, take vl (drop nl cs2)) # ps)
                      (decode_pairs (drop (nl + vl) cs2))))"
  by pat_completeness auto
termination
  by (relation "measure length") (auto dest!: decode_length_shorter)

declare decode_pairs.simps [simp del]

definition length_bytes :: "int \<Rightarrow> char list" where
  "length_bytes len =
     (if len < 128 then [uchar len]
      else [uchar (drop_bit 24 len + 128), uchar (drop_bit 16 len), uchar (drop_bit 8 len), uchar len])"

definition pair_bytes :: "char list \<times> char list \<Rightarrow> char list" where
  "pair_bytes nv = length_bytes (int (length (fst nv))) @ length_bytes (int (length (snd nv))) @ fst nv @ snd nv"

definition pairs_bytes :: "(char list \<times> char list) list \<Rightarrow> char list" where
  "pairs_bytes nvs = concat (map pair_bytes nvs)"

lemma four_bytes:
  fixes v :: int
  assumes "0 \<le> v" "v < 2 ^ 31"
  shows "((drop_bit 24 v + 128) mod 256 - 128) * 2 ^ 24 + drop_bit 16 v mod 256 * 2 ^ 16
      + drop_bit 8 v mod 256 * 2 ^ 8 + v mod 256 = v"
proof -
  have "v div 2 ^ 24 < 128" "0 \<le> v div 2 ^ 24" using assms by simp_all
  then have top: "(drop_bit 24 v + 128) mod 256 - 128 = v div 2 ^ 24" by (simp add: drop_bit_eq_div)
  have "v div 2 ^ 8 div 2 ^ 8 = v div 2 ^ 16" "v div 2 ^ 16 div 2 ^ 8 = v div 2 ^ 24"
    using zdiv_zmult2_eq [of "2 ^ 8" v "2 ^ 8"] zdiv_zmult2_eq [of "2 ^ 8" v "2 ^ 16"] by simp_all
  then have "v = v div 256 * 256 + v mod 256" "v div 256 = v div 65536 * 256 + v div 256 mod 256"
    "v div 65536 = v div 16777216 * 256 + v div 65536 mod 256"
    using div_mult_mod_eq [of v 256] div_mult_mod_eq [of "v div 256" 256]
      div_mult_mod_eq [of "v div 65536" 256] by simp_all
  then have "v div 16777216 * 16777216 + v div 65536 mod 256 * 65536 + v div 256 mod 256 * 256 + v mod 256 = v"
    by linarith
  then show ?thesis unfolding top by (simp add: drop_bit_eq_div)
qed

lemma decode_length_bytes: "n < 2 ^ 31 \<Longrightarrow> decode_length (length_bytes (int n) @ rest) = Some (n, rest)"
proof (cases "n < 128")
  case True
  then show ?thesis by (simp add: decode_length_def length_bytes_def)
next
  case False
  assume n: "n < 2 ^ 31"
  have "\<not> (drop_bit 24 (int n) + 128) mod 256 < 128" using n by (simp add: drop_bit_eq_div)
  with False n four_bytes [of "int n"] show ?thesis
    by (simp add: decode_length_def length_bytes_def)
qed

definition pairs_ok :: "(char list \<times> char list) list \<Rightarrow> bool" where
  "pairs_ok nvs \<longleftrightarrow> (\<forall>(n, v) \<in> set nvs. length n < 2 ^ 31 \<and> length v < 2 ^ 31)"

lemma length_bytes_nonempty [simp]: "length_bytes l \<noteq> []"
  by (simp add: length_bytes_def)

lemma decode_pairs_bytes: "pairs_ok nvs \<Longrightarrow> decode_pairs (pairs_bytes nvs) = Some nvs"
proof (induction nvs)
  case Nil
  then show ?case by (simp add: pairs_bytes_def decode_pairs.simps)
next
  case (Cons nv nvs)
  obtain n v where nv: "nv = (n, v)" by (cases nv)
  with Cons have "length n < 2 ^ 31" "length v < 2 ^ 31" "decode_pairs (pairs_bytes nvs) = Some nvs"
    by (auto simp: pairs_ok_def)
  then show ?case
    using decode_length_bytes [of "length n" "length_bytes (int (length v)) @ n @ v @ pairs_bytes nvs"]
      decode_length_bytes [of "length v" "n @ v @ pairs_bytes nvs"]
    by (subst decode_pairs.simps) (simp add: pairs_bytes_def pair_bytes_def nv)
qed

lemma decode_makeHeader:
  assumes "length content < 65536" "0 \<le> t" "t < 256"
  shows "decode_record (header_bytes (makeHeader t i (int (length content)) 0) @ content @ rest)
    = Some ((t, i mod 65536, content), rest)"
  using assms makeHeader_fields [where t = t and i = i and l = "int (length content)" and p = 0]
  by (simp add: decode_record_def Let_def)

section \<open>The array the parameters are assembled in\<close>

lemma put_bytes_append: "put_bytes (xs @ ys) ap = rbind (put_bytes xs ap) (put_bytes ys)"
  by (induction xs arbitrary: ap) (auto simp: rbind_def split: sum.splits)

lemma put_length_bytes: "0 \<le> len \<Longrightarrow> len < 2 ^ 31 \<Longrightarrow> put_length len ap = put_bytes (length_bytes len) ap"
proof -
  assume "0 \<le> len" "len < 2 ^ 31"
  then have "0 \<le> drop_bit 24 len" "drop_bit 24 len < 128" by (simp_all add: drop_bit_eq_div)
  then show ?thesis by (simp add: put_length_def length_bytes_def or_128 rbind_def split: sum.split)
qed

lemma put_bytes_spec:
  "put_bytes cs (arr, p) =
     (if p + length cs \<le> length arr \<or> cs = [] then Inr (overwrite arr p cs, p + length cs) else Inl Buffer_overflow)"
proof (induction cs arbitrary: arr p)
  case Nil
  then show ?case by (simp add: overwrite_def)
next
  case (Cons c cs)
  show ?case
  proof (cases "p < length arr")
    case True
    then have "overwrite (arr[p := c]) (Suc p) cs = overwrite arr p (c # cs)"
      by (simp add: overwrite_def take_Suc_conv_app_nth upd_conv_take_nth_drop add.commute)
    with True Cons show ?thesis by (auto simp: put_byte_def)
  qed (simp add: put_byte_def)
qed

lemma put_bytes_position: "put_bytes cs ap = Inr ap' \<Longrightarrow> snd ap' = snd ap + length cs"
  by (cases ap) (auto simp: put_bytes_spec split: if_splits)

lemma makeNameValueBody_bytes:
  assumes "length n < 2 ^ 31" "length v < 2 ^ 31"
  shows "makeNameValueBody n (int (length n)) v (int (length v)) ap
    = rbind (put_bytes (pair_bytes (n, v)) ap) (\<lambda>ap'. Inr (fst ap', length (pair_bytes (n, v))))"
proof -
  have "put_length (int (length n)) = put_bytes (length_bytes (int (length n)))"
    "put_length (int (length v)) = put_bytes (length_bytes (int (length v)))"
    using assms by (auto simp: fun_eq_iff put_length_bytes)
  then have "makeNameValueBody n (int (length n)) v (int (length v)) ap
      = rbind (put_bytes (pair_bytes (n, v)) ap) (\<lambda>ap'. Inr (fst ap', snd ap' - snd ap))"
    by (simp add: makeNameValueBody_def pair_bytes_def put_bytes_append rbind_assoc)
  then show ?thesis
    using put_bytes_position [of "pair_bytes (n, v)" ap]
    by (cases "put_bytes (pair_bytes (n, v)) ap") auto
qed

lemma params_loop_bytes:
  "length ns = length vs \<Longrightarrow> pairs_ok (zip ns vs) \<Longrightarrow> params_loop ns vs ap = put_bytes (pairs_bytes (zip ns vs)) ap"
proof (induction ns vs ap rule: params_loop.induct)
  case (1 n ns v vs body)
  then have ok: "length n < 2 ^ 31" "length v < 2 ^ 31" "pairs_ok (zip ns vs)" by (auto simp: pairs_ok_def)
  show ?case
  proof (cases "put_bytes (pair_bytes (n, v)) body")
    case (Inr ap')
    then have "ap' = (fst ap', snd body + length (pair_bytes (n, v)))"
      using put_bytes_position by (metis prod.collapse)
    with 1 ok Inr show ?thesis
      by (simp add: makeNameValueBody_bytes pairs_bytes_def put_bytes_append)
  qed (use ok in \<open>simp add: makeNameValueBody_bytes pairs_bytes_def put_bytes_append\<close>)
qed (auto simp: pairs_bytes_def)

lemma send_params_spec:
  assumes "buffer_inv b"
  shows "\<exists>b'. send_params f arr n b = Inr b' \<and> buffer_inv b'
      \<and> contents b' = contents b @ header_bytes (makeHeader FCGI_PARAMS (fc_requestId f) (int n) 0) @ take n arr"
  using assms by (auto simp: send_params_def Let_def buf_append_Inr fcgi_consts)

definition fcgi_request :: "int \<Rightarrow> char list list \<Rightarrow> char list list \<Rightarrow> buffer \<Rightarrow> buffer res" where
  "fcgi_request reqid name value buf =
     (let f = setRequestId reqid new_fcgi
      in rbind (StartRequestRecord f buf)
          (\<lambda>b. rbind (Params f name value b) (EndRequestRecord f)))"

lemma Params_spec:
  assumes "buffer_inv b" "length ns = length vs" "pairs_ok (zip ns vs)"
  defines "body \<equiv> pairs_bytes (zip ns vs)"
  shows "length body \<le> PARAMS_BUFF_LEN \<Longrightarrow>
      \<exists>b'. Params f ns vs b = Inr b' \<and> buffer_inv b'
        \<and> contents b' = contents b @ header_bytes (makeHeader FCGI_PARAMS (fc_requestId f) (int (length body)) 0) @ body"
    and "PARAMS_BUFF_LEN < length body \<Longrightarrow> Params f ns vs b = Inl Buffer_overflow"
proof -
  have loop: "params_loop ns vs (replicate PARAMS_BUFF_LEN (CHR 0x00), 0)
      = (if length body \<le> PARAMS_BUFF_LEN \<or> body = []
         then Inr (overwrite (replicate PARAMS_BUFF_LEN (CHR 0x00)) 0 body, length body) else Inl Buffer_overflow)"
    using assms by (simp add: params_loop_bytes put_bytes_spec)
  show "Params f ns vs b = Inl Buffer_overflow" if "PARAMS_BUFF_LEN < length body"
    using that assms(2) by (auto simp: Params_def loop)
  assume "length body \<le> PARAMS_BUFF_LEN"
  then show "\<exists>b'. Params f ns vs b = Inr b' \<and> buffer_inv b'
        \<and> contents b' = contents b @ header_bytes (makeHeader FCGI_PARAMS (fc_requestId f) (int (length body)) 0) @ body"
    using send_params_spec [OF assms(1), of f "overwrite (replicate PARAMS_BUFF_LEN (CHR 0x00)) 0 body" "length body"] assms(2)
    by (simp add: Params_def loop overwrite_def)
qed

text \<open>C12: the bytes of a request are three records that a FastCGI decoder reads back: BEGIN_REQUEST with the responder
  role and the keep-connection flag, PARAMS with exactly the given name-value pairs, and an empty PARAMS,
  all under the request id modulo 65536 (the wire has two bytes for it). This holds as long as the
  encoded pairs fit the 1024-byte array; beyond it the code writes past the array.\<close>

theorem fcgi_request_decodes:
  assumes inv: "buffer_inv b" and ok: "length ns = length vs" "pairs_ok (zip ns vs)"
  shows "if length (pairs_bytes (zip ns vs)) \<le> 1024
    then \<exists>b' wire body r1 r2. fcgi_request reqid ns vs b = Inr b' \<and> buffer_inv b' \<and> contents b' = contents b @ wire
      \<and> (\<forall>rest. decode_record (wire @ rest) =
              Some ((1, reqid mod 65536, [CHR 0x00, CHR 0x01, CHR 0x01, CHR 0x00, CHR 0x00, CHR 0x00, CHR 0x00, CHR 0x00]), r1 @ rest)
          \<and> decode_record (r1 @ rest) = Some ((4, reqid mod 65536, body), r2 @ rest)
          \<and> decode_record (r2 @ rest) = Some ((4, reqid mod 65536, []), rest))
      \<and> decode_pairs body = Some (zip ns vs)
    else fcgi_request reqid ns vs b = Inl Buffer_overflow"
proof -
  let ?f = "setRequestId reqid new_fcgi"
  let ?body = "pairs_bytes (zip ns vs)"
  let ?h = "\<lambda>t n. header_bytes (makeHeader t reqid n 0)"
  let ?start = "begin_body_bytes (makeBeginRequestBody FCGI_RESPONDER 1)"
  have start: "?start = [CHR 0x00, CHR 0x01, CHR 0x01, CHR 0x00, CHR 0x00, CHR 0x00, CHR 0x00, CHR 0x00]"
    by (code_simp)
  have id: "fc_requestId ?f = reqid" by (simp add: setRequestId_def)
  let ?b1 = "appended (?h FCGI_BEGIN_REQUEST 8 @ ?start) b"
  have b1: "StartRequestRecord ?f b = Inr ?b1" "buffer_inv ?b1"
    using inv by (simp_all add: StartRequestRecord_def start buf_append_Inr id)
  show ?thesis
  proof (cases "length ?body \<le> 1024")
    case False
    then have "PARAMS_BUFF_LEN < length ?body" by (simp add: fcgi_consts)
    with Params_spec(2) [OF b1(2) ok this] b1 False show ?thesis by (simp add: fcgi_request_def)
  next
    case True
    then have "length ?body \<le> PARAMS_BUFF_LEN" by (simp add: fcgi_consts)
    from Params_spec(1) [OF b1(2) ok this, of ?f] obtain b2 where
      b2: "Params ?f ns vs ?b1 = Inr b2" "buffer_inv b2"
        "contents b2 = contents ?b1 @ ?h FCGI_PARAMS (int (length ?body)) @ ?body"
      by (auto simp: id)
    let ?b3 = "appended (?h FCGI_PARAMS 0) b2"
    let ?r2 = "?h FCGI_PARAMS 0"
    let ?r1 = "?h FCGI_PARAMS (int (length ?body)) @ ?body @ ?r2"
    let ?wire = "?h FCGI_BEGIN_REQUEST 8 @ ?start @ ?r1"
    have run: "fcgi_request reqid ns vs b = Inr ?b3" "buffer_inv ?b3" "contents ?b3 = contents b @ ?wire"
      using b1 b2 inv by (simp_all add: fcgi_request_def EndRequestRecord_def buf_append_Inr id)
    have "decode_record (?wire @ rest) = Some ((1, reqid mod 65536, ?start), ?r1 @ rest)"
      "decode_record (?r1 @ rest) = Some ((4, reqid mod 65536, ?body), ?r2 @ rest)"
      "decode_record (?r2 @ rest) = Some ((4, reqid mod 65536, []), rest)" for rest
      using decode_makeHeader [of ?start 1 reqid "?r1 @ rest"] decode_makeHeader [of ?body 4 reqid "?r2 @ rest"]
        decode_makeHeader [of "[]" 4 reqid rest] True
      unfolding start by (simp_all add: fcgi_consts)
    moreover have "decode_pairs ?body = Some (zip ns vs)" using ok(2) by (rule decode_pairs_bytes)
    ultimately show ?thesis using run True unfolding start by (simp only: if_True) blast
  qed
qed

theorem fcgi_request_decodes_witness:
  "length (pairs_bytes (zip [''SCRIPT_FILENAME'', ''REQUEST_METHOD''] [''/a.php'', ''GET''])) = 42
   \<and> (\<exists>b'. fcgi_request 70000 [''SCRIPT_FILENAME'', ''REQUEST_METHOD''] [''/a.php'', ''GET''] (new_buffer 1024) = Inr b')"
proof -
  have "pairs_ok (zip [''SCRIPT_FILENAME'', ''REQUEST_METHOD''] [''/a.php'', ''GET''])" by (simp add: pairs_ok_def)
  moreover have n: "length (pairs_bytes (zip [''SCRIPT_FILENAME'', ''REQUEST_METHOD''] [''/a.php'', ''GET''])) = 42"
    by (simp add: pairs_bytes_def pair_bytes_def length_bytes_def)
  ultimately show ?thesis
    using fcgi_request_decodes [OF new_buffer_inv [of 1024], of "[''SCRIPT_FILENAME'', ''REQUEST_METHOD'']" "[''/a.php'', ''GET'']" 70000]
    by (simp only: n) auto
qed

section \<open>Replies of the application\<close>

text \<open>A reply as the application sends it: type, request id, content and padding.\<close>

record reply =
  rp_type :: int
  rp_id :: int
  rp_content :: "char list"
  rp_padding :: "char list"

definition reply_bytes :: "reply \<Rightarrow> char list" where
  "reply_bytes r =
     header_bytes (makeHeader (rp_type r) (rp_id r) (int (length (rp_content r))) (int (length (rp_padding r))))
     @ rp_content r @ rp_padding r"

definition reply_ok :: "reply \<Rightarrow> bool" where
  "reply_ok r \<longleftrightarrow> length (rp_content r) < 65536 \<and> length (rp_padding r) < 256
     \<and> 0 \<le> rp_id r \<and> rp_id r < 65536
     \<and> (rp_type r = FCGI_STDOUT \<or> rp_type r = FCGI_STDERR
        \<or> rp_type r = FCGI_END_REQUEST \<and> length (rp_content r) = 8 \<and> rp_padding r = [])"

lemma copy_from_peek_Inr:
  "buffer_inv b \<Longrightarrow> n \<le> length (contents b) \<Longrightarrow> copy_from_peek n b = Inr (take n (contents b))"
proof -
  assume inv: "buffer_inv b" and n: "n \<le> length (contents b)"
  then have r: "n \<le> readableBytes b" by (simp add: length_contents)
  then have "peek b + n \<le> length (buffer_vec b)" using inv by (auto simp: buffer_inv_def index_defs)
  then show ?thesis by (simp add: copy_from_peek_def bytes_between_take r)
qed

lemma header_fields_of_reply:
  assumes "reply_ok r"
  defines "h \<equiv> makeHeader (rp_type r) (rp_id r) (int (length (rp_content r))) (int (length (rp_padding r)))"
  shows "content_length h = length (rp_content r)" "nat (uval (fh_paddingLength h)) = length (rp_padding r)"
    "0 < uval (fh_paddingLength h) \<longleftrightarrow> rp_padding r \<noteq> []" "uval (fh_type h) = rp_type r"
    "push_bit 8 (uval (fh_requestIdB1 h)) + uval (fh_requestIdB0 h) = rp_id r"
proof -
  have m: "int (length (rp_padding r)) mod 256 = int (length (rp_padding r))"
    "int (length (rp_content r)) mod 65536 = int (length (rp_content r))"
    "rp_id r mod 65536 = rp_id r" "rp_type r mod 256 = rp_type r"
    using assms(1) by (auto simp: reply_ok_def fcgi_consts)
  note f = makeHeader_fields [where t = "rp_type r" and i = "rp_id r" and l = "int (length (rp_content r))"
        and p = "int (length (rp_padding r))", folded h_def]
  show "content_length h = length (rp_content r)" "nat (uval (fh_paddingLength h)) = length (rp_padding r)"
    "0 < uval (fh_paddingLength h) \<longleftrightarrow> rp_padding r \<noteq> []" "uval (fh_type h) = rp_type r"
    "push_bit 8 (uval (fh_requestIdB1 h)) + uval (fh_requestIdB0 h) = rp_id r"
    using f m by (simp_all only: uval_uchar nat_int of_nat_0_less_iff length_greater_0_conv of_nat_0_le_iff)
qed

lemma getRequestId_reply:
  assumes "buffer_inv b" "contents b = reply_bytes r @ rest" "reply_ok r"
  shows "getRequestId b = Inr (rp_id r)"
  using assms header_fields_of_reply(5) [OF assms(3)]
  by (simp add: getRequestId_def copy_from_peek_Inr reply_bytes_def fcgi_consts)

lemma ParseFromPhp_reply:
  assumes inv: "buffer_inv b" and cs: "contents b = reply_bytes r @ rest" and ok: "reply_ok r"
  shows "\<exists>b'. ParseFromPhp b = Inr (if rp_type r = FCGI_STDOUT then rp_content r else [], b')
      \<and> buffer_inv b' \<and> contents b' = rest"
proof -
  let ?h = "makeHeader (rp_type r) (rp_id r) (int (length (rp_content r))) (int (length (rp_padding r)))"
  let ?b1 = "retrieved 8 b"
  have b1: "retrieve 8 b = Inr ?b1" "buffer_inv ?b1" "contents ?b1 = rp_content r @ rp_padding r @ rest"
    "copy_from_peek 8 b = Inr (header_bytes ?h)"
    using inv cs by (simp_all add: retrieve_Inr copy_from_peek_Inr reply_bytes_def)
  let ?b2 = "retrieved (length (rp_content r)) ?b1"
  have b2: "retrieve (length (rp_content r)) ?b1 = Inr ?b2" "buffer_inv ?b2" "contents ?b2 = rp_padding r @ rest"
    "copy_from_peek (length (rp_content r)) ?b1 = Inr (rp_content r)"
    using b1 by (simp_all add: retrieve_Inr copy_from_peek_Inr)
  have pad: "\<exists>b3. drop_padding ?h ?b2 = Inr b3 \<and> buffer_inv b3 \<and> contents b3 = rest"
    using b2 header_fields_of_reply(2,3) [OF ok] by (auto simp: drop_padding_def retrieve_Inr)
  note hf = header_fields_of_reply(1,4) [OF ok]
  consider "rp_type r = 6" | "rp_type r = 7" | "rp_type r = 3" "length (rp_content r) = 8" "rp_padding r = []"
    using ok by (auto simp: reply_ok_def fcgi_consts)
  then show ?thesis
  proof cases
    case 3
    with b1 b2 hf show ?thesis by (simp add: ParseFromPhp_def fcgi_consts)
  qed (use b1 b2 hf pad in \<open>auto simp: ParseFromPhp_def fcgi_consts\<close>)
qed

lemma ParseFromPhp_partial:
  assumes inv: "buffer_inv b" and ok: "reply_ok r" "rp_type r \<noteq> FCGI_END_REQUEST"
    and cs: "contents b = take n (reply_bytes r)" "8 \<le> n" "n < 8 + length (rp_content r)"
  shows "\<exists>e. ParseFromPhp b = Inl e"
proof -
  let ?h = "makeHeader (rp_type r) (rp_id r) (int (length (rp_content r))) (int (length (rp_padding r)))"
  let ?b1 = "retrieved 8 b"
  have len: "length (contents b) = n" using cs by (simp add: reply_bytes_def)
  have b1: "retrieve 8 b = Inr ?b1" "buffer_inv ?b1" "length (contents ?b1) = n - 8"
    using inv len cs(2) by (simp_all add: retrieve_Inr)
  have h: "copy_from_peek 8 b = Inr (header_bytes ?h)"
    using inv len cs by (simp add: copy_from_peek_Inr reply_bytes_def)
  have short: "retrieve (length (rp_content r)) ?b1 = Inl Assert_failed"
    using b1 cs(2,3) by (intro retrieve_over) auto
  note hf = header_fields_of_reply(1,4) [OF ok(1)]
  have "rp_type r = 6 \<or> rp_type r = 7" using ok by (auto simp: reply_ok_def fcgi_consts)
  with h b1(1) short hf show ?thesis
    by (cases "copy_from_peek (length (rp_content r)) ?b1") (auto simp: ParseFromPhp_def fcgi_consts)
qed

text \<open>
  The loop of HttpServer::onCGIMessage calls the two readers as long as a header is there; this is what it
  reads, without what it does with the messages.
\<close>

fun read_replies :: "nat \<Rightarrow> buffer \<Rightarrow> ((int \<times> char list) list \<times> buffer) res" where
  "read_replies 0 b = Inr ([], b)"
| "read_replies (Suc fuel) b =
     (if FCGI_HEADER_LEN \<le> readableBytes b then
        rbind (getRequestId b) (\<lambda>i.
          rbind (ParseFromPhp b) (\<lambda>(msg, b).
            rbind (read_replies fuel b) (\<lambda>(ms, b). Inr ((i, msg) # ms, b))))
      else Inr ([], b))"

lemma length_reply_bytes: "length (reply_bytes r) = 8 + length (rp_content r) + length (rp_padding r)"
  by (simp add: reply_bytes_def)

text \<open>C13: when every record of the application has arrived in full, reading them yields each record's request id and,
  for the output records, exactly their content, for the error and the end records the empty message; the
  padding is skipped and what is left in the buffer is what came after the last record.\<close>

theorem replies_roundtrip:
  assumes "buffer_inv b" "list_all reply_ok rs" "contents b = concat (map reply_bytes rs) @ rest"
    and "length rest < 8" "length rs \<le> fuel"
  shows "\<exists>b'. read_replies fuel b =
      Inr (map (\<lambda>r. (rp_id r, if rp_type r = FCGI_STDOUT then rp_content r else [])) rs, b')
    \<and> buffer_inv b' \<and> contents b' = rest"
  using assms
proof (induction rs arbitrary: b fuel)
  case Nil
  then show ?case by (cases fuel) (simp_all add: readable_is_length fcgi_consts)
next
  case (Cons r rs)
  then obtain f where f: "fuel = Suc f" by (cases fuel) auto
  have cs: "contents b = reply_bytes r @ concat (map reply_bytes rs) @ rest" and ok: "reply_ok r"
    using Cons.prems by simp_all
  obtain b1 where b1: "ParseFromPhp b = Inr (if rp_type r = FCGI_STDOUT then rp_content r else [], b1)"
      "buffer_inv b1" "contents b1 = concat (map reply_bytes rs) @ rest"
    using ParseFromPhp_reply [OF Cons.prems(1) cs ok] by blast
  obtain b' where b': "read_replies f b1 =
      Inr (map (\<lambda>r. (rp_id r, if rp_type r = FCGI_STDOUT then rp_content r else [])) rs, b')"
      "buffer_inv b'" "contents b' = rest"
    using Cons.IH [OF b1(2) _ b1(3) Cons.prems(4), of f] Cons.prems f by auto
  have "FCGI_HEADER_LEN \<le> readableBytes b"
    using Cons.prems(1) cs by (simp add: readable_is_length length_reply_bytes fcgi_consts)
  then show ?case
    using b1 b' by (simp add: f getRequestId_reply [OF Cons.prems(1) cs ok])
qed

theorem replies_roundtrip_witness:
  "\<exists>b'. read_replies 2 (appended (reply_bytes \<lparr>rp_type = 6, rp_id = 300, rp_content = ''body'', rp_padding = ''xx''\<rparr>
        @ reply_bytes \<lparr>rp_type = 3, rp_id = 300, rp_content = ''endended'', rp_padding = []\<rparr>) (new_buffer 16))
     = Inr ([(300, ''body''), (300, [])], b')"
  using replies_roundtrip
    [of "appended (reply_bytes \<lparr>rp_type = 6, rp_id = 300, rp_content = ''body'', rp_padding = ''xx''\<rparr>
        @ reply_bytes \<lparr>rp_type = 3, rp_id = 300, rp_content = ''endended'', rp_padding = []\<rparr>) (new_buffer 16)"
      "[\<lparr>rp_type = 6, rp_id = 300, rp_content = ''body'', rp_padding = ''xx''\<rparr>,
        \<lparr>rp_type = 3, rp_id = 300, rp_content = ''endended'', rp_padding = []\<rparr>]" "[]" 2]
  by (auto simp: reply_ok_def fcgi_consts)



end
