(* ===== verification/HttpServer.thy ===== *)
theory HttpServer
  imports TcpConnection StaticFile FastCgi
begin

text \<open>
  http/HttpServer.h and http/HttpServer.cc: the requests of the connections, the list of connections
  by the time they were last heard of, and the bridge to the FastCGI application. Everything runs in
  one loop (with several threads the code shares the list and the table between them without a
  lock). A weak pointer to a connection is its number; it locks while \<open>hs_conns\<close> has a connection
  there. The handler of the site, the kernel's answers to write(2) and the clock are arguments.
\<close>

section \<open>State\<close>

record http_server =
  hs_timeOut :: int
  hs_list :: "nat list"
  hs_conns :: "nat \<Rightarrow> tcp_conn option"
  hs_cgiConn :: "nat option"
  hs_reqCgiId :: "32 word"
  hs_connMap :: "(int, nat option) std_map"

definition new_http_server :: "int \<Rightarrow> http_server" where
  "new_http_server expiration =
     \<lparr>hs_timeOut = expiration, hs_list = [], hs_conns = Map.empty, hs_cgiConn = None,
      hs_reqCgiId = 0, hs_connMap = []\<rparr>"

type_synonym kernel_write = "char list \<Rightarrow> write_result"

type_synonym site = "http_request \<Rightarrow> http_response \<Rightarrow> http_response"

text \<open>The default callback.\<close>

definition defaultHttpCallback :: site where
  "defaultHttpCallback req resp = setCloseConnection True (setStatusMessage ''Not Found'' (setStatusCode k404NotFound resp))"

definition put_conn :: "nat \<Rightarrow> tcp_conn \<Rightarrow> http_server \<Rightarrow> http_server" where
  "put_conn i c s = s\<lparr>hs_conns := (hs_conns s)(i := Some c)\<rparr>"

section \<open>Connections\<close>

text \<open>
  onConnection, for a connection that is up and for one that is down. A node of the list is identified
  by the connection it was made for; erasing through an iterator that was never set, or whose node
  is gone, is a fault.
\<close>

definition erase_node :: "nat option \<Rightarrow> http_server \<Rightarrow> http_server res" where
  "erase_node pos s =
     (case pos of
        None \<Rightarrow> Inl Uninitialised
      | Some n \<Rightarrow> if n \<in> set (hs_list s) then Inr (s\<lparr>hs_list := remove1 n (hs_list s)\<rparr>) else Inl Out_of_range)"

definition hs_onConnection :: "timestamp \<Rightarrow> nat \<Rightarrow> tcp_conn \<Rightarrow> http_server \<Rightarrow> http_server res" where
  "hs_onConnection now i c s =
     (if connected c then
        (let context = setLastReceiveTime now new_context;
             s = s\<lparr>hs_list := hs_list s @ [i]\<rparr>;
             context = setPostion i context
         in Inr (put_conn i (setContext context c) s))
      else rbind (erase_node (cx_position (tc_context c)) s) (\<lambda>s. Inr (put_conn i c s)))"

text \<open>\<open>splice(end, list, position)\<close>.\<close>

definition splice_to_end :: "nat option \<Rightarrow> http_server \<Rightarrow> http_server res" where
  "splice_to_end pos s =
     (case pos of
        None \<Rightarrow> Inl Uninitialised
      | Some n \<Rightarrow> if n \<in> set (hs_list s) then Inr (s\<lparr>hs_list := remove1 n (hs_list s) @ [n]\<rparr>) else Inl Out_of_range)"

section \<open>The FastCGI side\<close>

definition hs_WEB_PATH :: "char list" where
  "hs_WEB_PATH = ''/home/xibaohe/ServerCode/chenshuo/muduo_11/muduo/http/web''"

definition the_conn :: "nat \<Rightarrow> http_server \<Rightarrow> tcp_conn res" where
  "the_conn i s = (case hs_conns s i of None \<Rightarrow> Inl Null_pointer | Some c \<Rightarrow> Inr c)"

definition server_cgi :: "kernel_write \<Rightarrow> http_request \<Rightarrow> int \<Rightarrow> nat \<Rightarrow> http_server \<Rightarrow> http_server res" where
  "server_cgi w req reqid i s =
     (let (reqid, s) =
        (if reqid = 0 then
           (let new = hs_reqCgiId s + 1; reqid = sint new
            in (reqid, s\<lparr>hs_reqCgiId := new, hs_connMap := map_put reqid (Some i) (hs_connMap s)\<rparr>))
         else (reqid, s));
          fcgi = setRequestId reqid new_fcgi;
          filename = hs_WEB_PATH @ rq_path req;
          name = [''SCRIPT_FILENAME'', ''REQUEST_METHOD''];
          value = [filename, methodString (rq_method req)]
      in rbind (StartRequestRecord fcgi (new_buffer kInitialSize)) (\<lambda>buf.
           rbind (Params fcgi name value buf) (\<lambda>buf.
             rbind (EndRequestRecord fcgi buf) (\<lambda>buf.
               case hs_cgiConn s of
                 None \<Rightarrow> Inl Null_pointer
               | Some k \<Rightarrow>
                   rbind (the_conn k s) (\<lambda>cgi.
                     if connected cgi
                     then rbind (send_buffer w buf cgi) (\<lambda>(buf, cgi). Inr (put_conn k cgi s))
                     else Inr s)))))"

definition hs_onCGIConnection :: "kernel_write \<Rightarrow> nat \<Rightarrow> tcp_conn \<Rightarrow> http_server \<Rightarrow> http_server res" where
  "hs_onCGIConnection w k c s =
     (if connected c then
        rbind (StartRequestRecord new_fcgi (new_buffer kInitialSize)) (\<lambda>buf.
          rbind (Params new_fcgi [''SCRIPT_FILENAME'', ''REQUEST_METHOD'']
                   [''/home/xibaohe/ServerCode/chenshuo/muduo_11/muduo/http/web/cgi-bin/info.php'', ''GET''] buf) (\<lambda>buf.
            rbind (EndRequestRecord new_fcgi buf) (\<lambda>buf.
              rbind (send_buffer w buf c) (\<lambda>(buf, c). Inr (put_conn k c (s\<lparr>hs_cgiConn := Some k\<rparr>))))))
      else Inr (put_conn k c s))"

text \<open>
  parseFromcgi. \<open>find\<close> looks from position \<open>l\<close> on; the text is \<open>msg\<close>. One round reads the line that
  starts at \<open>l\<close>: \<open>Inl\<close> when the loop is left, with the \<open>n\<close> it leaves with (\<open>None\<close> for npos).
\<close>

definition find_from :: "char list \<Rightarrow> char list \<Rightarrow> nat \<Rightarrow> nat option" where
  "find_from pat msg l = map_option (\<lambda>i. l + i) (std_search pat (drop l msg))"

definition substring :: "char list \<Rightarrow> nat \<Rightarrow> nat \<Rightarrow> char list res" where
  "substring msg from to = (if from \<le> to \<and> to \<le> length msg then Inr (take (to - from) (drop from msg)) else Inl Out_of_range)"

definition cgi_header :: "char list \<Rightarrow> nat \<Rightarrow> nat \<Rightarrow> nat \<Rightarrow> bool \<times> http_response \<Rightarrow> (bool \<times> http_response) res" where
  "cgi_header msg l cl n er =
     assert_c (l < cl \<and> cl < n)
      (rbind (substring msg l cl) (\<lambda>name.
        rbind (substring msg (cl + 2) n) (\<lambda>value.
          let (error, resp) = er;
              (error, resp) = (if name = ''Status'' \<and> value = ''404 Not Found''
                then (True, setStatusMessage ''Not Found'' (setStatusCode k404NotFound resp)) else (error, resp))
          in Inr (error, resp_addHeader name value resp))))"

function cgi_loop :: "char list \<Rightarrow> nat \<Rightarrow> bool \<times> http_response \<Rightarrow> (nat option \<times> nat \<times> bool \<times> http_response) res" where
  "cgi_loop msg l er =
     (case find_from kCRLF msg l of
        None \<Rightarrow> Inr (None, l, er)
      | Some n \<Rightarrow>
          (case find_from '':'' msg l of
             Some cl \<Rightarrow> rbind (cgi_header msg l cl n er) (cgi_loop msg (n + 2))
           | None \<Rightarrow> Inr (Some n, l, er)))"
  by pat_completeness auto
termination
  by (relation "measure (\<lambda>(msg, l, er). length msg + 1 - l)")
    (auto simp: find_from_def kCRLF_def dest!: std_search_SomeD)

declare cgi_loop.simps [simp del]

definition parseFromcgi :: "char list \<Rightarrow> http_response \<Rightarrow> http_response res" where
  "parseFromcgi msg resp =
     rbind (cgi_loop msg 0 (False, resp)) (\<lambda>(n, l, error, resp).
       assert_c (n = Some l)
        (rbind (substring msg (l + 2) (length msg)) (\<lambda>content.
          let resp = resp_setBody content resp;
              resp = (if \<not> error then setStatusMessage ''OK'' (setStatusCode k200Ok resp) else resp)
          in Inr (resp_addHeader ''Server'' ''Muduo'' resp))))"

text \<open>One message of the application, for the connection its request id stands for.\<close>

definition cgi_deliver :: "kernel_write \<Rightarrow> int \<Rightarrow> char list \<Rightarrow> http_server \<Rightarrow> http_server res" where
  "cgi_deliver w requestid msg s =
     (if requestid = 0 \<or> length msg = 0 then Inr s
      else let s = (if map_of (hs_connMap s) requestid = None
                    then s\<lparr>hs_connMap := map_put requestid None (hs_connMap s)\<rparr> else s);
               lock = (case map_of (hs_connMap s) requestid of Some (Some i) \<Rightarrow> map_option (Pair i) (hs_conns s i) | _ \<Rightarrow> None)
           in case lock of
                None \<Rightarrow> Inr (s\<lparr>hs_connMap := map_erase requestid (hs_connMap s)\<rparr>)
              | Some (i, c) \<Rightarrow>
                  rbind (getClose (tc_context c)) (\<lambda>close.
                    rbind (parseFromcgi msg (new_response close)) (\<lambda>response.
                      rbind (appendToBuffer response (new_buffer kInitialSize)) (\<lambda>buf.
                        rbind (send_buffer w buf c) (\<lambda>(buf, c). Inr (put_conn i c s))))))"

fun hs_onCGIMessage :: "nat \<Rightarrow> kernel_write \<Rightarrow> buffer \<Rightarrow> http_server \<Rightarrow> (buffer \<times> http_server) res" where
  "hs_onCGIMessage 0 w buf s = Inr (buf, s)"
| "hs_onCGIMessage (Suc fuel) w buf s =
     (if FCGI_HEADER_LEN \<le> readableBytes buf then
        rbind (getRequestId buf) (\<lambda>requestid.
          rbind (ParseFromPhp buf) (\<lambda>(msg, buf).
            rbind (cgi_deliver w requestid msg s) (hs_onCGIMessage fuel w buf)))
      else Inr (buf, s))"

section \<open>Requests\<close>

definition keep_or_close :: "http_request \<Rightarrow> bool" where
  "keep_or_close req =
     (let connection = getHeader ''Connection'' req
      in connection = ''close'' \<or> (rq_version req = kHttp10 \<and> connection \<noteq> ''Keep-Alive''))"

definition hs_onRequest :: "site \<Rightarrow> kernel_write \<Rightarrow> nat \<Rightarrow> http_request \<Rightarrow> http_server \<Rightarrow> http_server res" where
  "hs_onRequest site w i req s =
     rbind (the_conn i s) (\<lambda>c.
       let close = keep_or_close req;
           c = setContext (setClose close (tc_context c)) c;
           response = new_response close
       in rbind
           (if std_search ''cgi-bin'' (rq_path req) = None then
              (let response = site req response
               in rbind (appendToBuffer response (new_buffer kInitialSize)) (\<lambda>buf.
                    rbind (send_buffer w buf c) (\<lambda>(buf, c). Inr (response, put_conn i c s))))
            else
              (let reqid = cx_cgiRequestId (tc_context c)
               in rbind (server_cgi w req reqid i (put_conn i c s)) (\<lambda>s. Inr (response, s))))
           (\<lambda>(response, s).
              if rs_closeConnection response
              then rbind (the_conn i s) (\<lambda>c. Inr (put_conn i (shutdown c) s))
              else Inr s))"

definition bad_request :: "char list" where
  "bad_request = ''HTTP/1.1 400 Bad Request'' @ kCRLF @ kCRLF"

text \<open>onMessage for connection \<open>i\<close>, whose input buffer is the argument \<open>buf\<close> of the callback.\<close>

definition hs_onMessage :: "site \<Rightarrow> kernel_write \<Rightarrow> timestamp \<Rightarrow> nat \<Rightarrow> http_server \<Rightarrow> http_server res option" where
  "hs_onMessage site w receiveTime i s =
     (case hs_conns s i of
        None \<Rightarrow> Some (Inl Null_pointer)
      | Some c \<Rightarrow>
          (let context = setLastReceiveTime receiveTime (tc_context c)
           in case splice_to_end (cx_position context) s of
                Inl e \<Rightarrow> Some (Inl e)
              | Inr s \<Rightarrow>
                  if cx_position context \<noteq> Some (last (hs_list s)) then Some (Inl Assert_failed)
                  else (case parseRequest receiveTime context (tc_in c) of
                          None \<Rightarrow> None
                        | Some (Inl e) \<Rightarrow> Some (Inl e)
                        | Some (Inr (ok, context, buf)) \<Rightarrow>
                            Some (let c = setContext context (c\<lparr>tc_in := buf\<rparr>)
                                  in rbind (if ok then Inr c else rbind (send w bad_request c) (\<lambda>c. Inr (shutdown c)))
                                      (\<lambda>c. let s = put_conn i c s
                                           in if gotAll (tc_context c) then
                                                rbind (hs_onRequest site w i (cx_request (tc_context c)) s) (\<lambda>s.
                                                  rbind (the_conn i s) (\<lambda>c.
                                                    Inr (put_conn i (setContext (ctx_reset (tc_context c)) c) s)))
                                              else Inr s)))))"

section \<open>Kicking out idle connections\<close>

text \<open>The loop of onCheckTimer over the rest of the list; the nodes already passed are in \<open>kept\<close>.\<close>

fun check_loop :: "timestamp \<Rightarrow> nat list \<Rightarrow> nat list \<Rightarrow> http_server \<Rightarrow> http_server" where
  "check_loop now kept [] s = s\<lparr>hs_list := kept\<rparr>"
| "check_loop now kept (i # rest) s =
     (case hs_conns s i of
        None \<Rightarrow> check_loop now kept rest s
      | Some c \<Rightarrow>
          (let age = timeDifference now (cx_lastReceiveTime (tc_context c))
           in if of_int (hs_timeOut s) < age then
                check_loop now (kept @ [i]) rest
                  (if connected c then put_conn i (forceCloseWithDelay (7 / 2) (shutdown c)) s else s)
              else if age < 0 then
                check_loop now (kept @ [i]) rest (put_conn i (setContext (setLastReceiveTime now (tc_context c)) c) s)
              else s\<lparr>hs_list := kept @ i # rest\<rparr>))"

definition onCheckTimer :: "timestamp \<Rightarrow> http_server \<Rightarrow> http_server" where
  "onCheckTimer now s = check_loop now [] (hs_list s) s"

section \<open>The list stays in the order of the last messages\<close>

abbreviation heard :: "tcp_conn \<Rightarrow> timestamp" where
  "heard c \<equiv> cx_lastReceiveTime (tc_context c)"

definition heard_of :: "http_server \<Rightarrow> nat \<Rightarrow> timestamp" where
  "heard_of s i = (case hs_conns s i of Some c \<Rightarrow> heard c | None \<Rightarrow> invalid_ts)"

text \<open>Every node of the list is a live connection whose context points back at it, heard of in the order of the list, and not after \<open>now\<close>.\<close>

definition hs_inv :: "timestamp \<Rightarrow> http_server \<Rightarrow> bool" where
  "hs_inv now s \<longleftrightarrow>
     distinct (hs_list s)
     \<and> (\<forall>i \<in> set (hs_list s). \<exists>c. hs_conns s i = Some c \<and> cx_position (tc_context c) = Some i \<and> heard c \<le> now)
     \<and> sorted_wrt (\<lambda>i j. heard_of s i \<le> heard_of s j) (hs_list s)"

text \<open>A change of the server that leaves the list and what it rests on alone.\<close>

definition ctx_keeps :: "http_context \<Rightarrow> http_context \<Rightarrow> bool" where
  "ctx_keeps c c' \<longleftrightarrow> cx_lastReceiveTime c' = cx_lastReceiveTime c \<and> cx_position c' = cx_position c"

definition hs_keeps :: "http_server \<Rightarrow> http_server \<Rightarrow> bool" where
  "hs_keeps s s' \<longleftrightarrow> hs_list s' = hs_list s \<and> hs_timeOut s' = hs_timeOut s
     \<and> (\<forall>i. rel_option (\<lambda>c c'. ctx_keeps (tc_context c) (tc_context c')) (hs_conns s i) (hs_conns s' i))"

lemma ctx_keeps_refl [simp]: "ctx_keeps c c"
  by (simp add: ctx_keeps_def)

lemma ctx_keeps_trans: "ctx_keeps a b \<Longrightarrow> ctx_keeps b c \<Longrightarrow> ctx_keeps a c"
  by (simp add: ctx_keeps_def)

lemma hs_keeps_refl [simp]: "hs_keeps s s"
  by (simp add: hs_keeps_def option.rel_refl)

lemma rel_option_keeps_trans:
  "rel_option (\<lambda>c c'. ctx_keeps (tc_context c) (tc_context c')) x y \<Longrightarrow>
   rel_option (\<lambda>c c'. ctx_keeps (tc_context c) (tc_context c')) y z \<Longrightarrow>
   rel_option (\<lambda>c c'. ctx_keeps (tc_context c) (tc_context c')) x z"
  by (cases x; cases y; cases z) (auto intro: ctx_keeps_trans)

lemma hs_keeps_trans: "hs_keeps a b \<Longrightarrow> hs_keeps b c \<Longrightarrow> hs_keeps a c"
  unfolding hs_keeps_def using rel_option_keeps_trans [of "hs_conns a i" "hs_conns b i" "hs_conns c i" for i] by simp

lemma hs_keeps_put:
  "hs_conns s i = Some c \<Longrightarrow> ctx_keeps (tc_context c) (tc_context c') \<Longrightarrow> hs_keeps s (put_conn i c' s)"
  by (auto simp: hs_keeps_def put_conn_def option.rel_refl)

lemma hs_keeps_fields: "hs_keeps s (s\<lparr>hs_reqCgiId := x, hs_connMap := y\<rparr>)" "hs_keeps s (s\<lparr>hs_cgiConn := z\<rparr>)"
  by (simp_all add: hs_keeps_def option.rel_refl)

lemma hs_keeps_inv: "hs_inv now s \<Longrightarrow> hs_keeps s s' \<Longrightarrow> hs_inv now s'"
proof -
  assume inv: "hs_inv now s" and k: "hs_keeps s s'"
  have "\<exists>c'. hs_conns s' i = Some c' \<and> ctx_keeps (tc_context c) (tc_context c')" if "hs_conns s i = Some c" for i c
    using k that by (auto simp: hs_keeps_def dest!: spec [of _ i] elim: option.rel_cases)
  moreover have "heard_of s' i = heard_of s i" for i
    using k by (auto simp: hs_keeps_def heard_of_def ctx_keeps_def dest!: spec [of _ i] split: option.splits)
  ultimately show ?thesis
    using inv k by (auto simp: hs_inv_def hs_keeps_def ctx_keeps_def) (metis)
qed

text \<open>Sending and shutting down do not touch the context, parsing not these parts of it.\<close>

lemma sendInLoop_context: "sendInLoop w m c = Inr c' \<Longrightarrow> tc_context c' = tc_context c"
  by (auto simp: sendInLoop_def try_write_def Let_def rbind_Inr_iff assert_c_Inr_iff split: if_splits prod.splits write_result.splits)

lemma send_context: "send w m c = Inr c' \<Longrightarrow> tc_context c' = tc_context c"
  using sendInLoop_context by (auto simp: send_def split: if_splits)

lemma send_buffer_context: "send_buffer w b c = Inr (b', c') \<Longrightarrow> tc_context c' = tc_context c"
  using sendInLoop_context by (auto simp: send_buffer_def rbind_Inr_iff split: if_splits)

lemma shutdown_context [simp]: "tc_context (shutdown c) = tc_context c"
  by (simp add: shutdown_def shutdownInLoop_def setState_def)

lemma forceCloseWithDelay_context [simp]: "tc_context (forceCloseWithDelay d c) = tc_context c"
  by (simp add: forceCloseWithDelay_def setState_def)

lemma parse_round_keeps: "parse_round t v = Inr (h, ok, v') \<Longrightarrow> ctx_keeps (fst v) (fst v')"
  by (auto simp: parse_round_def parse_request_line_def parse_header_line_def parse_body_def rbind_Inr_iff Let_def ctx_keeps_def
      split: parse_state.splits option.splits if_splits prod.splits)

lemma parse_loop_keeps:
  assumes "parse_loop t v = Some r"
  shows "\<forall>ok c' b'. r = Inr (ok, c', b') \<longrightarrow> ctx_keeps (fst v) c'"
proof (rule parse_loop.raw_induct [OF _ assms])
  fix f t v r
  assume ih: "\<And>t v r. f t v = Some r \<Longrightarrow> \<forall>ok c' b'. r = Inr (ok, c', b') \<longrightarrow> ctx_keeps (fst v) c'"
    and body: "(case parse_round t v of Inl e \<Rightarrow> Some (Inl e)
      | Inr q \<Rightarrow> if fst q then f t (snd (snd q)) else Some (Inr (fst (snd q), fst (snd (snd q)), fst (snd (snd (snd q)))))) = Some r"
  show "\<forall>ok c' b'. r = Inr (ok, c', b') \<longrightarrow> ctx_keeps (fst v) c'"
  proof (cases "parse_round t v")
    case (Inr q)
    then have k: "ctx_keeps (fst v) (fst (snd (snd q)))" using parse_round_keeps by (metis prod.collapse)
    show ?thesis
    proof (cases "fst q")
      case True
      then have "f t (snd (snd q)) = Some r" using body Inr by simp
      from ih [OF this] k show ?thesis by (blast intro: ctx_keeps_trans)
    qed (use body Inr k in auto)
  qed (use body in auto)
qed

lemma parseRequest_keeps: "parseRequest t c b = Some (Inr (ok, c', b')) \<Longrightarrow> ctx_keeps c c'"
  using parse_loop_keeps [of t "(c, b, None)"] by (simp add: parseRequest_def)

lemma the_conn_Inr: "the_conn i s = Inr c \<longleftrightarrow> hs_conns s i = Some c"
  by (simp add: the_conn_def split: option.split)

lemma server_cgi_keeps: "server_cgi w req reqid i s = Inr s' \<Longrightarrow> hs_keeps s s'"
proof -
  assume a: "server_cgi w req reqid i s = Inr s'"
  define s1 where "s1 = (if reqid = 0 then s\<lparr>hs_reqCgiId := hs_reqCgiId s + 1,
      hs_connMap := map_put (sint (hs_reqCgiId s + 1)) (Some i) (hs_connMap s)\<rparr> else s)"
  have k1: "hs_keeps s s1" by (simp add: s1_def hs_keeps_fields)
  have "hs_keeps s1 s'"
    using a unfolding server_cgi_def Let_def
    by (auto simp: s1_def rbind_Inr_iff the_conn_Inr hs_keeps_put send_buffer_context split: if_splits option.splits)
  with k1 show ?thesis by (rule hs_keeps_trans)
qed

lemma hs_onRequest_keeps:
  assumes "hs_onRequest site w i req s = Inr s'"
  shows "hs_keeps s s'"
proof -
  obtain c where c: "hs_conns s i = Some c" using assms by (auto simp: hs_onRequest_def rbind_Inr_iff the_conn_Inr)
  let ?c = "setContext (setClose (keep_or_close req) (tc_context c)) c"
  have kc: "ctx_keeps (tc_context c) (tc_context ?c)" by (simp add: setContext_def setClose_def ctx_keeps_def)
  have site: "hs_keeps s (put_conn i c' s)" if "send_buffer w b ?c = Inr (b', c')" for b b' c'
    using hs_keeps_put [OF c] kc send_buffer_context [OF that] by simp
  have cgi: "hs_keeps s s1" if "server_cgi w req r i (put_conn i ?c s) = Inr s1" for r s1
    using hs_keeps_trans [OF hs_keeps_put [OF c kc] server_cgi_keeps [OF that]] .
  have fin: "hs_keeps s s2"
    if "(if rs_closeConnection r then rbind (the_conn i s1) (\<lambda>c. Inr (put_conn i (shutdown c) s1)) else Inr s1) = Inr s2"
      "hs_keeps s s1" for r s1 s2
    using that hs_keeps_put [of s1 i _ "shutdown _"] hs_keeps_trans
    by (auto simp: rbind_Inr_iff the_conn_Inr split: if_splits)
  have fin': "hs_keeps s (put_conn i (shutdown x) s1)" if "hs_keeps s s1" "hs_conns s1 i = Some x" for s1 x
    using hs_keeps_trans [OF that(1) hs_keeps_put [OF that(2)]] by simp
  show ?thesis
    using assms unfolding hs_onRequest_def
    by (auto simp: rbind_Inr_iff the_conn_Inr c Let_def split: if_splits dest!: site cgi intro: fin fin')
qed

lemma hs_inv_mono: "hs_inv now s \<Longrightarrow> now \<le> t \<Longrightarrow> hs_inv t s"
  by (fastforce simp: hs_inv_def)

lemma sorted_wrt_remove1: "sorted_wrt R xs \<Longrightarrow> sorted_wrt R (remove1 x xs)"
  by (induction xs) (use set_remove1_subset in fastforce)+

text \<open>A connection heard of now goes to the end of the list.\<close>

lemma hs_inv_to_end:
  assumes inv: "hs_inv now s" and t: "now \<le> t"
    and ctx: "cx_lastReceiveTime (tc_context c') = t" "cx_position (tc_context c') = Some i"
  shows "hs_inv t (put_conn i c' (s\<lparr>hs_list := remove1 i (hs_list s) @ [i]\<rparr>))"
proof -
  let ?s = "put_conn i c' (s\<lparr>hs_list := remove1 i (hs_list s) @ [i]\<rparr>)"
  have d: "distinct (hs_list s)" using inv by (simp add: hs_inv_def)
  then have set: "set (remove1 i (hs_list s)) = set (hs_list s) - {i}" by (simp add: set_remove1_eq)
  have h: "heard_of ?s j = (if j = i then t else heard_of s j)" for j
    using ctx by (simp add: heard_of_def put_conn_def)
  have old: "heard_of s j \<le> t" if "j \<in> set (hs_list s)" for j
    using inv that t by (auto simp: hs_inv_def heard_of_def split: option.split intro: order_trans)
  have "sorted_wrt (\<lambda>i j. heard_of s i \<le> heard_of s j) (remove1 i (hs_list s))"
    using inv by (simp add: hs_inv_def sorted_wrt_remove1)
  then have "sorted_wrt (\<lambda>i j. heard_of ?s i \<le> heard_of ?s j) (remove1 i (hs_list s))"
    by (rule sorted_wrt_mono_rel [rotated]) (use set in \<open>auto simp: h\<close>)
  moreover have "heard_of ?s j \<le> heard_of ?s i" if "j \<in> set (remove1 i (hs_list s))" for j
    using old [of j] that by (simp add: h set)
  ultimately have "sorted_wrt (\<lambda>i j. heard_of ?s i \<le> heard_of ?s j) (hs_list ?s)"
    by (simp add: sorted_wrt_append put_conn_def)
  moreover have "distinct (hs_list ?s)" "set (hs_list ?s) = insert i (set (hs_list s))"
    using d set by (auto simp: put_conn_def)
  moreover have "\<exists>c. hs_conns ?s j = Some c \<and> cx_position (tc_context c) = Some j \<and> heard c \<le> t"
    if "j \<in> insert i (set (hs_list s))" for j
    using inv that ctx t by (fastforce simp: hs_inv_def put_conn_def)
  ultimately show ?thesis unfolding hs_inv_def by blast
qed

lemma remove1_absent: "i \<notin> set xs \<Longrightarrow> remove1 i xs = xs"
  by (induction xs) auto

lemma hs_onConnection_up:
  assumes "hs_inv now s" "now \<le> t" "i \<notin> set (hs_list s)" "connected c" "hs_onConnection t i c s = Inr s'"
  shows "hs_inv t s'"
proof -
  have "s' = put_conn i (setContext (setPostion i (setLastReceiveTime t new_context)) c)
      (s\<lparr>hs_list := remove1 i (hs_list s) @ [i]\<rparr>)"
    using assms(3-5) by (simp add: hs_onConnection_def remove1_absent)
  then show ?thesis
    using hs_inv_to_end [OF assms(1,2)] by (simp add: setContext_def setPostion_def setLastReceiveTime_def)
qed

lemma hs_onConnection_down:
  assumes "hs_inv now s" "now \<le> t" "hs_conns s i = Some c0" "i \<in> set (hs_list s)" "tc_context c = tc_context c0"
    "\<not> connected c" "hs_onConnection t i c s = Inr s'"
  shows "hs_inv t s' \<and> hs_list s' = remove1 i (hs_list s)"
proof -
  have pos: "cx_position (tc_context c) = Some i" using assms(1,3-5) by (auto simp: hs_inv_def)
  then have s': "s' = put_conn i c (s\<lparr>hs_list := remove1 i (hs_list s)\<rparr>)"
    using assms(4,6,7) by (auto simp: hs_onConnection_def erase_node_def)
  have d: "distinct (hs_list s)" using assms(1) by (simp add: hs_inv_def)
  then have set: "set (remove1 i (hs_list s)) = set (hs_list s) - {i}" by (simp add: set_remove1_eq)
  have h: "heard_of s' j = heard_of s j" if "j \<noteq> i" for j using that by (simp add: s' heard_of_def put_conn_def)
  have "sorted_wrt (\<lambda>i j. heard_of s i \<le> heard_of s j) (remove1 i (hs_list s))"
    using assms(1) by (simp add: hs_inv_def sorted_wrt_remove1)
  then have "sorted_wrt (\<lambda>i j. heard_of s' i \<le> heard_of s' j) (remove1 i (hs_list s))"
    by (rule sorted_wrt_mono_rel [rotated]) (use set h in auto)
  then have "hs_inv now s'" using assms(1) set d by (auto simp: hs_inv_def s') (auto simp: put_conn_def)
  then show ?thesis using hs_inv_mono [OF _ assms(2)] by (simp add: s' put_conn_def)
qed

lemma hs_onMessage_inv:
  assumes inv: "hs_inv now s" and t: "now \<le> t" and i: "i \<in> set (hs_list s)"
    and run: "hs_onMessage site w t i s = Some (Inr s')"
  shows "hs_inv t s'"
proof -
  obtain c where c: "hs_conns s i = Some c" "cx_position (tc_context c) = Some i"
    using inv i by (auto simp: hs_inv_def)
  let ?ctx = "setLastReceiveTime t (tc_context c)"
  let ?s0 = "s\<lparr>hs_list := remove1 i (hs_list s) @ [i]\<rparr>"
  have splice: "splice_to_end (cx_position ?ctx) s = Inr ?s0"
    using c(2) i by (simp add: splice_to_end_def setLastReceiveTime_def)
  from run c(1) splice obtain ok ctx buf c2 where
    p: "parseRequest t ?ctx (tc_in c) = Some (Inr (ok, ctx, buf))"
    and c2: "(if ok then Inr (setContext ctx (c\<lparr>tc_in := buf\<rparr>))
        else rbind (send w bad_request (setContext ctx (c\<lparr>tc_in := buf\<rparr>))) (\<lambda>c. Inr (shutdown c))) = Inr c2"
    and fin: "(if gotAll (tc_context c2) then
          rbind (hs_onRequest site w i (cx_request (tc_context c2)) (put_conn i c2 ?s0)) (\<lambda>s.
            rbind (the_conn i s) (\<lambda>c. Inr (put_conn i (setContext (ctx_reset (tc_context c)) c) s)))
        else Inr (put_conn i c2 ?s0)) = Inr s'"
    by (auto simp: hs_onMessage_def Let_def rbind_Inr_iff split: if_splits option.splits sum.splits)
  have "tc_context c2 = ctx"
    using c2 send_context by (auto simp: rbind_Inr_iff setContext_def split: if_splits)
  then have k: "cx_lastReceiveTime (tc_context c2) = t" "cx_position (tc_context c2) = Some i"
    using parseRequest_keeps [OF p] c(2) by (simp_all add: ctx_keeps_def setLastReceiveTime_def)
  from hs_inv_to_end [OF inv t k] have inv2: "hs_inv t (put_conn i c2 ?s0)" .
  show ?thesis
  proof (cases "gotAll (tc_context c2)")
    case True
    then obtain s3 c3 where s3: "hs_onRequest site w i (cx_request (tc_context c2)) (put_conn i c2 ?s0) = Inr s3"
      "hs_conns s3 i = Some c3" "s' = put_conn i (setContext (ctx_reset (tc_context c3)) c3) s3"
      using fin by (auto simp: rbind_Inr_iff the_conn_Inr)
    have "hs_keeps s3 s'" unfolding s3(3)
      by (rule hs_keeps_put [OF s3(2)]) (simp add: ctx_keeps_def setContext_def ctx_reset_def Let_def)
    then show ?thesis using hs_keeps_inv [OF inv2] hs_onRequest_keeps [OF s3(1)] hs_keeps_trans by blast
  qed (use fin inv2 in simp)
qed

text \<open>
  The loop over the list: with the list in order, it kicks out a first part of the list and stops
  at the first connection that is still young.
\<close>

definition kick :: "tcp_conn \<Rightarrow> tcp_conn" where
  "kick c = (if connected c then forceCloseWithDelay (7 / 2) (shutdown c) else c)"

definition overdue :: "timestamp \<Rightarrow> http_server \<Rightarrow> nat \<Rightarrow> bool" where
  "overdue now s i \<longleftrightarrow> of_int (hs_timeOut s) < timeDifference now (heard_of s i)"

definition kick_all :: "nat set \<Rightarrow> http_server \<Rightarrow> http_server" where
  "kick_all I s = s\<lparr>hs_conns := (\<lambda>i. if i \<in> I then map_option kick (hs_conns s i) else hs_conns s i)\<rparr>"

lemma kick_context [simp]: "tc_context (kick c) = tc_context c"
  by (simp add: kick_def)

lemma kick_all_keeps: "hs_keeps s (kick_all I s)"
  by (simp add: kick_all_def hs_keeps_def option.rel_map option.rel_refl)

lemma put_conn_same: "hs_conns s i = Some c \<Longrightarrow> put_conn i c s = s"
  by (simp add: put_conn_def fun_upd_idem)

lemma check_loop_spec:
  assumes "distinct rest" "\<forall>i \<in> set rest. \<exists>c. hs_conns s i = Some c \<and> 0 \<le> timeDifference now (heard c)"
  shows "check_loop now kept rest s = (kick_all (set (takeWhile (overdue now s) rest)) s)\<lparr>hs_list := kept @ rest\<rparr>"
  using assms
proof (induction rest arbitrary: kept s)
  case Nil
  then show ?case by (simp add: kick_all_def)
next
  case (Cons i rest)
  then obtain c where c: "hs_conns s i = Some c" "0 \<le> timeDifference now (heard c)" by auto
  show ?case
  proof (cases "overdue now s i")
    case False
    then show ?thesis using c by (simp add: overdue_def heard_of_def kick_all_def)
  next
    case True
    let ?s = "put_conn i (kick c) s"
    have same: "overdue now ?s j = overdue now s j" for j
      using c by (simp add: overdue_def heard_of_def put_conn_def)
    have "check_loop now kept (i # rest) s = check_loop now (kept @ [i]) rest ?s"
      using True c by (simp add: overdue_def heard_of_def kick_def put_conn_same)
    also have "\<dots> = (kick_all (set (takeWhile (overdue now s) rest)) ?s)\<lparr>hs_list := kept @ i # rest\<rparr>"
      using Cons.IH [of ?s "kept @ [i]"] Cons.prems same by (auto simp: put_conn_def)
    also have "kick_all (set (takeWhile (overdue now s) rest)) ?s = kick_all (set (takeWhile (overdue now s) (i # rest))) s"
    proof -
      have "(\<lambda>j. if j \<in> set (takeWhile (overdue now s) rest) then map_option kick (hs_conns ?s j) else hs_conns ?s j)
          = (\<lambda>j. if j \<in> set (takeWhile (overdue now s) (i # rest)) then map_option kick (hs_conns s j) else hs_conns s j)"
        using True c Cons.prems(1) by (auto simp: put_conn_def fun_eq_iff dest: set_takeWhileD)
      then show ?thesis by (simp only: kick_all_def) (simp add: put_conn_def)
    qed
    finally show ?thesis .
  qed
qed

lemma takeWhile_sorted:
  "sorted_wrt (\<lambda>x y. P y \<longrightarrow> P x) xs \<Longrightarrow> set (takeWhile P xs) = {x \<in> set xs. P x}"
  by (induction xs) auto

lemma onCheckTimer_spec:
  assumes inv: "hs_inv now s"
  shows "onCheckTimer now s = kick_all {i \<in> set (hs_list s). overdue now s i} s"
proof -
  have old: "\<forall>i \<in> set (hs_list s). \<exists>c. hs_conns s i = Some c \<and> 0 \<le> timeDifference now (heard c)"
    using inv by (fastforce simp: hs_inv_def timeDifference_nonneg)
  have "sorted_wrt (\<lambda>i j. overdue now s j \<longrightarrow> overdue now s i) (hs_list s)"
    by (rule sorted_wrt_mono_rel [of _ "\<lambda>i j. heard_of s i \<le> heard_of s j"])
      (use inv in \<open>auto simp: hs_inv_def overdue_def intro: less_le_trans timeDifference_antimono\<close>)
  then show ?thesis
    using check_loop_spec [OF _ old, of "[]"] inv
    by (simp add: onCheckTimer_def takeWhile_sorted hs_inv_def kick_all_def)
qed

section \<open>The server's life\<close>

inductive hs_step :: "site \<Rightarrow> kernel_write \<Rightarrow> timestamp \<times> http_server \<Rightarrow> timestamp \<times> http_server \<Rightarrow> bool"
  for site :: site and w :: kernel_write where
  connects: "now \<le> t \<Longrightarrow> i \<notin> set (hs_list s) \<Longrightarrow> connected c \<Longrightarrow> hs_onConnection t i c s = Inr s' \<Longrightarrow> hs_step site w (now, s) (t, s')"
| goes_down: "now \<le> t \<Longrightarrow> i \<in> set (hs_list s) \<Longrightarrow> hs_conns s i = Some c0 \<Longrightarrow> tc_context c = tc_context c0 \<Longrightarrow> \<not> connected c \<Longrightarrow>
    hs_onConnection t i c s = Inr s' \<Longrightarrow> hs_step site w (now, s) (t, s')"
| freed: "i \<notin> set (hs_list s) \<Longrightarrow> hs_step site w (now, s) (now, s\<lparr>hs_conns := (hs_conns s)(i := None)\<rparr>)"
| message: "now \<le> t \<Longrightarrow> i \<in> set (hs_list s) \<Longrightarrow> hs_onMessage site w t i s = Some (Inr s') \<Longrightarrow> hs_step site w (now, s) (t, s')"
| writes: "hs_conns s i = Some c \<Longrightarrow> tc_context c' = tc_context c \<Longrightarrow> hs_step site w (now, s) (now, put_conn i c' s)"
| cgi_up: "hs_onCGIConnection w k c s = Inr s' \<Longrightarrow> k \<notin> set (hs_list s) \<Longrightarrow> hs_step site w (now, s) (now, s')"
| cgi_message: "hs_onCGIMessage fuel w buf s = Inr (buf', s') \<Longrightarrow> hs_step site w (now, s) (now, s')"
| checks: "now \<le> t \<Longrightarrow> hs_step site w (now, s) (t, onCheckTimer t s)"

definition hs_init :: "timestamp \<times> http_server \<Rightarrow> bool" where
  "hs_init p \<longleftrightarrow> (\<exists>now expiration. p = (now, new_http_server expiration))"

lemma cgi_deliver_keeps: "cgi_deliver w r msg s = Inr s' \<Longrightarrow> hs_keeps s s'"
  by (auto simp: cgi_deliver_def Let_def rbind_Inr_iff hs_keeps_def put_conn_def send_buffer_context option.rel_refl
      split: if_splits option.splits)

lemma hs_onCGIMessage_keeps: "hs_onCGIMessage fuel w buf s = Inr (buf', s') \<Longrightarrow> hs_keeps s s'"
proof (induction fuel w buf s arbitrary: buf' s' rule: hs_onCGIMessage.induct)
  case (2 fuel w buf s)
  then show ?case
    by (auto simp: rbind_Inr_iff split: if_splits dest: cgi_deliver_keeps intro: hs_keeps_trans)
qed simp

lemma hs_inv_put_other: "hs_inv now s \<Longrightarrow> k \<notin> set (hs_list s) \<Longrightarrow> hs_inv now (put_conn k c s)"
  by (auto simp: hs_inv_def put_conn_def heard_of_def elim!: sorted_wrt_mono_rel [rotated])

lemma hs_onCGIConnection_change: "hs_onCGIConnection w k c s = Inr s' \<Longrightarrow> \<exists>c' z. s' = put_conn k c' (s\<lparr>hs_cgiConn := z\<rparr>)"
  unfolding hs_onCGIConnection_def
  by (auto simp: rbind_Inr_iff split: if_splits) (metis http_server.surjective http_server.update_convs(4))+

lemma hs_step_inv:
  assumes "hs_step site w p q" "hs_inv (fst p) (snd p)"
  shows "hs_inv (fst q) (snd q)"
  using assms
proof (induction rule: hs_step.cases)
  case (connects now t i s c s')
  then show ?case by (auto intro: hs_onConnection_up)
next
  case (goes_down now t i s c0 c s')
  from hs_onConnection_down [OF _ goes_down(3,5,4,6-8)] goes_down(1,2,9) show ?case by simp
next
  case (freed i s now)
  then show ?case
    by (auto simp: hs_inv_def heard_of_def elim!: sorted_wrt_mono_rel [rotated])
next
  case (message now t i s s')
  then show ?case by (auto intro: hs_onMessage_inv)
next
  case (writes s i c c' now)
  then show ?case using hs_keeps_inv [OF _ hs_keeps_put [OF writes(3)]] by simp
next
  case (cgi_up k c s s' now)
  from hs_onCGIConnection_change [OF cgi_up(3)] obtain c' z where "s' = put_conn k c' (s\<lparr>hs_cgiConn := z\<rparr>)" by blast
  then show ?case using cgi_up hs_inv_put_other hs_keeps_inv [OF _ hs_keeps_fields(2)] by simp
next
  case (cgi_message fuel buf s buf' s' now)
  then show ?case using hs_keeps_inv [OF _ hs_onCGIMessage_keeps [OF cgi_message(3)]] by simp
next
  case (checks now t s)
  then have "hs_inv t s" by (auto intro: hs_inv_mono)
  then show ?case using checks(2) by (simp add: onCheckTimer_spec hs_keeps_inv [OF _ kick_all_keeps])
qed

interpretation http_server: invariant_system hs_init "hs_step site w" "\<lambda>p. hs_inv (fst p) (snd p)"
proof unfold_locales
  show "hs_init p \<Longrightarrow> hs_inv (fst p) (snd p)" for p
    by (auto simp: hs_init_def hs_inv_def new_http_server_def)
  show "hs_inv (fst p) (snd p) \<Longrightarrow> hs_step site w p q \<Longrightarrow> hs_inv (fst q) (snd q)" for p q
    using hs_step_inv by blast
qed

section \<open>One request, one response\<close>

definition never_breaks :: "kernel_write \<Rightarrow> bool" where
  "never_breaks w \<longleftrightarrow> write_ok w \<and> (\<forall>d e. w d = Write_err e \<longrightarrow> e = EWOULDBLOCK)"

lemma sendInLoop_in: "sendInLoop w m c = Inr c' \<Longrightarrow> tc_in c' = tc_in c"
  by (auto simp: sendInLoop_def try_write_def Let_def rbind_Inr_iff assert_c_Inr_iff split: if_splits prod.splits write_result.splits)

lemma send_buffer_connected:
  assumes "conn_inv c" "tc_state c = kConnected" "never_breaks w"
  shows "\<exists>c'. send_buffer w b c = Inr (retrieveAll b, c') \<and> conn_inv c' \<and> tc_state c' = kConnected
    \<and> stream c' = stream c @ contents b \<and> tc_context c' = tc_context c \<and> tc_in c' = tc_in c"
proof -
  have k: "write_ok w" using assms(3) by (simp add: never_breaks_def)
  from send_stream [OF assms(1) k, of "contents b"] obtain c' where
    c': "send w (contents b) c = Inr c'" "conn_inv c'" "stream c' = stream c @ taken (Op_send w (contents b)) c" "tc_state c' = tc_state c"
    by blast
  have "taken (Op_send w (contents b)) c = contents b"
    using assms by (auto simp: try_write_def Let_def never_breaks_def split: write_result.split)
  moreover have "sendInLoop w (contents b) c = Inr c'" using c'(1) assms(2) by (simp add: send_def)
  ultimately show ?thesis
    using c' assms(2) sendInLoop_in sendInLoop_context by (auto simp: send_buffer_def)
qed

lemma setContext_simps [simp]:
  "tc_context (setContext x c) = x" "tc_state (setContext x c) = tc_state c" "tc_in (setContext x c) = tc_in c"
  "tc_out (setContext x c) = tc_out c" "tc_wire (setContext x c) = tc_wire c" "tc_channel (setContext x c) = tc_channel c"
  "tc_shutdownWrite (setContext x c) = tc_shutdownWrite c"
  "conn_inv (setContext x c) = conn_inv c" "stream (setContext x c) = stream c"
  by (simp_all add: setContext_def conn_inv_def stream_def)

lemma put_conn_simps [simp]:
  "hs_conns (put_conn i c s) = (hs_conns s)(i \<mapsto> c)" "hs_list (put_conn i c s) = hs_list s"
  "put_conn i c' (put_conn i c s) = put_conn i c' s"
  by (simp_all add: put_conn_def)

lemma shutdown_after:
  "tc_in (shutdown c) = tc_in c" "conn_inv c \<Longrightarrow> conn_inv (shutdown c)" "stream (shutdown c) = stream c"
  "tc_state c = kConnected \<Longrightarrow> tc_state (shutdown c) = kDisconnecting"
  by (auto simp: shutdown_def shutdownInLoop_def setState_def conn_inv_def stream_def)

lemma hs_onRequest_site:
  assumes c: "hs_conns s i = Some c" "conn_inv c" "tc_state c = kConnected" and w: "never_breaks w"
    and site: "std_search ''cgi-bin'' (rq_path req) = None" "length (rs_body (site req (new_response (keep_or_close req)))) < 2 ^ 31"
  shows "\<exists>c'. hs_onRequest site w i req s = Inr (put_conn i c' s) \<and> conn_inv c'
    \<and> stream c' = stream c @ response_text (site req (new_response (keep_or_close req)))
    \<and> tc_state c' = (if rs_closeConnection (site req (new_response (keep_or_close req))) then kDisconnecting else kConnected)
    \<and> tc_in c' = tc_in c \<and> tc_context c' = setClose (keep_or_close req) (tc_context c)"
proof -
  let ?resp = "site req (new_response (keep_or_close req))"
  let ?c = "setContext (setClose (keep_or_close req) (tc_context c)) c"
  obtain b where b: "appendToBuffer ?resp (new_buffer kInitialSize) = Inr b" "contents b = response_text ?resp"
    using appendToBuffer_text [OF new_buffer_inv site(2)] by auto
  from send_buffer_connected [of ?c w b] c w obtain c1 where
    c1: "send_buffer w b ?c = Inr (retrieveAll b, c1)" "conn_inv c1" "tc_state c1 = kConnected"
      "stream c1 = stream c @ contents b" "tc_context c1 = tc_context ?c" "tc_in c1 = tc_in c" by auto
  have "hs_onRequest site w i req s
      = Inr (put_conn i (if rs_closeConnection ?resp then shutdown c1 else c1) s)"
    using c(1) site(1) b(1) c1(1) by (simp add: hs_onRequest_def the_conn_def Let_def)
  then show ?thesis using c1 b(2) shutdown_after by auto
qed

lemma ctx_reset_fields: "cx_state (ctx_reset x) = kExpectRequestLine" "cx_request (ctx_reset x) = new_request"
  by (simp_all add: ctx_reset_def request_swap_def)

text \<open>A request without a body that the site answers itself, arriving in full on an open connection, is answered by exactly
  the text of the site's response, behind everything the connection still had to send; the connection is then
  ready for the next request (its context is reset, the bytes after the request are still in the input
  buffer) and last in the list, and it is shut down exactly when the response says that it closes.\<close>

theorem http_exchange:
  assumes "hs_inv now s" "i \<in> set (hs_list s)" "hs_conns s i = Some c"
    and "conn_inv c" "tc_state c = kConnected" "never_breaks w"
    and "cx_state (tc_context c) = kExpectRequestLine" "cx_request (tc_context c) = new_request"
    and "contents (tc_in c) = render_head m target v hs @ rest" "head_ok m target v hs"
    and "map_of (rev hs) ''Content-Length'' \<in> {None, Some []}"
    and "std_search ''cgi-bin'' (takeWhile (\<lambda>c. c \<noteq> CHR ''?'') target) = None"
    and "req = rendered_request m target v hs t" "resp = site req (new_response (keep_or_close req))"
    and "length (rs_body resp) < 2 ^ 31"
  shows "\<exists>s' c'. hs_onMessage site w t i s = Some (Inr s') \<and> hs_conns s' = (hs_conns s)(i \<mapsto> c')
    \<and> hs_list s' = remove1 i (hs_list s) @ [i]
    \<and> tc_wire c' @ contents (tc_out c') = tc_wire c @ contents (tc_out c) @ response_text resp
    \<and> tc_state c' = (if rs_closeConnection resp then kDisconnecting else kConnected)
    \<and> contents (tc_in c') = rest \<and> conn_inv c'
    \<and> cx_state (tc_context c') = kExpectRequestLine \<and> cx_request (tc_context c') = new_request"
proof -
  let ?ctx = "setLastReceiveTime t (tc_context c)"
  let ?ctx' = "?ctx\<lparr>cx_state := kGotAll, cx_request := req\<rparr>"
  let ?s0 = "s\<lparr>hs_list := remove1 i (hs_list s) @ [i]\<rparr>"
  have pos: "cx_position (tc_context c) = Some i" using assms(1-3) by (auto simp: hs_inv_def)
  have splice: "splice_to_end (cx_position ?ctx) s = Inr ?s0"
    using pos assms(2) by (simp add: splice_to_end_def setLastReceiveTime_def)
  have inb: "buffer_inv (tc_in c)" using assms(4) by (simp add: conn_inv_def)
  from parse_head_done [OF inb assms(9-11), of ?ctx t] assms(7,8,13) obtain b' where
    b': "parseRequest t ?ctx (tc_in c) = Some (Inr (True, ?ctx', b'))" "contents b' = rest" "buffer_inv b'"
    by (auto simp: setLastReceiveTime_def)
  let ?c = "setContext ?ctx' (c\<lparr>tc_in := b'\<rparr>)"
  have c: "conn_inv ?c" "stream ?c = stream c" using assms(4) b'(3) by (simp_all add: conn_inv_def stream_def)
  have "std_search ''cgi-bin'' (rq_path req) = None" using assms(12,13) by (simp add: rendered_request_def)
  with hs_onRequest_site [of "put_conn i ?c ?s0" i ?c w req site] c assms(5,6,14,15) obtain c1 where
    c1: "hs_onRequest site w i req (put_conn i ?c ?s0) = Inr (put_conn i c1 ?s0)" "conn_inv c1"
      "stream c1 = stream c @ response_text resp" "tc_in c1 = b'"
      "tc_state c1 = (if rs_closeConnection resp then kDisconnecting else kConnected)"
    by auto
  let ?c' = "setContext (ctx_reset (tc_context c1)) c1"
  have "hs_onMessage site w t i s = Some (Inr (put_conn i ?c' ?s0))"
    using assms(3) splice pos b'(1) c1(1)
    by (simp add: hs_onMessage_def Let_def gotAll_def the_conn_def setLastReceiveTime_def)
  then show ?thesis
    using c1 b'(2)
    by (intro exI [of _ "put_conn i ?c' ?s0"] exI [of _ ?c']) (simp add: stream_def ctx_reset_fields)
qed

section \<open>The reply of the application\<close>

definition cgi_field :: "char list \<times> char list \<Rightarrow> bool \<times> http_response \<Rightarrow> bool \<times> http_response" where
  "cgi_field f er =
     (let (error, resp) =
        (if f = (''Status'', ''404 Not Found'')
         then (True, setStatusMessage ''Not Found'' (setStatusCode k404NotFound (snd er))) else er)
      in (error, resp_addHeader (fst f) (snd f) resp))"

lemma std_search_one: "CHR '':'' \<notin> set k \<Longrightarrow> std_search '':'' (k @ CHR '':'' # rest) = Some (length k)"
  by (induction k) auto

lemma std_search_one_None: "CHR '':'' \<notin> set k \<Longrightarrow> std_search '':'' k = None"
  by (induction k) auto

lemma cgi_loop_headers:
  assumes "wire_headers_ok hs" "msg = pre @ header_lines hs @ kCRLF @ body"
  shows "cgi_loop msg (length pre) er = cgi_loop msg (length (pre @ header_lines hs)) (fold cgi_field hs er)"
  using assms
proof (induction hs arbitrary: pre er)
  case Nil
  then show ?case by (simp add: header_lines_def)
next
  case (Cons h hs)
  obtain k v where h: "h = (k, v)" by (cases h)
  with Cons.prems have ok: "k \<noteq> []" "CHR '':'' \<notin> set k" "CHR 0x0D \<notin> set k" "CHR 0x0D \<notin> set v" "wire_headers_ok hs"
    by (auto simp: wire_headers_ok_def)
  let ?line = "k @ '': '' @ v"
  let ?rest = "header_lines hs @ kCRLF @ body"
  have msg: "msg = pre @ ?line @ kCRLF @ ?rest" using Cons.prems(2) by (simp add: h header_lines_def)
  have n: "find_from kCRLF msg (length pre) = Some (length pre + length ?line)"
    using ok search_crlf_line [of ?line ?rest] by (simp add: msg find_from_def)
  have cl: "find_from '':'' msg (length pre) = Some (length pre + length k)"
    using std_search_one [OF ok(2), of "CHR '' '' # v @ kCRLF @ ?rest"] by (simp add: msg find_from_def)
  have name: "substring msg (length pre) (length pre + length k) = Inr k"
    and val: "substring msg (length pre + length k + 2) (length pre + length ?line) = Inr v"
    by (simp_all add: substring_def msg)
  have "cgi_header msg (length pre) (length pre + length k) (length pre + length ?line) er = Inr (cgi_field h er)"
    using ok(1) name val by (cases er) (auto simp: cgi_header_def cgi_field_def h)
  then have "cgi_loop msg (length pre) er = cgi_loop msg (length pre + length ?line + 2) (cgi_field h er)"
    by (subst cgi_loop.simps) (simp only: n cl option.case rbind_Inr)
  also have "length pre + length ?line + 2 = length (pre @ ?line @ kCRLF)" by (simp add: kCRLF_def)
  also have "cgi_loop msg (length (pre @ ?line @ kCRLF)) (cgi_field h er)
      = cgi_loop msg (length ((pre @ ?line @ kCRLF) @ header_lines hs)) (fold cgi_field hs (cgi_field h er))"
    by (rule Cons.IH [OF ok(5)]) (simp add: msg)
  also have "(pre @ ?line @ kCRLF) @ header_lines hs = pre @ header_lines (h # hs)" by (simp add: h header_lines_def)
  finally show ?case by simp
qed

lemma fold_cgi_field:
  "fold cgi_field hs (e, r) = (e \<or> (''Status'', ''404 Not Found'') \<in> set hs,
     r\<lparr>rs_headers := fold (\<lambda>(k, v). map_put k v) hs (rs_headers r),
       rs_statusCode := if (''Status'', ''404 Not Found'') \<in> set hs then k404NotFound else rs_statusCode r,
       rs_statusMessage := if (''Status'', ''404 Not Found'') \<in> set hs then ''Not Found'' else rs_statusMessage r\<rparr>)"
proof (induction hs arbitrary: e r)
  case (Cons h hs)
  then show ?case
    by (cases h) (auto simp: cgi_field_def setStatusMessage_def setStatusCode_def resp_addHeader_def Let_def)
qed simp

lemma parseFromcgi_reply:
  fixes body :: "char list"
  assumes "wire_headers_ok hs"
  defines "msg \<equiv> header_lines hs @ kCRLF @ body"
  shows "parseFromcgi msg r =
    (if CHR '':'' \<in> set body then Inl Assert_failed
     else Inr (resp_addHeader ''Server'' ''Muduo'' (r\<lparr>rs_headers := fold (\<lambda>(k, v). map_put k v) hs (rs_headers r),
       rs_statusCode := if (''Status'', ''404 Not Found'') \<in> set hs then k404NotFound else k200Ok,
       rs_statusMessage := if (''Status'', ''404 Not Found'') \<in> set hs then ''Not Found'' else ''OK'',
       rs_body := body\<rparr>)))"
proof -
  let ?l = "length (header_lines hs)"
  have n: "find_from kCRLF msg ?l = Some ?l"
    using search_crlf_line [of "[]" body] by (simp add: find_from_def msg_def)
  have start: "cgi_loop msg 0 (False, r) = cgi_loop msg ?l (fold cgi_field hs (False, r))"
    using cgi_loop_headers [OF assms(1), of msg "[]" body] by (simp add: msg_def)
  show ?thesis
  proof (cases "CHR '':'' \<in> set body")
    case True
    then obtain as bs where b: "body = as @ CHR '':'' # bs" "CHR '':'' \<notin> set as" by (meson split_list_first)
    have "find_from '':'' msg ?l = Some (?l + 2 + length as)"
      using std_search_one [of "kCRLF @ as" bs] b by (simp add: find_from_def msg_def kCRLF_def)
    then have "cgi_loop msg ?l er = Inl Assert_failed" for er
      by (subst cgi_loop.simps) (simp add: n cgi_header_def)
    then show ?thesis using True by (simp add: parseFromcgi_def start)
  next
    case False
    then have "find_from '':'' msg ?l = None"
      using std_search_one_None [of "kCRLF @ body"] by (simp add: find_from_def msg_def kCRLF_def)
    then have "cgi_loop msg ?l er = Inr (Some ?l, ?l, er)" for er
      by (subst cgi_loop.simps) (simp add: n)
    moreover have "substring msg (?l + 2) (length msg) = Inr body"
      by (simp add: substring_def msg_def kCRLF_def)
    ultimately show ?thesis using False
      by (auto simp: parseFromcgi_def start fold_cgi_field resp_setBody_eq setStatusMessage_def setStatusCode_def resp_addHeader_def)
  qed
qed

text \<open>C28: a reply of the application that consists of header lines, an empty line and a body becomes the response
  with these headers (of equal names the last), \<open>Server\<close> added, and that body, whose status is 404 when the reply has
  the header \<open>Status: 404 Not Found\<close> and 200 otherwise; but a body with a colon anywhere stops the program at
  an assertion.\<close>

theorem cgi_message_outcome:
  assumes "wire_headers_ok hs"
  shows "if CHR '':'' \<in> set body
    then parseFromcgi (header_lines hs @ kCRLF @ body) (new_response close) = Inl Assert_failed
    else \<exists>r. parseFromcgi (header_lines hs @ kCRLF @ body) (new_response close) = Inr r
      \<and> map_of (rs_headers r) = (map_of (rev hs))(''Server'' \<mapsto> ''Muduo'')
      \<and> rs_body r = body \<and> rs_closeConnection r = close
      \<and> rs_statusCode r = (if (''Status'', ''404 Not Found'') \<in> set hs then k404NotFound else k200Ok)"
proof -
  have "map_of (fold (\<lambda>(k, v). map_put k v) hs []) = map_of (rev hs)"
    using smap.get_fold_put [of "[]" hs] by simp
  then show ?thesis
    by (auto simp: parseFromcgi_reply [OF assms] resp_addHeader_def new_response_def)
qed

theorem cgi_message_outcome_witness:
  "parseFromcgi (header_lines [(''Content-type'', ''text/html'')] @ kCRLF @ ''a: b'') (new_response True) = Inl Assert_failed
   \<and> (\<exists>r. parseFromcgi (header_lines [(''Status'', ''404 Not Found'')] @ kCRLF @ ''File not found.'') (new_response False) = Inr r
        \<and> rs_body r = ''File not found.'' \<and> rs_statusCode r = k404NotFound)"
  using cgi_message_outcome [of "[(''Content-type'', ''text/html'')]" "''a: b''" True]
    cgi_message_outcome [of "[(''Status'', ''404 Not Found'')]" "''File not found.''" False]
  by (auto simp: wire_headers_ok_def)

section \<open>Faults of the FastCGI bridge\<close>

text \<open>C30: a request for the application that is not to be kept alive never gets its reply: the connection is shut down
  as soon as the request has been passed on, and the send of the reply is then dropped. Here the request
  carries \<open>Connection: close\<close> or comes from HTTP/1.0 without \<open>Keep-Alive\<close>.\<close>

theorem cgi_reply_lost_when_closing:
  assumes "hs_conns s i = Some c" "std_search ''cgi-bin'' (rq_path req) \<noteq> None" "keep_or_close req"
    and "hs_onRequest site w i req s = Inr s'"
    and "i \<noteq> k" "hs_cgiConn s = Some k"
    and "cgi_deliver w' reqid msg s' = Inr s''"
  shows "\<exists>c' c''. hs_conns s' i = Some c' \<and> tc_state c' \<noteq> kConnected \<and> hs_conns s'' i = Some c''
    \<and> tc_wire c'' = tc_wire c \<and> tc_out c'' = tc_out c"
proof -
  let ?c = "setContext (setClose True (tc_context c)) c"
  from assms(1-4) obtain s1 where s1: "server_cgi w req (cx_cgiRequestId (tc_context ?c)) i (put_conn i ?c s) = Inr s1"
    "(if rs_closeConnection (new_response True) then rbind (the_conn i s1) (\<lambda>c. Inr (put_conn i (shutdown c) s1)) else Inr s1) = Inr s'"
    by (auto simp: hs_onRequest_def the_conn_Inr rbind_Inr_iff Let_def)
  have "hs_conns s1 i = Some ?c"
    using s1(1) assms(5,6) unfolding server_cgi_def
    by (auto simp: rbind_Inr_iff Let_def put_conn_def split: if_splits option.splits)
  then have c': "s' = put_conn i (shutdown ?c) s1"
    using s1(2) by (simp add: new_response_def the_conn_def)
  have st: "tc_state (shutdown ?c) \<noteq> kConnected" "tc_wire (shutdown ?c) = tc_wire c" "tc_out (shutdown ?c) = tc_out c"
    by (auto simp: shutdown_def shutdownInLoop_def setState_def)
  have "\<exists>c''. hs_conns s'' i = Some c'' \<and> tc_wire c'' = tc_wire c \<and> tc_out c'' = tc_out c" if "s'' = s'"
    using that c' st by simp
  moreover have "hs_conns s'' i = hs_conns s' i \<or> hs_conns s'' i = Some (shutdown ?c)"
    using assms(7) st(1) unfolding c' cgi_deliver_def
    by (auto simp: rbind_Inr_iff Let_def put_conn_def send_buffer_def split: if_splits option.splits)
  ultimately show ?thesis using c' st by auto
qed

definition cgi_params :: "http_request \<Rightarrow> (char list \<times> char list) list" where
  "cgi_params req = [(''SCRIPT_FILENAME'', hs_WEB_PATH @ rq_path req), (''REQUEST_METHOD'', methodString (rq_method req))]"

lemma fcgi_request_result:
  assumes "length ns = length vs" "pairs_ok (zip ns vs)"
  shows "if length (pairs_bytes (zip ns vs)) \<le> 1024
    then \<exists>b. fcgi_request reqid ns vs (new_buffer kInitialSize) = Inr b \<and> buffer_inv b
    else fcgi_request reqid ns vs (new_buffer kInitialSize) = Inl Buffer_overflow"
proof -
  let ?f = "setRequestId reqid new_fcgi"
  obtain b1 where b1: "StartRequestRecord ?f (new_buffer kInitialSize) = Inr b1" "buffer_inv b1"
    by (simp add: StartRequestRecord_def buf_append_Inr Let_def)
  show ?thesis
    using Params_spec [OF b1(2) assms, of ?f] b1
    by (auto simp: fcgi_request_def fcgi_consts EndRequestRecord_def buf_append_Inr not_le)
qed

lemma length_methodString: "length (methodString m) < 8"
  by (cases m) simp_all

lemma cgi_params_ok: "length (rq_path req) < 2 ^ 30 \<Longrightarrow> pairs_ok (cgi_params req)"
  using length_methodString [of "rq_method req"] by (simp add: cgi_params_def pairs_ok_def hs_WEB_PATH_def)

lemma server_cgi_request:
  "server_cgi w req 0 i s =
     (let n = hs_reqCgiId s + 1;
          s1 = s\<lparr>hs_reqCgiId := n, hs_connMap := map_put (sint n) (Some i) (hs_connMap s)\<rparr>
      in rbind (fcgi_request (sint n) (map fst (cgi_params req)) (map snd (cgi_params req)) (new_buffer kInitialSize)) (\<lambda>buf.
           case hs_cgiConn s of
             None \<Rightarrow> Inl Null_pointer
           | Some k \<Rightarrow> rbind (the_conn k s) (\<lambda>cgi.
               if connected cgi then rbind (send_buffer w buf cgi) (\<lambda>(buf, cgi). Inr (put_conn k cgi s1)) else Inr s1)))"
  by (simp add: server_cgi_def fcgi_request_def cgi_params_def rbind_assoc Let_def the_conn_def cong: option.case_cong)


text \<open>The fuel of the loop over the application's records: each takes at least the 8 bytes of its header.\<close>

lemma retrieve_shrinks: "retrieve n b = Inr b' \<Longrightarrow> buffer_inv b \<Longrightarrow> buffer_inv b' \<and> length (contents b') + n = length (contents b)"
  using retrieve_over [of b n] retrieve_Inr [of b n] by (cases "n \<le> length (contents b)") auto

lemma drop_padding_shrinks:
  "drop_padding h b = Inr b' \<Longrightarrow> buffer_inv b \<Longrightarrow> buffer_inv b' \<and> length (contents b') \<le> length (contents b)"
  using retrieve_shrinks by (fastforce simp: drop_padding_def split: if_splits)

lemma ParseFromPhp_shrinks:
  assumes "ParseFromPhp b = Inr (msg, b')" "buffer_inv b"
  shows "buffer_inv b' \<and> length (contents b') + 8 \<le> length (contents b)"
proof -
  obtain b1 h where b1: "retrieve FCGI_HEADER_LEN b = Inr b1"
    and "b' = b1 \<or> (\<exists>n b2. retrieve n b1 = Inr b2 \<and> (b' = b2 \<or> drop_padding h b2 = Inr b'))"
    using assms(1) by (auto simp: ParseFromPhp_def Let_def rbind_Inr_iff split: if_splits)
  moreover have "buffer_inv b1 \<and> length (contents b1) + 8 = length (contents b)"
    using retrieve_shrinks [OF b1 assms(2)] by (simp add: fcgi_consts)
  ultimately show ?thesis by (auto dest!: retrieve_shrinks drop_padding_shrinks)
qed

lemma cgi_fuel_enough:
  assumes "buffer_inv buf" "length (contents buf) < 8 * fuel" "fuel \<le> fuel'"
  shows "hs_onCGIMessage fuel' w buf s = hs_onCGIMessage fuel w buf s
    \<and> (\<forall>buf' s'. hs_onCGIMessage fuel w buf s = Inr (buf', s') \<longrightarrow> readableBytes buf' < 8)"
  using assms
proof (induction fuel w buf s arbitrary: fuel' rule: hs_onCGIMessage.induct)
  case (2 fuel w buf s)
  obtain f' where f': "fuel' = Suc f'" "fuel \<le> f'" using 2(4) by (cases fuel') auto
  show ?case
  proof (cases "FCGI_HEADER_LEN \<le> readableBytes buf")
    case True
    show ?thesis
    proof (cases "getRequestId buf")
      case id: (Inr r)
      show ?thesis
      proof (cases "ParseFromPhp buf")
        case (Inr q)
        then obtain msg b where q: "ParseFromPhp buf = Inr (msg, b)" by (cases q) auto
        have b: "buffer_inv b" "length (contents b) < 8 * fuel"
          using ParseFromPhp_shrinks [OF q 2(2)] 2(3) by auto
        show ?thesis
        proof (cases "cgi_deliver w r msg s")
          case s1: (Inr s1)
          from "2.IH" [OF True b f'(2)] show ?thesis using True id q s1 f' by simp
        qed (use True id q f' in simp)
      qed (use True id f' in simp)
    qed (use True f' in simp)
  qed (use f' in \<open>simp add: fcgi_consts\<close>)
qed simp

section \<open>Idle connections\<close>


definition hs_at :: "timestamp \<Rightarrow> nat \<Rightarrow> tcp_conn \<Rightarrow> http_server \<Rightarrow> http_server" where
  "hs_at t i c s = put_conn i (setContext (setPostion i (setLastReceiveTime t new_context)) c) (s\<lparr>hs_list := hs_list s @ [i]\<rparr>)"

lemma hs_at_step:
  "now \<le> t \<Longrightarrow> i \<notin> set (hs_list s) \<Longrightarrow> connected c \<Longrightarrow> hs_step site w (now, s) (t, hs_at t i c s)"
  by (rule connects [where i = i and c = c]) (simp_all add: hs_onConnection_def hs_at_def)

lemma established_connected: "connected (established_conn fd wcc)"
  by (simp add: connected_def established_conn_inv)

lemma hs_at_reach:
  "reach hs_init (hs_step site w) (now, s) \<Longrightarrow> now \<le> t \<Longrightarrow> i \<notin> set (hs_list s) \<Longrightarrow>
   reach hs_init (hs_step site w) (t, hs_at t i (established_conn fd wcc) s)"
  by (rule reach_step, assumption, rule hs_at_step) (simp_all add: established_connected)


section \<open>The properties at concrete inputs\<close>

theorem http_exchange_witness:
  "\<exists>s s' c'. hs_onMessage defaultHttpCallback (\<lambda>d. Write_ok (length d)) (Timestamp 2000000) 0 s = Some (Inr s')
     \<and> hs_conns s' 0 = Some c' \<and> tc_state c' = kDisconnecting
     \<and> tc_wire c' @ contents (tc_out c') = response_text (defaultHttpCallback new_request (new_response False))"
proof -
  let ?b = "appended (render_head kGet ''/x'' (CHR ''1'') []) (new_buffer 1024)"
  let ?d = "established_conn 5 False\<lparr>tc_in := ?b\<rparr>"
  let ?c = "setContext (setPostion 0 (setLastReceiveTime (Timestamp 1000000) new_context)) ?d"
  let ?s = "hs_at (Timestamp 1000000) 0 ?d (new_http_server 8)"
  let ?req = "rendered_request kGet ''/x'' (CHR ''1'') [] (Timestamp 2000000)"
  let ?resp = "defaultHttpCallback ?req (new_response (keep_or_close ?req))"
  have "reach hs_init (hs_step defaultHttpCallback (\<lambda>d. Write_ok (length d))) (Timestamp 0, new_http_server 8)"
    by (rule reach_init) (auto simp: hs_init_def)
  then have "reach hs_init (hs_step defaultHttpCallback (\<lambda>d. Write_ok (length d))) (Timestamp 1000000, ?s)"
    by (rule reach_step, intro hs_at_step)
      (simp_all add: new_http_server_def connected_def established_conn_inv)
  from http_server.reachable_inv [OF this] have inv: "hs_inv (Timestamp 1000000) ?s" by simp
  have s: "0 \<in> set (hs_list ?s)" "hs_conns ?s 0 = Some ?c" by (simp_all add: hs_at_def)
  have c: "conn_inv ?c" "tc_state ?c = kConnected"
    using established_conn_inv(1,2) [of 5 False] by (simp_all add: conn_inv_def)
  have w: "never_breaks (\<lambda>d. Write_ok (length d))" by (simp add: never_breaks_def write_ok_def)
  have ctx: "cx_state (tc_context ?c) = kExpectRequestLine" "cx_request (tc_context ?c) = new_request"
    by (simp_all add: new_context_def setPostion_def setLastReceiveTime_def)
  have inp: "contents (tc_in ?c) = render_head kGet ''/x'' (CHR ''1'') [] @ []" by simp
  have hd: "head_ok kGet ''/x'' (CHR ''1'') []" by (simp add: head_ok_def headers_ok_def)
  have close: "keep_or_close ?req = False"
    by (simp add: keep_or_close_def rendered_request_def getHeader_def header_table_def)
  have resp: "?resp = defaultHttpCallback new_request (new_response False)"
    unfolding close by (simp add: defaultHttpCallback_def)
  have r: "length (rs_body ?resp) < 2 ^ 31" "rs_closeConnection ?resp"
    by (simp_all add: defaultHttpCallback_def setCloseConnection_def setStatusMessage_def setStatusCode_def new_response_def)
  have path: "std_search ''cgi-bin'' (takeWhile (\<lambda>c. c \<noteq> CHR ''?'') ''/x'') = None" by simp
  have wire: "tc_wire ?c @ contents (tc_out ?c) = []" by (simp add: established_conn_inv)
  from http_exchange [where m = kGet and target = "''/x''" and v = "CHR ''1''" and hs = "[]" and rest = "[]" and req = ?req and resp = ?resp
      and t = "Timestamp 2000000" and site = defaultHttpCallback, OF inv s c w ctx inp hd _ path refl refl r(1)] obtain s' c' where
    "hs_onMessage defaultHttpCallback (\<lambda>d. Write_ok (length d)) (Timestamp 2000000) 0 ?s = Some (Inr s')"
    "hs_conns s' = (hs_conns ?s)(0 \<mapsto> c')" "tc_state c' = kDisconnecting"
    "tc_wire c' @ contents (tc_out c') = tc_wire ?c @ contents (tc_out ?c) @ response_text ?resp"
    using r(2) by auto
  then show ?thesis unfolding resp using wire by (intro exI [of _ ?s] exI [of _ s'] exI [of _ c']) simp
qed

definition server_with_cgi :: "http_server" where
  "server_with_cgi = (new_http_server 8)\<lparr>hs_cgiConn := Some 9, hs_conns := [9 \<mapsto> established_conn 5 False, 0 \<mapsto> established_conn 6 False]\<rparr>"


theorem cgi_reply_lost_when_closing_witness:
  "\<exists>s' s'' c''. hs_onRequest defaultHttpCallback (\<lambda>d. Write_ok (length d)) 0
       (new_request\<lparr>rq_method := kGet, rq_path := ''/cgi-bin/a.php'', rq_headers := [(''Connection'', ''close'')]\<rparr>) server_with_cgi = Inr s'
     \<and> cgi_deliver (\<lambda>d. Write_ok (length d)) 1 (kCRLF @ ''x'') s' = Inr s''
     \<and> hs_conns s'' 0 = Some c'' \<and> tc_wire c'' = []"
proof -
  let ?w = "\<lambda>d. Write_ok (length (d :: char list))"
  let ?req = "new_request\<lparr>rq_method := kGet, rq_path := ''/cgi-bin/a.php'', rq_headers := [(''Connection'', ''close'')]\<rparr>"
  let ?c = "setContext (setClose True (tc_context (established_conn 6 False))) (established_conn 6 False)"
  let ?s1 = "put_conn 0 ?c server_with_cgi"
  have w: "never_breaks ?w" by (simp add: never_breaks_def write_ok_def)
  have close: "keep_or_close ?req" by (simp add: keep_or_close_def getHeader_def)
  have path: "std_search ''cgi-bin'' (rq_path ?req) \<noteq> None" by simp
  have n: "length (pairs_bytes (cgi_params ?req)) \<le> 1024" and p: "length (rq_path ?req) < 2 ^ 30"
    by (simp_all add: cgi_params_def pairs_bytes_def pair_bytes_def length_bytes_def hs_WEB_PATH_def)
  have conns: "hs_conns server_with_cgi 0 = Some (established_conn 6 False)" "hs_cgiConn server_with_cgi = Some 9"
    "hs_conns ?s1 9 = Some (established_conn 5 False)" "hs_reqCgiId server_with_cgi = 0"
    by (simp_all add: server_with_cgi_def new_http_server_def)
  obtain b where b: "fcgi_request 1 (map fst (cgi_params ?req)) (map snd (cgi_params ?req)) (new_buffer kInitialSize) = Inr b"
    using fcgi_request_result [of "map fst (cgi_params ?req)" "map snd (cgi_params ?req)" 1] cgi_params_ok [OF p] n by (auto simp: zip_map_fst_snd)
  from send_buffer_connected [OF established_conn_inv(1,2) w] obtain cgi' where
    cgi': "send_buffer ?w b (established_conn 5 False) = Inr (retrieveAll b, cgi')" by blast
  have id0: "cx_cgiRequestId (tc_context (established_conn 6 False)) = 0"
    by (simp add: established_conn_def connectEstablished_def new_tcp_conn_def setState_def Let_def new_context_def)
  let ?s2 = "put_conn 9 cgi' (?s1\<lparr>hs_reqCgiId := 1, hs_connMap := map_put 1 (Some 0) (hs_connMap ?s1)\<rparr>)"
  have "server_cgi ?w ?req 0 0 ?s1 = Inr ?s2"
    using b cgi' conns by (simp add: server_cgi_request Let_def the_conn_def connected_def established_conn_inv put_conn_def)
  then have run: "hs_onRequest defaultHttpCallback ?w 0 ?req server_with_cgi = Inr (put_conn 0 (shutdown ?c) ?s2)"
    using close path conns id0
    by (simp add: hs_onRequest_def the_conn_def Let_def setClose_def new_response_def)
  have lookup: "hs_conns (put_conn 0 (shutdown ?c) ?s2) 0 = Some (shutdown ?c)"
    "map_of (hs_connMap (put_conn 0 (shutdown ?c) ?s2)) 1 = Some (Some 0)"
    by (simp_all add: put_conn_def)
  have reply: "parseFromcgi (kCRLF @ ''x'') r
      = Inr (resp_addHeader ''Server'' ''Muduo'' (r\<lparr>rs_statusCode := k200Ok, rs_statusMessage := ''OK'', rs_body := ''x''\<rparr>))" for r
    using parseFromcgi_reply [of "[]" "''x''" r] by (simp add: wire_headers_ok_def header_lines_def)
  have cl: "getClose (setClose True x) = Inr True" for x by (simp add: getClose_def setClose_def)
  have len: "length (kCRLF @ ''x'') \<noteq> 0" by simp
  have "tc_state (shutdown ?c) \<noteq> kConnected" using shutdown_after(4) [of ?c] by (simp add: established_conn_inv)
  then obtain s'' where "cgi_deliver ?w 1 (kCRLF @ ''x'') (put_conn 0 (shutdown ?c) ?s2) = Inr s''"
    using appendToBuffer_text [OF new_buffer_inv [of kInitialSize], of "resp_addHeader ''Server'' ''Muduo'' ((new_response True)\<lparr>rs_statusCode := k200Ok, rs_statusMessage := ''OK'', rs_body := ''x''\<rparr>)"]
    by (auto simp: cgi_deliver_def lookup cl reply len Let_def send_buffer_def resp_addHeader_def simp del: append.simps)
  with cgi_reply_lost_when_closing [OF conns(1) path close run _ conns(2) this] run show ?thesis
    by (auto simp: established_conn_inv)
qed

end
