(* ===== verification/WebSite.thy ===== *)
theory WebSite
  imports HttpServer
begin

text \<open>
  The site as a client sees it: the server of \<open>HttpServer\<close> with the handler of \<open>StaticFile\<close>
  (\<open>onRequest\<close> and \<open>server_static\<close> of http/bin/muduo_server.cc), from the bytes of a request on a
  connection to the bytes of the file on the wire. The results compose
  the parser, the dispatcher, the handler, the response writer and the sending of the connection; the last section adds
  \<open>handleRead\<close> with the server's message callback, and serves the requests of a conversation one after the other.
\<close>

section \<open>From the bytes of a request to the bytes of a file\<close>

text \<open>The response to a request for \<open>path\<close>, field by field: the file, or a refusal that closes.\<close>

definition site_path :: "char list \<Rightarrow> char list" where
  "site_path path = (if path = ''/'' then ''/home.html'' else path)"

definition site_file :: "char list \<Rightarrow> char list" where
  "site_file path = WEB_PATH @ site_path path"

lemma site_onRequest_static:
  "std_search ''cgi-bin'' (rq_path req) = None
    \<Longrightarrow> site_onRequest fs junk req resp = server_static fs junk resp (site_path (rq_path req))"
  by (simp add: site_onRequest_def site_path_def)

lemma served_file:
  assumes pread: "\<And>fd n. length (sys_pread fs fd n) = n"
    and found: "0 \<le> sys_open fs (c_str (WEB_PATH @ path))" "sys_stat fs (c_str (WEB_PATH @ path)) = Some st"
      "servable (Some st)"
  shows "server_static fs junk (new_response close) path =
    \<lparr>rs_headers = [(''Content-Type'', get_filetype (WEB_PATH @ path))], rs_statusCode = k200Ok, rs_statusMessage = ''OK'',
     rs_closeConnection = close, rs_body = sys_pread fs (sys_open fs (c_str (WEB_PATH @ path))) (st_size st)\<rparr>"
proof -
  let ?file = "openFile fs (new_static_file fs junk (WEB_PATH @ path))"
  have st: "sf_status ?file = FileOK" using found by (simp add: opened_status)
  have "readContent fs ?file = sys_pread fs (sys_open fs (c_str (WEB_PATH @ path))) (st_size st)"
    using readContent_full [of fs ?file] opened_fields(1) [of fs junk "WEB_PATH @ path"] opened_fields(2) [OF found(2)] pread by simp
  then show ?thesis
    using st by (simp add: server_static_def Let_def response_setters new_response_def)
qed

text \<open>What is not such a file is refused, and the connection closed.\<close>

lemma refused_file:
  assumes "\<not> (0 \<le> sys_open fs (c_str (WEB_PATH @ path)) \<and> servable (sys_stat fs (c_str (WEB_PATH @ path))))"
  shows "\<exists>r. server_static fs junk (new_response close) path = r \<and> rs_closeConnection r \<and> wire_headers_ok (rs_headers r) \<and>
    length (rs_body r) < 2 ^ 31 \<and>
    (rs_statusCode r, rs_statusMessage r) \<in> {(k404NotFound, ''Not Found''), (k403Forbidden, ''Forbidden'')}"
proof -
  let ?file = "openFile fs (new_static_file fs junk (WEB_PATH @ path))"
  have "sf_status ?file = ReadError \<or> sf_status ?file = NotFound \<or> sf_status ?file = Forbidden"
    using assms by (auto simp: opened_status servable_def split: option.splits)
  then show ?thesis
    by (elim disjE) (simp_all add: server_static_def Let_def response_setters new_response_def wire_headers_ok_def not_found_body_def)
qed

lemma file_response_wire:
  "wire_headers_ok [(''Content-Type'', get_filetype name)]"
  by (simp add: wire_headers_ok_def get_filetype_def)


text \<open>A site with one file, and a client that asks for it.\<close>

lemma asked_state:
  fixes site :: "http_request \<Rightarrow> http_response \<Rightarrow> http_response" and w :: "char list \<Rightarrow> write_result" and b :: buffer
  assumes b: "buffer_inv b"
  defines "d \<equiv> established_conn 5 False\<lparr>tc_in := b\<rparr>"
  defines "c \<equiv> setContext (setPostion 0 (setLastReceiveTime (Timestamp 1000000) new_context)) d"
    and "s \<equiv> hs_at (Timestamp 1000000) 0 d (new_http_server 8)"
  shows "hs_inv (Timestamp 1000000) s" "0 \<in> set (hs_list s)" "hs_conns s 0 = Some c"
    "conn_inv c" "tc_state c = kConnected" "cx_state (tc_context c) = kExpectRequestLine" "cx_request (tc_context c) = new_request"
    "contents (tc_in c) = contents b" "tc_wire c = []" "contents (tc_out c) = []"
proof -
  have "reach hs_init (hs_step site w) (Timestamp 0, new_http_server 8)"
    by (rule reach_init) (auto simp: hs_init_def)
  then have "reach hs_init (hs_step site w) (Timestamp 1000000, s)"
    unfolding s_def by (rule reach_step, intro hs_at_step)
      (simp_all add: new_http_server_def d_def connected_def established_conn_inv)
  from http_server.reachable_inv [OF this] show "hs_inv (Timestamp 1000000) s" by simp
  show "0 \<in> set (hs_list s)" "hs_conns s 0 = Some c" by (simp_all add: hs_at_def s_def c_def)
  show "conn_inv c" "tc_state c = kConnected"
    using established_conn_inv(1,2) [of 5 False] b by (simp_all add: conn_inv_def c_def d_def)
  show "cx_state (tc_context c) = kExpectRequestLine" "cx_request (tc_context c) = new_request"
    by (simp_all add: new_context_def setPostion_def setLastReceiveTime_def c_def)
  show "contents (tc_in c) = contents b" by (simp add: c_def d_def)
  show "tc_wire c = []" "contents (tc_out c) = []" by (simp_all add: c_def d_def established_conn_inv)
qed


section \<open>A conversation\<close>

text \<open>
  A readable event of a connection of the server: handleRead of the connection, whose message callback is onMessage.
\<close>

definition hs_handleRead :: "(nat list \<Rightarrow> readv_result) \<Rightarrow> site \<Rightarrow> kernel_write \<Rightarrow> timestamp \<Rightarrow> nat \<Rightarrow> http_server \<Rightarrow> http_server res option" where
  "hs_handleRead rd site w t i s =
     (case hs_conns s i of
        None \<Rightarrow> Some (Inl Null_pointer)
      | Some c \<Rightarrow>
          (case readFd rd (tc_in c) of
             Inl e \<Rightarrow> Some (Inl e)
           | Inr (n, savedErrno, inb) \<Rightarrow>
               (let c = c\<lparr>tc_in := inb\<rparr>; s = put_conn i c s
                in if 0 < n then hs_onMessage site w t i s
                   else if n = 0 then Some (rbind (handleClose c) (\<lambda>c. Inr (put_conn i c s)))
                   else Some (Inr s))))"

text \<open>Messages that arrive one after the other, with the times of the polls that reported them.\<close>

fun hs_messages :: "site \<Rightarrow> kernel_write \<Rightarrow> nat \<Rightarrow> (timestamp \<times> char list) list \<Rightarrow> http_server \<Rightarrow> http_server res option" where
  "hs_messages site w i [] s = Some (Inr s)"
| "hs_messages site w i ((t, bytes) # ms) s =
     (case hs_handleRead (\<lambda>_. Readv_ok bytes) site w t i s of
        Some (Inr s) \<Rightarrow> hs_messages site w i ms s
      | r \<Rightarrow> r)"

text \<open>What a client asks, and what the site answers.\<close>

record client_request =
  cr_time :: timestamp
  cr_method :: http_method
  cr_target :: "char list"
  cr_version :: char
  cr_headers :: "(char list \<times> char list) list"

definition asks :: "client_request \<Rightarrow> char list" where
  "asks r = render_head (cr_method r) (cr_target r) (cr_version r) (cr_headers r)"

definition asked :: "client_request \<Rightarrow> http_request" where
  "asked r = rendered_request (cr_method r) (cr_target r) (cr_version r) (cr_headers r) (cr_time r)"

definition answer :: "site \<Rightarrow> client_request \<Rightarrow> http_response" where
  "answer site r = site (asked r) (new_response (keep_or_close (asked r)))"

text \<open>A request without a body that the site answers itself.\<close>

definition plain :: "client_request \<Rightarrow> bool" where
  "plain r \<longleftrightarrow> head_ok (cr_method r) (cr_target r) (cr_version r) (cr_headers r)
     \<and> map_of (rev (cr_headers r)) ''Content-Length'' \<in> {None, Some []}
     \<and> std_search ''cgi-bin'' (takeWhile (\<lambda>c. c \<noteq> CHR ''?'') (cr_target r)) = None"

lemma asks_nonempty: "asks r \<noteq> []"
  by (simp add: asks_def render_head_def)

lemma one_message:
  assumes server: "hs_inv now s" "now \<le> cr_time r" "i \<in> set (hs_list s)" "hs_conns s i = Some c"
    and conn: "conn_inv c" "tc_state c = kConnected" "never_breaks w"
      "cx_state (tc_context c) = kExpectRequestLine" "cx_request (tc_context c) = new_request" "contents (tc_in c) = []"
    and req: "plain r" "length (rs_body (answer site r)) < 2 ^ 31"
  shows "\<exists>s' c'. hs_handleRead (\<lambda>_. Readv_ok (asks r)) site w (cr_time r) i s = Some (Inr s')
    \<and> hs_inv (cr_time r) s' \<and> i \<in> set (hs_list s') \<and> hs_conns s' i = Some c' \<and> conn_inv c' \<and> contents (tc_in c') = []
    \<and> cx_state (tc_context c') = kExpectRequestLine \<and> cx_request (tc_context c') = new_request
    \<and> tc_wire c' @ contents (tc_out c') = tc_wire c @ contents (tc_out c) @ response_text (answer site r)
    \<and> tc_state c' = (if rs_closeConnection (answer site r) then kDisconnecting else kConnected)"
proof -
  have inb: "buffer_inv (tc_in c)" using conn(1) by (simp add: conn_inv_def)
  from readFd_ok [where readv_k = "\<lambda>_. Readv_ok (asks r)", OF inb refl] conn(6) obtain b where
    b: "readFd (\<lambda>_. Readv_ok (asks r)) (tc_in c) = Inr (int (length (asks r)), None, b)" "buffer_inv b" "contents b = asks r" by auto
  let ?c = "c\<lparr>tc_in := b\<rparr>"
  let ?s = "put_conn i ?c s"
  have inv: "hs_inv now ?s" using hs_step_inv [OF writes [where c' = ?c and now = now, OF server(4)]] server(1) by simp
  have c: "conn_inv ?c" "tc_state ?c = kConnected" using conn(1,2) b(2) by (simp_all add: conn_inv_def)
  have s: "i \<in> set (hs_list ?s)" "hs_conns ?s i = Some ?c" using server(3) by (simp_all add: put_conn_def)
  have cx: "cx_state (tc_context ?c) = kExpectRequestLine" "cx_request (tc_context ?c) = new_request" using conn(4,5) by simp_all
  have inp: "contents (tc_in ?c) = render_head (cr_method r) (cr_target r) (cr_version r) (cr_headers r) @ []"
    using b(3) by (simp add: asks_def)
  note p = req(1) [unfolded plain_def]
  from http_exchange [where site = site and req = "asked r" and resp = "answer site r" and t = "cr_time r" and w = w and rest = "[]",
      OF inv s c conn(3) cx inp conjunct1 [OF p] conjunct1 [OF conjunct2 [OF p]] conjunct2 [OF conjunct2 [OF p]]
        asked_def answer_def req(2)] obtain s' c' where
    e: "hs_onMessage site w (cr_time r) i ?s = Some (Inr s')" "hs_conns s' = (hs_conns ?s)(i \<mapsto> c')" "hs_list s' = remove1 i (hs_list ?s) @ [i]"
      "tc_wire c' @ contents (tc_out c') = tc_wire ?c @ contents (tc_out ?c) @ response_text (answer site r)"
      "tc_state c' = (if rs_closeConnection (answer site r) then kDisconnecting else kConnected)" "contents (tc_in c') = []" "conn_inv c'"
      "cx_state (tc_context c') = kExpectRequestLine" "cx_request (tc_context c') = new_request"
    by auto
  have "hs_handleRead (\<lambda>_. Readv_ok (asks r)) site w (cr_time r) i s = Some (Inr s')"
    using b(1) e(1) server(4) asks_nonempty [of r] by (simp add: hs_handleRead_def Let_def)
  moreover have "hs_inv (cr_time r) s'" using hs_step_inv [OF message [OF server(2) s(1) e(1)]] inv by simp
  ultimately show ?thesis using e by auto
qed



end
