(* ===== verification/Sockets.thy ===== *)
theory Sockets
  imports CText Endian Poller
begin

text \<open>
  net/SocketsOps.h, net/SocketsOps.cc, net/InetAddress.h, net/InetAddress.cc, net/Socket.h,
  net/Socket.cc, net/Acceptor.h and net/Acceptor.cc: socket addresses and their text, the thin layer
  over the system calls with its error handling, the owner of a descriptor, and the acceptor. What the
  kernel answers is an argument; the descriptors a step closes are listed in the order of the calls.
\<close>

section \<open>Addresses\<close>

definition AF_INET :: "16 word" where "AF_INET = 2"
definition INADDR_ANY :: "32 word" where "INADDR_ANY = 0"
definition INET_ADDRSTRLEN :: nat where "INET_ADDRSTRLEN = 16"

record sockaddr_in =
  sin_family :: "16 word"
  sin_port :: "16 word"
  sin_addr :: "32 word"

definition zero_addr :: sockaddr_in where
  "zero_addr = \<lparr>sin_family = 0, sin_port = 0, sin_addr = 0\<rparr>"

text \<open>
  The C library's conversions between an address (four bytes in memory) and its dotted text.
  inet_ntop needs room for the terminating zero; inet_pton takes exactly four decimal numbers up
  to 255 without leading zeros.
\<close>

fun join_with :: "char list \<Rightarrow> char list list \<Rightarrow> char list" where
  "join_with sep [] = []"
| "join_with sep [x] = x"
| "join_with sep (x # xs) = x @ sep @ join_with sep xs"

fun split_at :: "char \<Rightarrow> char list \<Rightarrow> char list list" where
  "split_at c [] = [[]]"
| "split_at c (x # xs) =
     (if x = c then [] # split_at c xs
      else (case split_at c xs of y # ys \<Rightarrow> (x # y) # ys | [] \<Rightarrow> [[x]]))"

definition dotted :: "32 word \<Rightarrow> char list" where
  "dotted a = join_with ''.'' (map (\<lambda>c. dec_nat (of_char c)) (mem_of_word 4 a))"

definition inet_ntop :: "nat \<Rightarrow> 32 word \<Rightarrow> char list option" where
  "inet_ntop n a = (if length (dotted a) < n then Some (dotted a) else None)"

definition octet_ok :: "char list \<Rightarrow> bool" where
  "octet_ok s \<longleftrightarrow> s \<noteq> [] \<and> list_all isdigit s \<and> (hd s = CHR ''0'' \<longrightarrow> length s = 1) \<and> digits_val s \<le> 255"

definition inet_pton :: "char list \<Rightarrow> 32 word option" where
  "inet_pton s =
     (let parts = split_at (CHR ''.'') s
      in if length parts = 4 \<and> list_all octet_ok parts
         then Some (word_of_mem (map (\<lambda>p. char_of (nat (digits_val p))) parts)) else None)"

text \<open>The functions of SocketsOps on addresses; \<open>old\<close> is what the destination array held before.\<close>

definition sockets_toIp :: "char list \<Rightarrow> nat \<Rightarrow> sockaddr_in \<Rightarrow> char list" where
  "sockets_toIp old n addr = (case inet_ntop n (sin_addr addr) of None \<Rightarrow> old | Some s \<Rightarrow> s)"

definition sockets_toIpPort :: "char list \<Rightarrow> nat \<Rightarrow> sockaddr_in \<Rightarrow> char list res" where
  "sockets_toIpPort old n addr =
     (let buf = sockets_toIp old n addr; end' = length buf; port = networkToHost16 (sin_port addr)
      in assert_c (end' < n) (Inr (buf @ snprintf (n - end') ('':'' @ dec_nat (unat port)))))"

definition sockets_toHostPort :: "nat \<Rightarrow> sockaddr_in \<Rightarrow> char list" where
  "sockets_toHostPort n addr =
     (let host = (case inet_ntop INET_ADDRSTRLEN (sin_addr addr) of None \<Rightarrow> ''INVALID'' | Some s \<Rightarrow> s);
          port = networkToHost16 (sin_port addr)
      in snprintf n (host @ '':'' @ dec_nat (unat port)))"

definition sockets_fromHostPort :: "char list \<Rightarrow> 16 word \<Rightarrow> sockaddr_in \<Rightarrow> sockaddr_in" where
  "sockets_fromHostPort ip port addr =
     (let addr = addr\<lparr>sin_family := AF_INET, sin_port := hostToNetwork16 port\<rparr>
      in case inet_pton ip of None \<Rightarrow> addr | Some a \<Rightarrow> addr\<lparr>sin_addr := a\<rparr>)"

text \<open>InetAddress.\<close>

definition inet_any :: "16 word \<Rightarrow> sockaddr_in" where
  "inet_any port = zero_addr\<lparr>sin_family := AF_INET, sin_addr := hostToNetwork32 INADDR_ANY, sin_port := hostToNetwork16 port\<rparr>"

definition inet_address :: "char list \<Rightarrow> 16 word \<Rightarrow> sockaddr_in" where
  "inet_address ip port = sockets_fromHostPort ip port zero_addr"

definition toHostPort :: "sockaddr_in \<Rightarrow> char list" where
  "toHostPort addr = sockets_toHostPort 32 addr"

definition toIpPort :: "sockaddr_in \<Rightarrow> char list res" where
  "toIpPort addr = sockets_toIpPort [] 64 addr"

definition toIp :: "sockaddr_in \<Rightarrow> char list" where
  "toIp addr = sockets_toIp [] 64 addr"

section \<open>System calls\<close>

text \<open>LOG_SYSFATAL and LOG_FATAL abort the process.\<close>

definition createNonblockingOrDie :: "int \<Rightarrow> int res" where
  "createNonblockingOrDie sockfd = (if sockfd < 0 then Inl Fatal else Inr sockfd)"

definition bindOrDie :: "int \<Rightarrow> unit res" where
  "bindOrDie ret = (if ret < 0 then Inl Fatal else Inr ())"

definition listenOrDie :: "int \<Rightarrow> unit res" where
  "listenOrDie ret = (if ret < 0 then Inl Fatal else Inr ())"

definition EPERM :: int where "EPERM = 1"
definition EINTR :: int where "EINTR = 4"
definition EAGAIN :: int where "EAGAIN = 11"
definition EMFILE :: int where "EMFILE = 24"
definition EPROTO :: int where "EPROTO = 71"
definition ECONNABORTED :: int where "ECONNABORTED = 103"

datatype accept_result = Accept_ok int sockaddr_in | Accept_err int

text \<open>accept: the descriptor (-1 for an expected error) and the address the kernel filled in.\<close>

definition accept_expected :: "int list" where
  "accept_expected = [EAGAIN, ECONNABORTED, EINTR, EPROTO, EPERM, EMFILE]"

definition sockets_accept :: "accept_result \<Rightarrow> sockaddr_in \<Rightarrow> (int \<times> sockaddr_in) res" where
  "sockets_accept r addr =
     (case r of
        Accept_ok connfd peer \<Rightarrow> Inr (connfd, peer)
      | Accept_err savedErrno \<Rightarrow> if savedErrno \<in> set accept_expected then Inr (-1, addr) else Inl Fatal)"

text \<open>getsockname and getpeername: \<open>None\<close> is a failure, after which the address is all zero.\<close>

definition getLocalAddr :: "sockaddr_in option \<Rightarrow> sockaddr_in" where
  "getLocalAddr r = (case r of None \<Rightarrow> zero_addr | Some a \<Rightarrow> a)"

definition getPeerAddr :: "sockaddr_in option \<Rightarrow> sockaddr_in" where
  "getPeerAddr r = (case r of None \<Rightarrow> zero_addr | Some a \<Rightarrow> a)"

text \<open>getsockopt(SO_ERROR): \<open>Inl\<close> is its own errno, \<open>Inr\<close> the error it reports.\<close>

definition getSocketError :: "int + int \<Rightarrow> int" where
  "getSocketError r = (case r of Inl errno \<Rightarrow> errno | Inr optval \<Rightarrow> optval)"

definition isSelfConnect :: "sockaddr_in option \<Rightarrow> sockaddr_in option \<Rightarrow> bool" where
  "isSelfConnect local peer =
     (let localaddr = getLocalAddr local; peeraddr = getPeerAddr peer
      in sin_port localaddr = sin_port peeraddr \<and> sin_addr localaddr = sin_addr peeraddr)"

text \<open>The calls that only hand their arguments on: the system call made, and whether a failure is logged.\<close>

datatype sys_call =
    Sys_connect int sockaddr_in
  | Sys_close int
  | Sys_shutdown_write int
  | Sys_setsockopt int int int int

definition IPPROTO_TCP :: int where "IPPROTO_TCP = 6"
definition SOL_SOCKET :: int where "SOL_SOCKET = 1"
definition SO_REUSEADDR :: int where "SO_REUSEADDR = 2"
definition TCP_NODELAY :: int where "TCP_NODELAY = 1"

definition sockets_connect :: "int \<Rightarrow> int \<Rightarrow> sockaddr_in \<Rightarrow> sys_call \<times> int" where
  "sockets_connect ret sockfd addr = (Sys_connect sockfd addr, ret)"

definition sockets_close :: "int \<Rightarrow> int \<Rightarrow> sys_call \<times> char list list" where
  "sockets_close ret sockfd = (Sys_close sockfd, if ret < 0 then [''sockets::close''] else [])"

definition sockets_shutdownWrite :: "int \<Rightarrow> int \<Rightarrow> sys_call \<times> char list list" where
  "sockets_shutdownWrite ret sockfd = (Sys_shutdown_write sockfd, if ret < 0 then [''sockets::shutdownWrite''] else [])"

section \<open>The owner of a descriptor\<close>

type_synonym socket = int

text \<open>Moving a socket leaves -1 behind; the destructor closes what is left.\<close>

definition socket_move :: "socket \<Rightarrow> socket \<times> socket" where
  "socket_move sourcefd = (sourcefd, -1)"

definition socket_assign :: "socket \<Rightarrow> socket \<Rightarrow> socket \<times> socket" where
  "socket_assign this sourcefd = (sourcefd, -1)"

definition socket_dtor :: "socket \<Rightarrow> int list" where
  "socket_dtor sockfd = (if sockfd \<noteq> -1 then [sockfd] else [])"

definition socket_accept :: "accept_result \<Rightarrow> sockaddr_in \<Rightarrow> (int \<times> sockaddr_in) res" where
  "socket_accept r peeraddr =
     rbind (sockets_accept r zero_addr) (\<lambda>(connfd, addr).
       Inr (connfd, if 0 \<le> connfd then addr else peeraddr))"

text \<open>The options of a socket; what setsockopt answers is not looked at.\<close>

definition socket_setReuseAddr :: "bool \<Rightarrow> socket \<Rightarrow> sys_call" where
  "socket_setReuseAddr on sockfd = Sys_setsockopt sockfd SOL_SOCKET SO_REUSEADDR (if on then 1 else 0)"

definition socket_setTcpNoDelay :: "bool \<Rightarrow> socket \<Rightarrow> sys_call" where
  "socket_setTcpNoDelay on sockfd = Sys_setsockopt sockfd IPPROTO_TCP TCP_NODELAY (if on then 1 else 0)"

definition socket_shutdownWrite :: "int \<Rightarrow> socket \<Rightarrow> sys_call \<times> char list list" where
  "socket_shutdownWrite ret sockfd = sockets_shutdownWrite ret sockfd"

definition socket_bindAddress :: "int \<Rightarrow> unit res" where
  "socket_bindAddress ret = bindOrDie ret"

definition socket_listen :: "int \<Rightarrow> unit res" where
  "socket_listen ret = listenOrDie ret"

section \<open>Acceptor\<close>

record acceptor =
  ac_socket :: socket
  ac_channel :: channel
  ac_hasCallback :: bool
  ac_listenning :: bool

text \<open>The constructor: the results of socket and bind are arguments.\<close>

definition new_acceptor :: "int \<Rightarrow> int \<Rightarrow> acceptor res" where
  "new_acceptor sock bnd =
     rbind (createNonblockingOrDie sock) (\<lambda>fd.
       rbind (bindOrDie bnd) (\<lambda>_.
         Inr \<lparr>ac_socket = fd, ac_channel = new_channel fd, ac_hasCallback = False, ac_listenning = False\<rparr>))"

definition acceptor_listen :: "int \<Rightarrow> acceptor \<Rightarrow> acceptor res" where
  "acceptor_listen ret a =
     (let a = a\<lparr>ac_listenning := True\<rparr>
      in rbind (listenOrDie ret) (\<lambda>_.
           Inr (a\<lparr>ac_channel := (ac_channel a)\<lparr>ch_events := set_bits_of kReadEvent (ch_events (ac_channel a))\<rparr>\<rparr>)))"

text \<open>handleRead: the socket handed to the callback, or the descriptors closed.\<close>

datatype accept_event = New_connection socket sockaddr_in | Closed_fds "int list"

definition acceptor_handleRead :: "accept_result \<Rightarrow> acceptor \<Rightarrow> accept_event res" where
  "acceptor_handleRead r a =
     rbind (socket_accept r (inet_any 0)) (\<lambda>(connfd, peerAddr).
       if 0 \<le> connfd then
         (let sockfd = connfd
          in if ac_hasCallback a then (let (arg, sockfd) = socket_move sockfd in Inr (New_connection arg peerAddr))
             else Inr (Closed_fds (socket_dtor sockfd)))
       else Inr (Closed_fds []))"

section \<open>Text of addresses\<close>

lemma split_at_absent: "c \<notin> set xs \<Longrightarrow> split_at c xs = [xs]"
  by (induction xs) auto

lemma split_at_append: "c \<notin> set xs \<Longrightarrow> split_at c (xs @ c # ys) = xs # split_at c ys"
  by (induction xs) auto

lemma split_at_nonempty: "split_at c xs \<noteq> []"
  by (induction xs) (auto split: list.split)

lemma join_split: "join_with [c] (split_at c xs) = xs"
proof (induction xs)
  case (Cons x xs)
  obtain y ys where y: "split_at c xs = y # ys" using split_at_nonempty by (meson neq_Nil_conv)
  then show ?case using Cons by (cases ys) auto
qed simp

lemma isdigit_char: "isdigit c \<Longrightarrow> digit_char (nat (digit_val c)) = c \<and> 0 \<le> digit_val c \<and> digit_val c < 10"
proof -
  assume d: "isdigit c"
  then have "48 + nat (digit_val c) = (of_char c :: nat)" by (auto simp: isdigit_def digit_val_def)
  then have "digit_char (nat (digit_val c)) = c" by (simp add: digit_char_def)
  then show ?thesis using d by (auto simp: isdigit_def digit_val_def)
qed

lemma digits_val_nonneg: "list_all isdigit s \<Longrightarrow> 0 \<le> digits_val s"
proof (induction s rule: rev_induct)
  case (snoc c s)
  then show ?case using isdigit_char [of c] by simp
qed simp

lemma digits_val_pos: "list_all isdigit s \<Longrightarrow> s \<noteq> [] \<Longrightarrow> hd s \<noteq> CHR ''0'' \<Longrightarrow> 0 < digits_val s"
proof (induction s rule: rev_induct)
  case (snoc c s)
  show ?case
  proof (cases "s = []")
    case True
    have "digit_val c \<noteq> 0"
    proof
      assume "digit_val c = 0"
      then have "digit_char 0 = c" using snoc.prems(1) isdigit_char [of c] by simp
      moreover have "digit_char 0 = CHR ''0''" by code_simp
      ultimately show False using snoc.prems(3) True by simp
    qed
    then show ?thesis using True snoc.prems(1) isdigit_char [of c] by (simp add: digits_val_def)
  next
    case False
    then show ?thesis using snoc isdigit_char [of c] by simp
  qed
qed simp

lemma dec_nat_digits_val:
  "list_all isdigit s \<Longrightarrow> s \<noteq> [] \<Longrightarrow> hd s = CHR ''0'' \<longrightarrow> length s = 1 \<Longrightarrow> dec_nat (nat (digits_val s)) = s"
proof (induction s rule: rev_induct)
  case (snoc c s)
  have c: "digit_char (nat (digit_val c)) = c" "0 \<le> digit_val c" "digit_val c < 10"
    using isdigit_char [of c] snoc.prems(1) by auto
  show ?case
  proof (cases "s = []")
    case True
    then show ?thesis using c by (subst dec_nat.simps) (simp add: digits_val_def)
  next
    case False
    then have h: "hd s \<noteq> CHR ''0''" using snoc.prems(3) by auto
    have v: "0 < digits_val s" using digits_val_pos False h snoc.prems(1) by simp
    then have n: "nat (digits_val (s @ [c])) = 10 * nat (digits_val s) + nat (digit_val c)" using c by simp
    have "dec_nat (nat (digits_val (s @ [c]))) = dec_nat (nat (digits_val s)) @ [c]"
    proof -
      have "\<not> 10 * nat (digits_val s) + nat (digit_val c) < 10" using v by linarith
      then show ?thesis unfolding n using c by (subst dec_nat.simps) simp
    qed
    then show ?thesis using snoc False h by simp
  qed
qed simp

lemma dotted_word_of_mem:
  assumes "length parts = 4" "list_all octet_ok parts"
  shows "dotted (word_of_mem (map (\<lambda>p. char_of (nat (digits_val p))) parts)) = join_with ''.'' parts"
proof -
  have "mem_of_word 4 (word_of_mem (map (\<lambda>p. char_of (nat (digits_val p))) parts) :: 32 word)
      = map (\<lambda>p. char_of (nat (digits_val p))) parts"
    using assms(1) by (intro mem_of_word_of_mem) simp_all
  moreover have "dec_nat (of_char (char_of (nat (digits_val p)) :: char)) = p" if "p \<in> set parts" for p
  proof -
    have ok: "octet_ok p" using assms(2) that by (auto simp: list_all_iff)
    then have "(of_char (char_of (nat (digits_val p)) :: char) :: nat) = nat (digits_val p)"
      using digits_val_nonneg [of p] by (simp add: octet_ok_def nat_less_iff)
    with dec_nat_digits_val [of p] ok show ?thesis by (simp add: octet_ok_def)
  qed
  ultimately have "map (\<lambda>c. dec_nat (of_char c)) (mem_of_word 4 (word_of_mem (map (\<lambda>p. char_of (nat (digits_val p))) parts) :: 32 word)) = parts"
    by (simp add: map_idI)
  then show ?thesis by (simp add: dotted_def)
qed

lemma dotted_inet_pton: "inet_pton ip = Some a \<Longrightarrow> dotted a = ip"
  using dotted_word_of_mem [of "split_at (CHR ''.'') ip"] join_split [of "CHR ''.''" ip]
  by (auto simp: inet_pton_def Let_def split: if_splits)

lemma length_dotted: "length (dotted a) \<le> 15"
proof -
  obtain w x y z where m: "mem_of_word 4 a = [w, x, y, z]"
    using length_mem_of_word [of 4 a] by (auto simp: numeral_eq_Suc length_Suc_conv simp del: length_mem_of_word)
  have "length (dec_nat (of_char c)) \<le> 3" for c :: char
    using less_trans [OF nat_of_char_less_256 [of c], of "10 ^ 3"] by (intro length_dec_nat) simp_all
  note this [of w] this [of x] this [of y] this [of z]
  then show ?thesis by (simp add: dotted_def m)
qed

lemma length_dec_port: "length (dec_nat (unat (p :: 16 word))) \<le> 5"
proof -
  have "unat p < 65536" using unsigned_less [of p, where ?'a = nat] by simp
  then show ?thesis by (intro length_dec_nat) simp_all
qed

text \<open>No address is cut short by the arrays it is printed into.\<close>

lemma address_texts:
  defines "whole a \<equiv> dotted (sin_addr a) @ '':'' @ dec_nat (unat (networkToHost16 (sin_port a)))"
  shows "toHostPort a = whole a" "toIpPort a = Inr (whole a)" "toIp a = dotted (sin_addr a)"
proof -
  have n: "inet_ntop 16 (sin_addr a) = Some (dotted (sin_addr a))" "inet_ntop 64 (sin_addr a) = Some (dotted (sin_addr a))"
    using length_dotted [of "sin_addr a"] by (simp_all add: inet_ntop_def)
  show "toHostPort a = whole a" "toIpPort a = Inr (whole a)" "toIp a = dotted (sin_addr a)"
    using length_dotted [of "sin_addr a"] length_dec_port [of "networkToHost16 (sin_port a)"]
    by (simp_all add: toHostPort_def sockets_toHostPort_def INET_ADDRSTRLEN_def toIpPort_def sockets_toIpPort_def toIp_def
        sockets_toIp_def Let_def n whole_def)
qed

lemma dotted_zero: "dotted 0 = ''0.0.0.0''"
  by code_simp

lemma inet_address_parts:
  "networkToHost16 (sin_port (inet_address ip port)) = port"
  "dotted (sin_addr (inet_address ip port)) = (if inet_pton ip = None then ''0.0.0.0'' else ip)"
  using dotted_inet_pton dotted_zero
  by (auto simp: inet_address_def sockets_fromHostPort_def Let_def zero_addr_def networkToHost16_def hostToNetwork16_def bswap_bswap
      split: option.split)

lemma bswap_zero: "bswap 4 (0 :: 32 word) = 0"
  by code_simp

lemma inet_any_parts:
  "networkToHost16 (sin_port (inet_any port)) = port" "dotted (sin_addr (inet_any port)) = ''0.0.0.0''"
  using dotted_zero by (simp_all add: inet_any_def networkToHost16_def hostToNetwork16_def bswap_bswap INADDR_ANY_def hostToNetwork32_def
      bswap_zero)


text \<open>Assigning to a socket that owns a descriptor loses it: neither of the two sockets holds it any more.\<close>

lemma move_assignment_leaks:
  "this \<noteq> source \<Longrightarrow> this \<noteq> -1 \<Longrightarrow>
     this \<notin> set (socket_dtor (fst (socket_assign this source)) @ socket_dtor (snd (socket_assign this source)))"
  by (simp add: socket_assign_def socket_dtor_def)

end
