(* ===== verification/EventLoop.thy ===== *)
theory EventLoop
  imports Containers "HOL-Library.Multiset"
begin

text \<open>
  net/EventLoop.h, net/EventLoop.cc, net/EventLoopThreadPool.h and net/EventLoopThreadPool.cc: the
  queue of functors other threads hand to a loop, the eventfd that wakes it, and the round robin
  over the loops of a pool. The loop thread and the other threads are interleaved: a step is one
  statement (or one locked section) of either. A functor is a number. The timers are in
  TimerQueue, the polling in Poller.
\<close>

section \<open>State\<close>

text \<open>
  Where the loop thread is: before loop(), in poll(), dispatching the active channels (the flag says
  that the wakeup channel is still among them), between setting \<open>callingPendingFunctors_\<close> and the swap,
  running the functors, after loop().
\<close>

datatype loop_pc = Before | Polling | Handling bool | Swapping | Running | Stopped

text \<open>
  \<open>el_functors\<close> is the local vector of doPendingFunctors from the functor being run on; \<open>el_owed\<close> counts
  the calls of wakeup() other threads still have to make (they have pushed, or set \<open>quit_\<close>, before).
  \<open>el_submitted\<close> and \<open>el_ran\<close> record the functors in the order they were pushed and run.
\<close>

record event_loop =
  el_looping :: bool
  el_quit :: bool
  el_callingPending :: bool
  el_threadId :: nat
  el_wakeupFd :: nat
  el_pendingFunctors :: "nat list"
  el_functors :: "nat list"
  el_pc :: loop_pc
  el_owed :: nat
  el_submitted :: "nat list"
  el_ran :: "nat list"

text \<open>The constructor: a second loop in a thread is a fatal error.\<close>

definition new_event_loop :: "nat \<Rightarrow> nat option \<Rightarrow> event_loop res" where
  "new_event_loop tid loopInThisThread =
     (if loopInThisThread \<noteq> None then Inl Fatal
      else Inr \<lparr>el_looping = False, el_quit = False, el_callingPending = False, el_threadId = tid,
                el_wakeupFd = 0, el_pendingFunctors = [], el_functors = [], el_pc = Before, el_owed = 0,
                el_submitted = [], el_ran = []\<rparr>)"

definition isInLoopThread :: "nat \<Rightarrow> event_loop \<Rightarrow> bool" where
  "isInLoopThread tid l \<longleftrightarrow> el_threadId l = tid"

definition assertInLoopThread :: "nat \<Rightarrow> event_loop \<Rightarrow> unit res" where
  "assertInLoopThread tid l = (if isInLoopThread tid l then Inr () else Inl Fatal)"

definition event_loop_dtor :: "event_loop \<Rightarrow> unit res" where
  "event_loop_dtor l = assert_c (\<not> el_looping l) (Inr ())"

text \<open>What a thread finds in \<open>t_loopInThisThread\<close>, for each thread: its constructor and destructor set it for the thread they run in.\<close>

type_synonym thread_loops = "nat \<rightharpoonup> nat"

definition getEventLoopOfCurrentThread :: "nat \<Rightarrow> thread_loops \<Rightarrow> nat option" where
  "getEventLoopOfCurrentThread tid loops = loops tid"

definition construct_loop :: "nat \<Rightarrow> nat \<Rightarrow> thread_loops \<Rightarrow> (event_loop \<times> thread_loops) res" where
  "construct_loop tid self loops = rbind (new_event_loop tid (loops tid)) (\<lambda>l. Inr (l, loops(tid \<mapsto> self)))"

definition destroy_loop :: "nat \<Rightarrow> event_loop \<Rightarrow> thread_loops \<Rightarrow> thread_loops res" where
  "destroy_loop tid l loops = rbind (event_loop_dtor l) (\<lambda>_. Inr (loops(tid := None)))"

definition createEventfd :: "int \<Rightarrow> int res" where
  "createEventfd evtfd = (if evtfd < 0 then Inl Fatal else Inr evtfd)"

lemma one_loop_per_thread:
  assumes "construct_loop tid self loops = Inr (l, loops')"
  shows "getEventLoopOfCurrentThread tid loops = None" "getEventLoopOfCurrentThread tid loops' = Some self"
    "construct_loop tid other loops' = Inl Fatal" "assertInLoopThread tid l = Inr ()"
    "other_tid \<noteq> tid \<Longrightarrow> assertInLoopThread other_tid l = Inl Fatal"
  using assms
  by (auto simp: construct_loop_def new_event_loop_def getEventLoopOfCurrentThread_def assertInLoopThread_def isInLoopThread_def split: if_splits)

text \<open>A loop destroyed by another thread leaves its own thread's entry behind: that thread can never have a loop again.\<close>

lemma destroyed_elsewhere:
  assumes "construct_loop tid self loops = Inr (l, loops')" "other_tid \<noteq> tid"
  shows "\<exists>loops''. destroy_loop other_tid l loops' = Inr loops'' \<and> construct_loop tid self' loops'' = Inl Fatal"
  using assms by (auto simp: construct_loop_def destroy_loop_def new_event_loop_def event_loop_dtor_def split: if_splits)

section \<open>The statements\<close>

text \<open>The locked section of queueInLoop, and the condition under which it calls wakeup.\<close>

definition queue_push :: "nat \<Rightarrow> event_loop \<Rightarrow> event_loop" where
  "queue_push f l =
     l\<lparr>el_pendingFunctors := el_pendingFunctors l @ [f], el_submitted := el_submitted l @ [f]\<rparr>"

definition needs_wakeup :: "nat \<Rightarrow> event_loop \<Rightarrow> bool" where
  "needs_wakeup tid l \<longleftrightarrow> \<not> isInLoopThread tid l \<or> el_callingPending l"

text \<open>Writing 1 to an eventfd adds to its counter, reading it resets the counter.\<close>

definition wakeup :: "event_loop \<Rightarrow> event_loop" where
  "wakeup l = l\<lparr>el_wakeupFd := el_wakeupFd l + 1\<rparr>"

definition el_handleRead :: "event_loop \<Rightarrow> event_loop" where
  "el_handleRead l = l\<lparr>el_wakeupFd := 0\<rparr>"

text \<open>queueInLoop called in the loop's own thread (no other statement of this thread comes between).\<close>

definition queueInLoop_here :: "nat \<Rightarrow> event_loop \<Rightarrow> event_loop" where
  "queueInLoop_here f l =
     (let l' = queue_push f l in if needs_wakeup (el_threadId l) l' then wakeup l' else l')"

text \<open>runInLoop: at once in the loop's own thread, through the queue otherwise.\<close>

definition runInLoop :: "nat \<Rightarrow> nat \<Rightarrow> event_loop \<Rightarrow> event_loop" where
  "runInLoop tid f l =
     (if isInLoopThread tid l then l\<lparr>el_ran := el_ran l @ [f]\<rparr>
      else l\<lparr>el_pendingFunctors := el_pendingFunctors l @ [f], el_submitted := el_submitted l @ [f],
             el_owed := el_owed l + 1\<rparr>)"

text \<open>loop() up to its while, and the test of the while.\<close>

definition loop_enter :: "nat \<Rightarrow> event_loop \<Rightarrow> event_loop res" where
  "loop_enter tid l =
     assert_c (\<not> el_looping l)
      (rbind (assertInLoopThread tid l)
        (\<lambda>_. Inr (l\<lparr>el_looping := True, el_quit := False, el_pc := Polling\<rparr>)))"

definition loop_test :: "event_loop \<Rightarrow> event_loop" where
  "loop_test l = (if el_quit l then l\<lparr>el_pc := Stopped, el_looping := False\<rparr> else l\<lparr>el_pc := Polling\<rparr>)"

text \<open>The statements of doPendingFunctors.\<close>

definition pending_begin :: "event_loop \<Rightarrow> event_loop" where
  "pending_begin l = l\<lparr>el_callingPending := True, el_pc := Swapping\<rparr>"

definition pending_swap :: "event_loop \<Rightarrow> event_loop" where
  "pending_swap l = l\<lparr>el_functors := el_pendingFunctors l, el_pendingFunctors := [], el_pc := Running\<rparr>"

definition pending_run :: "event_loop \<Rightarrow> event_loop" where
  "pending_run l = l\<lparr>el_ran := el_ran l @ [hd (el_functors l)], el_functors := tl (el_functors l)\<rparr>"

definition pending_end :: "event_loop \<Rightarrow> event_loop" where
  "pending_end l = loop_test (l\<lparr>el_callingPending := False\<rparr>)"

section \<open>Interleaving\<close>

inductive loop_step :: "event_loop \<Rightarrow> event_loop \<Rightarrow> bool" where
  enter: "el_pc l = Before \<Longrightarrow> loop_enter (el_threadId l) l = Inr l' \<Longrightarrow> loop_step l l'"
| poll_returns: "el_pc l = Polling \<Longrightarrow> loop_step l (l\<lparr>el_pc := Handling (0 < el_wakeupFd l)\<rparr>)"
| wakeup_event: "el_pc l = Handling True \<Longrightarrow> loop_step l ((el_handleRead l)\<lparr>el_pc := Handling False\<rparr>)"
| callback_queues: "el_pc l = Handling w \<Longrightarrow> loop_step l (queueInLoop_here f l)"
| callback_quits: "el_pc l = Handling w \<Longrightarrow> loop_step l (l\<lparr>el_quit := True\<rparr>)"
| pending_begins: "el_pc l = Handling False \<Longrightarrow> loop_step l (pending_begin l)"
| pending_swaps: "el_pc l = Swapping \<Longrightarrow> loop_step l (pending_swap l)"
| pending_runs: "el_pc l = Running \<Longrightarrow> el_functors l \<noteq> [] \<Longrightarrow> loop_step l (pending_run l)"
| functor_queues: "el_pc l = Running \<Longrightarrow> loop_step l (queueInLoop_here f l)"
| functor_quits: "el_pc l = Running \<Longrightarrow> loop_step l (l\<lparr>el_quit := True\<rparr>)"
| pending_ends: "el_pc l = Running \<Longrightarrow> el_functors l = [] \<Longrightarrow> loop_step l (pending_end l)"
| other_queues: "loop_step l ((queue_push f l)\<lparr>el_owed := el_owed l + 1\<rparr>)"
| other_quits: "loop_step l (l\<lparr>el_quit := True, el_owed := el_owed l + 1\<rparr>)"
| other_wakes: "el_owed l = Suc n \<Longrightarrow> loop_step l ((wakeup l)\<lparr>el_owed := n\<rparr>)"

definition loop_init :: "event_loop \<Rightarrow> bool" where
  "loop_init l \<longleftrightarrow> (\<exists>tid. new_event_loop tid None = Inr l)"

lemmas loop_stmt_defs = queue_push_def needs_wakeup_def isInLoopThread_def wakeup_def el_handleRead_def queueInLoop_here_def
  loop_enter_def assertInLoopThread_def loop_test_def pending_begin_def pending_swap_def pending_run_def pending_end_def

text \<open>
  The invariant: nothing is lost or reordered between the queue and the running; the flag
  \<open>callingPendingFunctors_\<close> is set exactly in doPendingFunctors; and whenever the loop is about to poll,
  or cannot avoid polling any more, with work in the queue or a request to quit, a wakeup is in the
  eventfd or still to be written.
\<close>

definition loop_inv :: "event_loop \<Rightarrow> bool" where
  "loop_inv l \<longleftrightarrow>
     el_submitted l = el_ran l @ el_functors l @ el_pendingFunctors l
     \<and> (el_functors l = [] \<or> el_pc l = Running)
     \<and> (el_callingPending l \<longleftrightarrow> el_pc l = Swapping \<or> el_pc l = Running)
     \<and> (el_pc l = Polling \<or> el_pc l = Running \<longrightarrow> el_pendingFunctors l \<noteq> [] \<longrightarrow> 0 < el_wakeupFd l + el_owed l)
     \<and> (el_pc l = Polling \<longrightarrow> el_quit l \<longrightarrow> 0 < el_wakeupFd l + el_owed l)
     \<and> (el_pc l = Before \<longrightarrow> el_pendingFunctors l \<noteq> [] \<longrightarrow> 0 < el_wakeupFd l + el_owed l)"

lemma loop_inv_init: "loop_init l \<Longrightarrow> loop_inv l"
  by (auto simp: loop_init_def new_event_loop_def loop_inv_def)

lemma hd_tl_append: "xs \<noteq> [] \<Longrightarrow> hd xs # tl xs @ ys = xs @ ys"
  by (cases xs) simp_all

lemma loop_inv_step: "loop_inv l \<Longrightarrow> loop_step l l' \<Longrightarrow> loop_inv l'"
  by (erule loop_step.cases)
    (auto simp: loop_inv_def loop_stmt_defs assert_c_def Let_def hd_tl_append split: if_splits)

interpretation event_loop: invariant_system loop_init loop_step loop_inv
  by unfold_locales (fact loop_inv_init, fact loop_inv_step)

text \<open>C19: functors run in the order they were queued, each exactly once: what ran, what is left of the batch being run and what is
  waiting make up, in this order, everything that was ever queued.\<close>

theorem functors_run_in_order:
  assumes "reach loop_init loop_step l"
  shows "el_submitted l = el_ran l @ el_functors l @ el_pendingFunctors l"
  using event_loop.reachable_inv [OF assms] by (simp add: loop_inv_def)


text \<open>A run: another thread queues while the loop polls.\<close>

definition example_loop :: event_loop where
  "example_loop = \<lparr>el_looping = True, el_quit = False, el_callingPending = False, el_threadId = 1,
     el_wakeupFd = 0, el_pendingFunctors = [7], el_functors = [], el_pc = Polling, el_owed = 1,
     el_submitted = [7], el_ran = []\<rparr>"

lemma example_loop_reach: "reach loop_init loop_step example_loop"
proof -
  obtain l0 where l0: "new_event_loop 1 None = Inr l0" by (simp add: new_event_loop_def)
  have "reach loop_init loop_step l0" using l0 by (intro reach_init) (auto simp: loop_init_def)
  moreover have "loop_step l0 (l0\<lparr>el_looping := True, el_quit := False, el_pc := Polling\<rparr>)"
    using l0 by (intro enter) (auto simp: new_event_loop_def loop_stmt_defs)
  ultimately have "reach loop_init loop_step (l0\<lparr>el_looping := True, el_quit := False, el_pc := Polling\<rparr>)"
    by (rule reach_step)
  from reach_step [OF this other_queues [of _ 7]] show ?thesis
    using l0 by (auto simp: new_event_loop_def example_loop_def loop_stmt_defs)
qed

theorem functors_run_in_order_witness:
  "\<exists>l. reach loop_init loop_step l \<and> el_submitted l = [7] \<and> el_ran l @ el_functors l @ el_pendingFunctors l = [7]"
  using functors_run_in_order [OF example_loop_reach] example_loop_reach
  by (intro exI [of _ example_loop]) (simp add: example_loop_def)


text \<open>The loop thread alone, from poll with the eventfd readable, runs everything that was queued and polls again.\<close>

lemma run_batch:
  "el_pc l = Running \<Longrightarrow> loop_step\<^sup>*\<^sup>* l (l\<lparr>el_ran := el_ran l @ el_functors l, el_functors := []\<rparr>)"
proof (induction "el_functors l" arbitrary: l)
  case Nil
  then show ?case by (cases l) simp
next
  case (Cons f fs)
  let ?l = "pending_run l"
  have "loop_step l ?l" using Cons by (intro pending_runs) auto
  moreover have "el_functors ?l = fs" "el_pc ?l = Running" "el_ran ?l = el_ran l @ [f]"
    using Cons.hyps(2) Cons.prems by (auto simp: pending_run_def simp flip: Cons.hyps(2))
  moreover from this have "loop_step\<^sup>*\<^sup>* ?l (?l\<lparr>el_ran := el_ran ?l @ el_functors ?l, el_functors := []\<rparr>)"
    using Cons.hyps(1) [of ?l] by simp
  ultimately show ?case
    by (auto simp: pending_run_def simp flip: Cons.hyps(2) intro: converse_rtranclp_into_rtranclp)
qed

lemma loop_drains:
  assumes "el_pc l = Polling" "0 < el_wakeupFd l" "el_functors l = []" "\<not> el_quit l"
  shows "\<exists>l'. loop_step\<^sup>*\<^sup>* l l' \<and> el_pc l' = Polling \<and> el_pendingFunctors l' = []
    \<and> el_ran l' = el_ran l @ el_pendingFunctors l"
proof -
  let ?l1 = "l\<lparr>el_pc := Handling True\<rparr>"
  let ?l2 = "(el_handleRead ?l1)\<lparr>el_pc := Handling False\<rparr>"
  let ?l4 = "pending_swap (pending_begin ?l2)"
  let ?l5 = "?l4\<lparr>el_ran := el_ran ?l4 @ el_functors ?l4, el_functors := []\<rparr>"
  have "loop_step l ?l1" using poll_returns [OF assms(1)] assms(2) by simp
  moreover have "loop_step ?l1 ?l2" by (rule wakeup_event) simp
  moreover have "loop_step ?l2 (pending_begin ?l2)" by (rule pending_begins) simp
  moreover have "loop_step (pending_begin ?l2) ?l4" by (rule pending_swaps) (simp add: pending_begin_def)
  moreover have "loop_step\<^sup>*\<^sup>* ?l4 ?l5" by (rule run_batch) (simp add: pending_swap_def)
  moreover have "loop_step ?l5 (pending_end ?l5)" by (rule pending_ends) (simp_all add: pending_swap_def)
  ultimately have "loop_step\<^sup>*\<^sup>* l (pending_end ?l5)"
    by (meson converse_rtranclp_into_rtranclp rtranclp.rtrancl_into_rtrancl)
  moreover have "el_pc (pending_end ?l5) = Polling \<and> el_pendingFunctors (pending_end ?l5) = []
      \<and> el_ran (pending_end ?l5) = el_ran l @ el_pendingFunctors l"
    using assms(4) by (simp add: loop_stmt_defs)
  ultimately show ?thesis by blast
qed

text \<open>A quit() that comes before loop() is forgotten: loop() starts by clearing the flag.\<close>

lemma quit_before_loop_is_lost:
  "el_pc l = Before \<Longrightarrow> \<not> el_looping l \<Longrightarrow>
     \<exists>l'. loop_enter (el_threadId l) (l\<lparr>el_quit := True\<rparr>) = Inr l' \<and> \<not> el_quit l' \<and> el_pc l' = Polling"
  by (simp add: loop_stmt_defs)

section \<open>The pool of loops\<close>

record loop_pool =
  lp_baseLoop :: nat
  lp_started :: bool
  lp_numThreads :: nat
  lp_next :: nat
  lp_loops :: "nat list"

definition new_loop_pool :: "nat \<Rightarrow> loop_pool" where
  "new_loop_pool baseLoop =
     \<lparr>lp_baseLoop = baseLoop, lp_started = False, lp_numThreads = 0, lp_next = 0, lp_loops = []\<rparr>"

definition setThreadNum :: "int \<Rightarrow> loop_pool \<Rightarrow> loop_pool res" where
  "setThreadNum numThreads p = assert_c (0 \<le> numThreads) (Inr (p\<lparr>lp_numThreads := nat numThreads\<rparr>))"

text \<open>The loops the new threads report, one per call of startLoop, are an argument.\<close>

definition pool_start :: "(nat \<Rightarrow> nat) \<Rightarrow> loop_pool \<Rightarrow> loop_pool res" where
  "pool_start startLoop p =
     assert_c (\<not> lp_started p)
      (Inr (p\<lparr>lp_started := True, lp_loops := lp_loops p @ map startLoop [0..<lp_numThreads p]\<rparr>))"

definition getNextLoop :: "loop_pool \<Rightarrow> nat \<times> loop_pool" where
  "getNextLoop p =
     (let loop = lp_baseLoop p
      in if lp_loops p \<noteq> [] then
           (let loop = lp_loops p ! lp_next p; next' = lp_next p + 1
            in (loop, p\<lparr>lp_next := (if next' \<ge> length (lp_loops p) then 0 else next')\<rparr>))
         else (loop, p))"

fun next_loops :: "nat \<Rightarrow> loop_pool \<Rightarrow> nat list \<times> loop_pool" where
  "next_loops 0 p = ([], p)"
| "next_loops (Suc k) p =
     (let (l, p) = getNextLoop p; (ls, p) = next_loops k p in (l # ls, p))"

lemma mset_rotate_list: "mset (rotate k xs) = mset xs"
proof (induction k)
  case (Suc k)
  have "mset (rotate1 ys) = mset ys" for ys :: "'a list" by (cases ys) simp_all
  with Suc show ?case by simp
qed simp

lemma getNextLoop_some:
  assumes "lp_next p < length (lp_loops p)"
  shows "getNextLoop p = (lp_loops p ! lp_next p, p\<lparr>lp_next := (lp_next p + 1) mod length (lp_loops p)\<rparr>)"
proof (cases "lp_next p + 1 < length (lp_loops p)")
  case True
  then show ?thesis by (auto simp: getNextLoop_def Let_def)
next
  case False
  then have "length (lp_loops p) = lp_next p + 1" using assms by simp
  then show ?thesis by (auto simp: getNextLoop_def Let_def)
qed

lemma next_loops_round_robin:
  "lp_next p < length (lp_loops p) \<Longrightarrow>
     next_loops k p = (map (\<lambda>i. lp_loops p ! ((lp_next p + i) mod length (lp_loops p))) [0..<k],
                       p\<lparr>lp_next := (lp_next p + k) mod length (lp_loops p)\<rparr>)"
proof (induction k arbitrary: p)
  case 0
  then show ?case by simp
next
  case (Suc k)
  let ?n = "length (lp_loops p)"
  let ?p = "p\<lparr>lp_next := (lp_next p + 1) mod ?n\<rparr>"
  have n: "0 < ?n" using Suc.prems by linarith
  have ih: "next_loops k ?p = (map (\<lambda>i. lp_loops p ! (((lp_next p + 1) mod ?n + i) mod ?n)) [0..<k],
      ?p\<lparr>lp_next := ((lp_next p + 1) mod ?n + k) mod ?n\<rparr>)"
    using Suc.IH [of ?p] n by simp
  have m: "((lp_next p + 1) mod ?n + i) mod ?n = (lp_next p + Suc i) mod ?n" for i
    by (simp add: mod_add_left_eq)
  have u: "map f [0..<Suc k] = f 0 # map (\<lambda>i. f (Suc i)) [0..<k]" for f :: "nat \<Rightarrow> nat"
    by (simp add: map_upt_Suc del: upt_Suc)
  show ?case
    unfolding next_loops.simps getNextLoop_some [OF Suc.prems] Let_def prod.case ih m u
    using Suc.prems by simp
qed

text \<open>Once the pool runs on \<open>n\<close> threads, any \<open>n\<close> connections in a row are given to \<open>n\<close> different loops, every loop
  once, and the \<open>k\<close>-th connection gets loop \<open>k mod n\<close>.\<close>

theorem connections_are_spread:
  assumes "pool_start startLoop (p\<lparr>lp_numThreads := n\<rparr>) = Inr p'" "0 < n" "lp_loops p = []" "lp_next p = 0"
  shows "(\<forall>k. fst (next_loops k p') = map (\<lambda>i. startLoop (i mod n)) [0..<k])
    \<and> (\<forall>k. mset (fst (next_loops n (snd (next_loops k p')))) = mset (map startLoop [0..<n]))"
proof (intro conjI allI)
  have loops: "lp_loops p' = map startLoop [0..<n]" "lp_next p' = 0"
    using assms by (auto simp: pool_start_def assert_c_def split: if_splits)
  have lt: "lp_next p' < length (lp_loops p')" using loops assms(2) by simp
  show "fst (next_loops k p') = map (\<lambda>i. startLoop (i mod n)) [0..<k]" for k
    using next_loops_round_robin [OF lt] loops assms(2) by simp
  fix k
  let ?p = "snd (next_loops k p')"
  have p: "lp_loops ?p = map startLoop [0..<n]" "lp_next ?p = k mod n"
    using next_loops_round_robin [OF lt] loops by simp_all
  have lt2: "lp_next ?p < length (lp_loops ?p)" using p assms(2) by simp
  have "fst (next_loops n ?p) = map (\<lambda>i. startLoop ((k mod n + i) mod n)) [0..<n]"
    using next_loops_round_robin [OF lt2] p assms(2) by simp
  also have "\<dots> = map startLoop (rotate k [0..<n])"
    by (intro nth_equalityI) (simp_all add: nth_rotate mod_add_left_eq add.commute [of _ k] add.commute [of _ "k mod n"])
  finally show "mset (fst (next_loops n ?p)) = mset (map startLoop [0..<n])"
    by (simp add: mset_rotate_list)
qed

theorem connections_are_spread_witness:
  "\<exists>p'. pool_start (\<lambda>i. 10 + i) ((new_loop_pool 1)\<lparr>lp_numThreads := 3\<rparr>) = Inr p'
     \<and> fst (next_loops 5 p') = [10, 11, 12, 10, 11]"
proof -
  obtain p' where p': "pool_start (\<lambda>i. 10 + i) ((new_loop_pool 1)\<lparr>lp_numThreads := 3\<rparr>) = Inr p'"
    by (simp add: pool_start_def new_loop_pool_def)
  from connections_are_spread [OF p'] have "fst (next_loops 5 p') = map (\<lambda>i. 10 + i mod 3) [0..<5]"
    by (simp add: new_loop_pool_def)
  with p' show ?thesis by (simp add: upt_rec)
qed

end
