(* ===== verification/TcpServer.thy ===== *)
theory TcpServer
  imports TcpConnection Sockets EventLoop
begin

text \<open>
  net/TcpServer.h and net/TcpServer.cc: the table of connections of a server and their life cycle over the
  loops of its pool. A connection is a number; its record holds its name, its loop and the
  TcpConnection. The functors queued on each loop are the state's \<open>ts_queues\<close>; what runs in a
  loop's thread runs one functor or one event at a time.
\<close>

section \<open>State\<close>

datatype server_functor =
    Fn_established nat
  | Fn_remove nat
  | Fn_destroyed nat
  | Fn_forceClose nat

record server_conn =
  sc_name :: "char list"
  sc_loop :: nat
  sc_conn :: tcp_conn

record tcp_server =
  ts_ipPort :: "char list"
  ts_name :: "char list"
  ts_listenning :: bool
  ts_pool :: loop_pool
  ts_started :: bool
  ts_nextConnId :: nat
  ts_connections :: "(char list, nat) std_map"
  ts_heap :: "server_conn list"
  ts_queues :: "nat \<Rightarrow> server_functor list"

text \<open>The constructor, with the address it listens on.\<close>

definition new_tcp_server :: "nat \<Rightarrow> sockaddr_in \<Rightarrow> char list \<Rightarrow> tcp_server res" where
  "new_tcp_server loop listenAddr nameArg =
     rbind (toIpPort listenAddr) (\<lambda>ipPort.
       Inr \<lparr>ts_ipPort = ipPort, ts_name = nameArg, ts_listenning = False, ts_pool = new_loop_pool loop,
            ts_started = False, ts_nextConnId = 1, ts_connections = [], ts_heap = [], ts_queues = \<lambda>_. []\<rparr>)"

definition ts_loop :: "tcp_server \<Rightarrow> nat" where
  "ts_loop s = lp_baseLoop (ts_pool s)"

definition ts_queueInLoop :: "nat \<Rightarrow> server_functor \<Rightarrow> tcp_server \<Rightarrow> tcp_server" where
  "ts_queueInLoop l f s = s\<lparr>ts_queues := (ts_queues s)(l := ts_queues s l @ [f])\<rparr>"

definition ts_put :: "nat \<Rightarrow> tcp_conn \<Rightarrow> tcp_server \<Rightarrow> tcp_server" where
  "ts_put i c s = s\<lparr>ts_heap := (ts_heap s)[i := (ts_heap s ! i)\<lparr>sc_conn := c\<rparr>]\<rparr>"

definition ts_conn :: "nat \<Rightarrow> tcp_server \<Rightarrow> server_conn res" where
  "ts_conn i s = (if i < length (ts_heap s) then Inr (ts_heap s ! i) else Inl Null_pointer)"

section \<open>Operations\<close>

definition ts_setThreadNum :: "int \<Rightarrow> tcp_server \<Rightarrow> tcp_server res" where
  "ts_setThreadNum n s =
     assert_c (0 \<le> n) (rbind (setThreadNum n (ts_pool s)) (\<lambda>p. Inr (s\<lparr>ts_pool := p\<rparr>)))"

text \<open>start, called in the loop's thread, so that listen runs at once.\<close>

definition ts_start :: "(nat \<Rightarrow> nat) \<Rightarrow> tcp_server \<Rightarrow> tcp_server res" where
  "ts_start startLoop s =
     rbind (if \<not> ts_started s then
              (let s = s\<lparr>ts_started := True\<rparr> in rbind (pool_start startLoop (ts_pool s)) (\<lambda>p. Inr (s\<lparr>ts_pool := p\<rparr>)))
            else Inr s)
       (\<lambda>s. Inr (if \<not> ts_listenning s then s\<lparr>ts_listenning := True\<rparr> else s))"

definition conn_name :: "char list \<Rightarrow> nat \<Rightarrow> char list" where
  "conn_name server_name connId = server_name @ snprintf 32 (''#'' @ dec_nat connId)"

definition removeConnectionInLoop :: "nat \<Rightarrow> tcp_server \<Rightarrow> tcp_server res" where
  "removeConnectionInLoop i s =
     rbind (ts_conn i s) (\<lambda>sc.
       let n = (if map_of (ts_connections s) (sc_name sc) = None then 0 else 1 :: nat);
           s = s\<lparr>ts_connections := map_erase (sc_name sc) (ts_connections s)\<rparr>
       in assert_c (n = 1) (Inr (ts_queueInLoop (sc_loop sc) (Fn_destroyed i) s)))"

text \<open>removeConnection, the close callback, called in the thread of loop \<open>tid\<close>.\<close>

definition removeConnection :: "nat \<Rightarrow> nat \<Rightarrow> tcp_server \<Rightarrow> tcp_server res" where
  "removeConnection tid i s =
     (if ts_loop s = tid then removeConnectionInLoop i s else Inr (ts_queueInLoop (ts_loop s) (Fn_remove i) s))"

text \<open>handleClose of a connection in its loop, with the close callback it ends in.\<close>

definition close_conn :: "nat \<Rightarrow> tcp_server \<Rightarrow> tcp_server res" where
  "close_conn i s =
     rbind (ts_conn i s) (\<lambda>sc.
       rbind (handleClose (sc_conn sc)) (\<lambda>c. removeConnection (sc_loop sc) i (ts_put i c s)))"

text \<open>The functors. The connection callback is an argument.\<close>

fun run_functor :: "(tcp_conn \<Rightarrow> tcp_conn res) \<Rightarrow> server_functor \<Rightarrow> tcp_server \<Rightarrow> tcp_server res" where
  "run_functor cb (Fn_established i) s =
     rbind (ts_conn i s) (\<lambda>sc. rbind (connectEstablished cb (sc_conn sc)) (\<lambda>c. Inr (ts_put i c s)))"
| "run_functor cb (Fn_remove i) s = removeConnectionInLoop i s"
| "run_functor cb (Fn_destroyed i) s =
     rbind (ts_conn i s) (\<lambda>sc. rbind (connectDestroyed cb (sc_conn sc)) (\<lambda>c. Inr (ts_put i c s)))"
| "run_functor cb (Fn_forceClose i) s =
     rbind (ts_conn i s) (\<lambda>sc.
       if tc_state (sc_conn sc) = kConnected \<or> tc_state (sc_conn sc) = kDisconnecting then close_conn i s else Inr s)"

definition newConnection :: "(tcp_conn \<Rightarrow> tcp_conn res) \<Rightarrow> int \<Rightarrow> tcp_server \<Rightarrow> tcp_server res" where
  "newConnection cb sockfd s =
     (let connName = conn_name (ts_name s) (ts_nextConnId s);
          s = s\<lparr>ts_nextConnId := ts_nextConnId s + 1\<rparr>;
          (ioLoop, pool) = getNextLoop (ts_pool s);
          i = length (ts_heap s);
          conn = \<lparr>sc_name = connName, sc_loop = ioLoop, sc_conn = new_tcp_conn sockfd False\<rparr>;
          s = s\<lparr>ts_pool := pool, ts_heap := ts_heap s @ [conn],
                ts_connections := map_put connName i (ts_connections s)\<rparr>
      in if ioLoop = ts_loop s then run_functor cb (Fn_established i) s
         else Inr (ts_queueInLoop ioLoop (Fn_established i) s))"

text \<open>forceClose and shutdown of a connection, called in its loop's thread.\<close>

definition force_close_conn :: "nat \<Rightarrow> tcp_server \<Rightarrow> tcp_server res" where
  "force_close_conn i s =
     rbind (ts_conn i s) (\<lambda>sc.
       let c = sc_conn sc; s' = ts_put i (forceClose c) s
       in Inr (if tc_state c = kConnected \<or> tc_state c = kDisconnecting
               then ts_queueInLoop (sc_loop sc) (Fn_forceClose i) s' else s'))"

definition run_next :: "(tcp_conn \<Rightarrow> tcp_conn res) \<Rightarrow> nat \<Rightarrow> tcp_server \<Rightarrow> tcp_server res" where
  "run_next cb l s =
     (case ts_queues s l of
        [] \<Rightarrow> Inr s
      | f # fs \<Rightarrow> run_functor cb f (s\<lparr>ts_queues := (ts_queues s)(l := fs)\<rparr>))"

section \<open>The life of the connections\<close>

text \<open>
  The events: a new connection is accepted (fewer than 2^31 - 1 of them, so that the int that numbers
  them does not overflow), the peer closes (the channel of the connection must be
  interested in events), the connection is shut down by its user, a loop runs its next functor.
\<close>

datatype server_event = Sv_accept int | Sv_peer_closes nat | Sv_shutdown nat | Sv_run nat

fun sv_enabled :: "server_event \<Rightarrow> tcp_server \<Rightarrow> bool" where
  "sv_enabled (Sv_peer_closes i) s \<longleftrightarrow>
     i < length (ts_heap s) \<and> tc_state (sc_conn (ts_heap s ! i)) \<in> {kConnected, kDisconnecting}
     \<and> \<not> isNoneEvent (tc_channel (sc_conn (ts_heap s ! i)))"
| "sv_enabled (Sv_shutdown i) s \<longleftrightarrow> i < length (ts_heap s)"
| "sv_enabled (Sv_accept fd) s \<longleftrightarrow> 0 \<le> fd \<and> ts_nextConnId s < 2 ^ 31 - 1"
| "sv_enabled (Sv_run l) s \<longleftrightarrow> True"

fun sv_do :: "(tcp_conn \<Rightarrow> tcp_conn res) \<Rightarrow> server_event \<Rightarrow> tcp_server \<Rightarrow> tcp_server res" where
  "sv_do cb (Sv_peer_closes i) s = close_conn i s"
| "sv_do cb (Sv_shutdown i) s = rbind (ts_conn i s) (\<lambda>sc. Inr (ts_put i (shutdown (sc_conn sc)) s))"
| "sv_do cb (Sv_accept fd) s = newConnection cb fd s"
| "sv_do cb (Sv_run l) s = run_next cb l s"

definition sv_step :: "(tcp_conn \<Rightarrow> tcp_conn res) \<Rightarrow> tcp_server \<Rightarrow> tcp_server \<Rightarrow> bool" where
  "sv_step cb s s' \<longleftrightarrow> (\<exists>e. sv_enabled e s \<and> sv_do cb e s = Inr s')"

definition sv_init :: "tcp_server \<Rightarrow> bool" where
  "sv_init s \<longleftrightarrow> ts_heap s = [] \<and> ts_connections s = [] \<and> (\<forall>l. ts_queues s l = []) \<and> ts_nextConnId s = 1"

text \<open>A connection callback that leaves the state and the channel of the connection alone and does not fail.\<close>

definition cb_ok :: "(tcp_conn \<Rightarrow> tcp_conn res) \<Rightarrow> bool" where
  "cb_ok cb \<longleftrightarrow> (\<forall>c. \<exists>c'. cb c = Inr c' \<and> tc_state c' = tc_state c \<and> tc_channel c' = tc_channel c)"

text \<open>Where a connection is in its life, read off its state, its interest and the table.\<close>

datatype phase = Starting | Up | Closing | Removed | Gone

definition phase_of :: "tcp_conn \<Rightarrow> bool \<Rightarrow> phase" where
  "phase_of c in_table =
     (case tc_state c of
        kConnecting \<Rightarrow> Starting
      | kDisconnected \<Rightarrow> Gone
      | _ \<Rightarrow> if \<not> in_table then Removed else if isNoneEvent (tc_channel c) then Closing else Up)"

definition in_table :: "tcp_server \<Rightarrow> nat \<Rightarrow> bool" where
  "in_table s i \<longleftrightarrow> map_of (ts_connections s) (sc_name (ts_heap s ! i)) = Some i"

definition ts_phase :: "tcp_server \<Rightarrow> nat \<Rightarrow> phase" where
  "ts_phase s i = phase_of (sc_conn (ts_heap s ! i)) (in_table s i)"

text \<open>
  The queue of loop \<open>l\<close> holds the functor that takes connection \<open>i\<close> to its next phase exactly
  once, and no other functor of that connection.
\<close>

definition functor_of :: "server_functor \<Rightarrow> nat" where
  "functor_of f = (case f of Fn_established i \<Rightarrow> i | Fn_remove i \<Rightarrow> i | Fn_destroyed i \<Rightarrow> i | Fn_forceClose i \<Rightarrow> i)"

definition expected :: "tcp_server \<Rightarrow> nat \<Rightarrow> nat \<Rightarrow> server_functor list" where
  "expected s l i =
     (case ts_phase s i of
        Starting \<Rightarrow> if l = sc_loop (ts_heap s ! i) then [Fn_established i] else []
      | Closing \<Rightarrow> if l = ts_loop s then [Fn_remove i] else []
      | Removed \<Rightarrow> if l = sc_loop (ts_heap s ! i) then [Fn_destroyed i] else []
      | _ \<Rightarrow> [])"

definition sv_queues :: "tcp_server \<Rightarrow> bool" where
  "sv_queues s \<longleftrightarrow>
     (\<forall>l i. filter (\<lambda>f. functor_of f = i) (ts_queues s l) = (if i < length (ts_heap s) then expected s l i else []))"

definition sv_table :: "tcp_server \<Rightarrow> bool" where
  "sv_table s \<longleftrightarrow>
     (\<forall>i < length (ts_heap s). sc_name (ts_heap s ! i) = conn_name (ts_name s) (i + 1)
          \<and> (ts_phase s i = Starting \<longrightarrow> in_table s i \<and> ch_events (tc_channel (sc_conn (ts_heap s ! i))) = 0)
          \<and> (ts_phase s i = Gone \<longrightarrow> \<not> in_table s i)
          \<and> (ts_phase s i = Removed \<longrightarrow> isNoneEvent (tc_channel (sc_conn (ts_heap s ! i)))))
     \<and> ts_nextConnId s = length (ts_heap s) + 1 \<and> length (ts_heap s) < 2 ^ 31 - 1
     \<and> (\<forall>name i. map_of (ts_connections s) name = Some i \<longrightarrow> i < length (ts_heap s) \<and> name = sc_name (ts_heap s ! i))"

definition sv_inv :: "tcp_server \<Rightarrow> bool" where
  "sv_inv s \<longleftrightarrow> sv_queues s \<and> sv_table s"

lemma dec_nat_inject: "dec_nat m = dec_nat n \<longleftrightarrow> m = n"
  by (metis digits_val_dec_nat of_nat_eq_iff)

lemma conn_name_inject:
  assumes "a < 2 ^ 31" "b < 2 ^ 31"
  shows "conn_name n a = conn_name n b \<longleftrightarrow> a = b"
proof -
  have "length (dec_nat x) \<le> 10" if "x < 2 ^ 31" for x
    using that by (intro length_dec_nat) simp_all
  note this [OF assms(1)] this [OF assms(2)]
  then show ?thesis by (simp add: conn_name_def dec_nat_inject)
qed

definition put_first :: "nat \<Rightarrow> server_functor \<Rightarrow> tcp_server \<Rightarrow> tcp_server" where
  "put_first l f s = s\<lparr>ts_queues := (ts_queues s)(l := f # ts_queues s l)\<rparr>"

lemma put_first_simps [simp]:
  "ts_heap (put_first l f s) = ts_heap s" "ts_connections (put_first l f s) = ts_connections s"
  "ts_phase (put_first l f s) = ts_phase s" "in_table (put_first l f s) = in_table s" "ts_loop (put_first l f s) = ts_loop s"
  "ts_name (put_first l f s) = ts_name s" "ts_nextConnId (put_first l f s) = ts_nextConnId s"
  "expected (put_first l f s) = expected s"
  by (simp_all add: put_first_def ts_phase_def in_table_def ts_loop_def expected_def fun_eq_iff)

lemma queueInLoop_simps [simp]:
  "ts_heap (ts_queueInLoop l f s) = ts_heap s" "ts_connections (ts_queueInLoop l f s) = ts_connections s"
  "ts_phase (ts_queueInLoop l f s) = ts_phase s" "in_table (ts_queueInLoop l f s) = in_table s" "ts_loop (ts_queueInLoop l f s) = ts_loop s"
  "ts_name (ts_queueInLoop l f s) = ts_name s" "ts_nextConnId (ts_queueInLoop l f s) = ts_nextConnId s"
  "expected (ts_queueInLoop l f s) = expected s"
  by (simp_all add: ts_queueInLoop_def ts_phase_def in_table_def ts_loop_def expected_def fun_eq_iff)

lemma sv_table_queues [simp]: "sv_table (put_first l f s) = sv_table s" "sv_table (ts_queueInLoop l f s) = sv_table s"
  by (simp_all add: sv_table_def)

lemma length_expected: "length (expected s l i) \<le> 1"
  by (simp add: expected_def split: phase.split)

text \<open>A functor at the head of a queue: which connection it belongs to, and that it is the only one there.\<close>

lemma head_functor:
  assumes inv: "sv_inv (put_first l f s)"
  defines "i \<equiv> functor_of f"
  shows "i < length (ts_heap s)" "expected s l i = [f]" "\<And>l'. filter (\<lambda>g. functor_of g = i) (ts_queues s l') = (if l' = l then [] else expected s l' i)"
proof -
  have q: "filter (\<lambda>g. functor_of g = j) (ts_queues (put_first l f s) l') = (if j < length (ts_heap s) then expected s l' j else [])" for j l'
    using inv by (simp add: sv_inv_def sv_queues_def)
  have h: "f # filter (\<lambda>g. functor_of g = i) (ts_queues s l) = (if i < length (ts_heap s) then expected s l i else [])"
    using q [of i l] by (simp add: put_first_def i_def)
  then show i: "i < length (ts_heap s)" by (auto split: if_splits)
  with h have e: "f # filter (\<lambda>g. functor_of g = i) (ts_queues s l) = expected s l i" by simp
  then have "length (f # filter (\<lambda>g. functor_of g = i) (ts_queues s l)) \<le> 1" using length_expected [of s l i] by simp
  then show x: "expected s l i = [f]" using e by (cases "filter (\<lambda>g. functor_of g = i) (ts_queues s l)") auto
  fix l'
  show "filter (\<lambda>g. functor_of g = i) (ts_queues s l') = (if l' = l then [] else expected s l' i)"
    using q [of i l'] e x i by (auto simp: put_first_def)
qed

lemma other_functors:
  assumes "sv_inv (put_first l f s)" "j \<noteq> functor_of f"
  shows "filter (\<lambda>g. functor_of g = j) (ts_queues s l') = (if j < length (ts_heap s) then expected s l' j else [])"
proof -
  have "filter (\<lambda>g. functor_of g = j) (ts_queues (put_first l f s) l') = (if j < length (ts_heap s) then expected s l' j else [])"
    using assms(1) by (simp add: sv_inv_def sv_queues_def)
  then show ?thesis using assms(2) by (cases "l' = l") (simp_all add: put_first_def)
qed

lemma sv_inv_append: "sv_inv (put_first l f s) \<Longrightarrow> sv_inv (ts_queueInLoop l f s)"
proof -
  assume inv: "sv_inv (put_first l f s)"
  have "filter (\<lambda>g. functor_of g = j) (ts_queues (ts_queueInLoop l f s) l')
      = filter (\<lambda>g. functor_of g = j) (ts_queues (put_first l f s) l')" for j l'
    using head_functor(3) [OF inv, of l] by (auto simp: ts_queueInLoop_def put_first_def)
  then show ?thesis using inv by (simp add: sv_inv_def sv_queues_def)
qed

text \<open>Changing one connection, with the functors of the others and the table as they are.\<close>

lemma ts_put_simps [simp]:
  "length (ts_heap (ts_put i c s)) = length (ts_heap s)" "ts_connections (ts_put i c s) = ts_connections s"
  "ts_loop (ts_put i c s) = ts_loop s" "ts_name (ts_put i c s) = ts_name s" "ts_nextConnId (ts_put i c s) = ts_nextConnId s"
  "ts_queues (ts_put i c s) = ts_queues s"
  by (simp_all add: ts_put_def ts_loop_def)

lemma ts_put_heap: "j < length (ts_heap s) \<Longrightarrow>
    ts_heap (ts_put i c s) ! j = (if j = i then (ts_heap s ! i)\<lparr>sc_conn := c\<rparr> else ts_heap s ! j)"
  by (simp add: ts_put_def nth_list_update)

lemma ts_put_table: "j < length (ts_heap s) \<Longrightarrow> in_table (ts_put i c s) j = in_table s j"
  by (simp add: in_table_def ts_put_heap)

lemma ts_put_phase: "j < length (ts_heap s) \<Longrightarrow>
    ts_phase (ts_put i c s) j = (if j = i then phase_of c (in_table s i) else ts_phase s j)"
  by (simp add: ts_phase_def ts_put_table ts_put_heap)

lemma expected_put: "j < length (ts_heap s) \<Longrightarrow> j \<noteq> i \<Longrightarrow> expected (ts_put i c s) l j = expected s l j"
  by (simp add: expected_def ts_put_phase ts_put_heap)

lemma sv_table_put:
  assumes inv: "sv_table s" and ph: "phase_of c (in_table s i) \<noteq> Starting" "phase_of c (in_table s i) = Gone \<longrightarrow> \<not> in_table s i"
      "phase_of c (in_table s i) = Removed \<longrightarrow> isNoneEvent (tc_channel c)"
  shows "sv_table (ts_put i c s)"
  unfolding sv_table_def
proof (intro conjI allI impI)
  fix j assume "j < length (ts_heap (ts_put i c s))"
  then have j: "j < length (ts_heap s)" by simp
  have old: "sc_name (ts_heap s ! j) = conn_name (ts_name s) (j + 1)"
      "ts_phase s j = Starting \<Longrightarrow> in_table s j \<and> ch_events (tc_channel (sc_conn (ts_heap s ! j))) = 0"
      "ts_phase s j = Gone \<Longrightarrow> \<not> in_table s j"
      "ts_phase s j = Removed \<Longrightarrow> isNoneEvent (tc_channel (sc_conn (ts_heap s ! j)))"
    using inv j unfolding sv_table_def by auto
  show "sc_name (ts_heap (ts_put i c s) ! j) = conn_name (ts_name (ts_put i c s)) (j + 1)"
    using old(1) j by (auto simp: ts_put_heap)
  show "in_table (ts_put i c s) j" "ch_events (tc_channel (sc_conn (ts_heap (ts_put i c s) ! j))) = 0"
    if "ts_phase (ts_put i c s) j = Starting"
    using that old(2) j ph(1) by (auto simp: ts_put_phase ts_put_table ts_put_heap split: if_splits)
  show "\<not> in_table (ts_put i c s) j" if "ts_phase (ts_put i c s) j = Gone"
    using that old(3) j ph(2) by (auto simp: ts_put_phase ts_put_table split: if_splits)
  show "isNoneEvent (tc_channel (sc_conn (ts_heap (ts_put i c s) ! j)))" if "ts_phase (ts_put i c s) j = Removed"
    using that old(4) j ph(3) by (auto simp: ts_put_phase ts_put_heap split: if_splits)
next
  show "ts_nextConnId (ts_put i c s) = length (ts_heap (ts_put i c s)) + 1" "length (ts_heap (ts_put i c s)) < 2 ^ 31 - 1"
    using inv by (simp_all add: sv_table_def)
next
  fix name j assume "map_of (ts_connections (ts_put i c s)) name = Some j"
  then have "j < length (ts_heap s)" "name = sc_name (ts_heap s ! j)" using inv by (auto simp: sv_table_def)
  then show "j < length (ts_heap (ts_put i c s))" "name = sc_name (ts_heap (ts_put i c s) ! j)"
    by (simp_all add: ts_put_heap)
qed

text \<open>The functor at the head moves its connection on: the queues agree again when the connection's new phase expects nothing.\<close>

lemma sv_queues_put:
  assumes inv: "sv_inv (put_first l f s)" and next': "\<And>l. expected (ts_put (functor_of f) c s) l (functor_of f) = []"
    and one: "\<And>l'. l' \<noteq> l \<Longrightarrow> expected s l' (functor_of f) = []"
  shows "sv_queues (ts_put (functor_of f) c s)"
  unfolding sv_queues_def
proof (intro allI)
  fix l' j
  let ?i = "functor_of f"
  show "filter (\<lambda>g. functor_of g = j) (ts_queues (ts_put ?i c s) l')
      = (if j < length (ts_heap (ts_put ?i c s)) then expected (ts_put ?i c s) l' j else [])"
  proof (cases "j = ?i")
    case True
    then show ?thesis using head_functor [OF inv] one [of l'] next' by auto
  next
    case False
    then show ?thesis using other_functors [OF inv False] by (simp add: expected_put)
  qed
qed

lemma sv_inv_put_head:
  assumes inv: "sv_inv (put_first l f s)" and next': "\<And>l. expected (ts_put (functor_of f) c s) l (functor_of f) = []"
    and one: "\<And>l'. l' \<noteq> l \<Longrightarrow> expected s l' (functor_of f) = []"
    and ph: "phase_of c (in_table s (functor_of f)) = Up \<or> phase_of c (in_table s (functor_of f)) = Gone \<and> \<not> in_table s (functor_of f)"
  shows "sv_inv (ts_put (functor_of f) c s)"
  using sv_queues_put [OF inv next' one] sv_table_put [of s c "functor_of f"] inv ph by (auto simp: sv_inv_def)

text \<open>connectEstablished and connectDestroyed, with a well-behaved callback.\<close>

lemma connectEstablished_ok:
  assumes "cb_ok cb" "tc_state c = kConnecting" "ch_events (tc_channel c) = 0"
  shows "\<exists>c'. connectEstablished cb c = Inr c' \<and> tc_state c' = kConnected \<and> \<not> isNoneEvent (tc_channel c')"
proof -
  let ?c = "set_events (set_bits_of kReadEvent) (setState kConnected c)"
  let ?d = "?c\<lparr>tc_connectionCalls := tc_connectionCalls ?c @ [True]\<rparr>"
  obtain c' where c': "cb ?d = Inr c'" "tc_state c' = tc_state ?d" "tc_channel c' = tc_channel ?d"
    using assms(1) unfolding cb_ok_def by blast
  have "set_bits_of kReadEvent 0 \<noteq> 0" by (simp add: set_bits_of_def kReadEvent_def poll_consts)
  then have "\<not> isNoneEvent (tc_channel ?d)" using assms(3) by (simp add: isNoneEvent_def kNoneEvent_def setState_def)
  then show ?thesis using c' assms(2) by (simp add: connectEstablished_def Let_def setState_def isNoneEvent_def)
qed

lemma connectDestroyed_ok:
  assumes "cb_ok cb" "tc_state c = kConnected \<or> tc_state c = kDisconnecting"
  shows "\<exists>c'. connectDestroyed cb c = Inr c' \<and> tc_state c' = kDisconnected"
proof -
  let ?c = "set_events (\<lambda>_. kNoneEvent) (setState kDisconnected c)"
  let ?d = "?c\<lparr>tc_connectionCalls := tc_connectionCalls ?c @ [False]\<rparr>"
  obtain c' where c': "cb ?d = Inr c'" "tc_state c' = tc_state ?d"
    using assms(1) unfolding cb_ok_def by blast
  then show ?thesis using assms(2) by (auto simp: connectDestroyed_def Let_def setState_def)
qed

lemma run_established:
  assumes inv: "sv_inv (put_first l (Fn_established i) s)" and cb: "cb_ok cb"
  shows "\<exists>s'. run_functor cb (Fn_established i) s = Inr s' \<and> sv_inv s'"
proof -
  note h = head_functor [OF inv, unfolded functor_of_def server_functor.case]
  have ph: "ts_phase s i = Starting" "l = sc_loop (ts_heap s ! i)"
    using h(2) by (auto simp: expected_def split: phase.splits if_splits)
  have st: "tc_state (sc_conn (ts_heap s ! i)) = kConnecting"
    using ph(1) by (auto simp: ts_phase_def phase_of_def split: conn_state.splits if_splits)
  have tb: "in_table s i" "ch_events (tc_channel (sc_conn (ts_heap s ! i))) = 0"
    using inv ph(1) h(1) by (auto simp: sv_inv_def sv_table_def)
  obtain c' where c': "connectEstablished cb (sc_conn (ts_heap s ! i)) = Inr c'" "tc_state c' = kConnected" "\<not> isNoneEvent (tc_channel c')"
    using connectEstablished_ok [OF cb st tb(2)] by blast
  have up: "phase_of c' (in_table s i) = Up" using c' tb by (simp add: phase_of_def)
  have "expected (ts_put i c' s) l' i = []" for l' using up h(1) by (simp add: expected_def ts_put_phase)
  moreover have "expected s l' i = []" if "l' \<noteq> l" for l' using that ph by (simp add: expected_def)
  ultimately have "sv_inv (ts_put i c' s)"
    using sv_inv_put_head [OF inv, of c'] up by (simp add: functor_of_def)
  then show ?thesis using c'(1) h(1) by (simp add: ts_conn_def)
qed

lemma run_destroyed:
  assumes inv: "sv_inv (put_first l (Fn_destroyed i) s)" and cb: "cb_ok cb"
  shows "\<exists>s'. run_functor cb (Fn_destroyed i) s = Inr s' \<and> sv_inv s'"
proof -
  note h = head_functor [OF inv, unfolded functor_of_def server_functor.case]
  have ph: "ts_phase s i = Removed" "l = sc_loop (ts_heap s ! i)"
    using h(2) by (auto simp: expected_def split: phase.splits if_splits)
  have st: "tc_state (sc_conn (ts_heap s ! i)) = kConnected \<or> tc_state (sc_conn (ts_heap s ! i)) = kDisconnecting" "\<not> in_table s i"
    using ph(1) by (auto simp: ts_phase_def phase_of_def split: conn_state.splits if_splits)
  obtain c' where c': "connectDestroyed cb (sc_conn (ts_heap s ! i)) = Inr c'" "tc_state c' = kDisconnected"
    using connectDestroyed_ok [OF cb st(1)] by blast
  have gone: "phase_of c' (in_table s i) = Gone" using c' by (simp add: phase_of_def)
  have "expected (ts_put i c' s) l' i = []" for l' using gone h(1) by (simp add: expected_def ts_put_phase)
  moreover have "expected s l' i = []" if "l' \<noteq> l" for l' using that ph by (simp add: expected_def)
  ultimately have "sv_inv (ts_put i c' s)"
    using sv_inv_put_head [OF inv, of c'] gone st(2) by (simp add: functor_of_def)
  then show ?thesis using c'(1) h(1) by (simp add: ts_conn_def)
qed

lemma names_distinct:
  assumes "sv_table s" "i < length (ts_heap s)" "j < length (ts_heap s)"
  shows "sc_name (ts_heap s ! i) = sc_name (ts_heap s ! j) \<longleftrightarrow> i = j"
proof -
  have "i + 1 < 2 ^ 31" "j + 1 < 2 ^ 31" using assms by (auto simp: sv_table_def)
  then show ?thesis using assms conn_name_inject [of "i + 1" "j + 1"] by (auto simp: sv_table_def)
qed

lemma run_remove:
  assumes inv: "sv_inv (put_first l (Fn_remove i) s)"
  shows "\<exists>s'. removeConnectionInLoop i s = Inr s' \<and> sv_inv s'"
proof -
  note h = head_functor [OF inv, unfolded functor_of_def server_functor.case]
  have tbl: "sv_table s" using inv by (simp add: sv_inv_def)
  have ph: "ts_phase s i = Closing" "l = ts_loop s"
    using h(2) by (auto simp: expected_def split: phase.splits if_splits)
  have st: "tc_state (sc_conn (ts_heap s ! i)) = kConnected \<or> tc_state (sc_conn (ts_heap s ! i)) = kDisconnecting"
      "in_table s i" "isNoneEvent (tc_channel (sc_conn (ts_heap s ! i)))"
    using ph(1) by (auto simp: ts_phase_def phase_of_def split: conn_state.splits if_splits)
  let ?n = "sc_name (ts_heap s ! i)" and ?l = "sc_loop (ts_heap s ! i)"
  let ?s = "s\<lparr>ts_connections := map_erase ?n (ts_connections s)\<rparr>"
  have it: "in_table ?s j \<longleftrightarrow> j \<noteq> i \<and> in_table s j" if "j < length (ts_heap s)" for j
    using names_distinct [OF tbl that h(1)] by (auto simp: in_table_def)
  have phs: "ts_phase ?s j = (if j = i then Removed else ts_phase s j)" if "j < length (ts_heap s)" for j
    using it [OF that] st(1) by (auto simp: ts_phase_def phase_of_def)
  have ex: "expected ?s l' j = (if j = i then (if l' = ?l then [Fn_destroyed i] else []) else expected s l' j)"
    if "j < length (ts_heap s)" for l' j
    using phs [OF that] by (simp add: expected_def ts_loop_def)
  have none: "filter (\<lambda>g. functor_of g = i) (ts_queues s l') = []" for l'
    using h(3) [of l'] ph by (auto simp: expected_def functor_of_def)
  have other: "filter (\<lambda>g. functor_of g = j) (ts_queues s l') = (if j < length (ts_heap s) then expected s l' j else [])" if "j \<noteq> i" for l' j
    using other_functors [OF inv] that by (simp add: functor_of_def)
  have "sv_table ?s"
    unfolding sv_table_def
    using tbl phs it st(3) by (auto simp: sv_table_def split: if_splits) metis
  moreover have "sv_queues (ts_queueInLoop ?l (Fn_destroyed i) ?s)"
    unfolding sv_queues_def
  proof (intro allI)
    fix l' j
    have q: "ts_queues (ts_queueInLoop ?l (Fn_destroyed i) ?s) l' = ts_queues s l' @ (if l' = ?l then [Fn_destroyed i] else [])"
      by (simp add: ts_queueInLoop_def)
    show "filter (\<lambda>f. functor_of f = j) (ts_queues (ts_queueInLoop ?l (Fn_destroyed i) ?s) l')
        = (if j < length (ts_heap (ts_queueInLoop ?l (Fn_destroyed i) ?s)) then expected (ts_queueInLoop ?l (Fn_destroyed i) ?s) l' j else [])"
      using none [of l'] other [of j l'] ex [of j l'] h(1) by (auto simp: q functor_of_def)
  qed
  ultimately have "sv_inv (ts_queueInLoop ?l (Fn_destroyed i) ?s)" by (simp add: sv_inv_def)
  moreover have "removeConnectionInLoop i s = Inr (ts_queueInLoop ?l (Fn_destroyed i) ?s)"
    using h(1) st(2) by (simp add: removeConnectionInLoop_def ts_conn_def in_table_def)
  ultimately show ?thesis by blast
qed

lemma handleClose_ok:
  assumes "tc_state c = kConnected \<or> tc_state c = kDisconnecting"
  shows "\<exists>c'. handleClose c = Inr c' \<and> tc_state c' = tc_state c \<and> isNoneEvent (tc_channel c')"
  using assms by (auto simp: handleClose_def Let_def isNoneEvent_def set_events_def)

lemma close_step:
  assumes inv: "sv_inv s" and e: "sv_enabled (Sv_peer_closes i) s"
  shows "\<exists>s'. close_conn i s = Inr s' \<and> sv_inv s'"
proof -
  have i: "i < length (ts_heap s)" and st: "tc_state (sc_conn (ts_heap s ! i)) = kConnected \<or> tc_state (sc_conn (ts_heap s ! i)) = kDisconnecting"
    and ev: "\<not> isNoneEvent (tc_channel (sc_conn (ts_heap s ! i)))"
    using e by auto
  have tbl: "sv_table s" using inv by (simp add: sv_inv_def)
  have "ts_phase s i \<noteq> Removed" using tbl i ev by (auto simp: sv_table_def)
  then have ph: "ts_phase s i = Up" "in_table s i"
    using st ev by (auto simp: ts_phase_def phase_of_def split: if_splits)
  obtain c' where c': "handleClose (sc_conn (ts_heap s ! i)) = Inr c'"
      "tc_state c' = tc_state (sc_conn (ts_heap s ! i))" "isNoneEvent (tc_channel c')"
    using handleClose_ok [OF st] by blast
  let ?s = "ts_put i c' s"
  have closing: "phase_of c' (in_table s i) = Closing" using c' st ph by (auto simp: phase_of_def)
  have ex: "expected ?s l j = (if j = i then (if l = ts_loop s then [Fn_remove i] else []) else expected s l j)"
    if "j < length (ts_heap s)" for l j
    using that closing by (cases "j = i") (simp_all add: expected_put, simp add: expected_def ts_put_phase)
  have "sv_queues (put_first (ts_loop s) (Fn_remove i) ?s)"
    unfolding sv_queues_def
  proof (intro allI)
    fix l j
    have q: "ts_queues (put_first (ts_loop s) (Fn_remove i) ?s) l = (if l = ts_loop s then [Fn_remove i] else []) @ ts_queues s l"
      by (simp add: put_first_def)
    have old: "filter (\<lambda>f. functor_of f = j) (ts_queues s l) = (if j < length (ts_heap s) then expected s l j else [])"
      using inv by (simp add: sv_inv_def sv_queues_def)
    have "expected s l i = []" using ph by (simp add: expected_def)
    then show "filter (\<lambda>f. functor_of f = j) (ts_queues (put_first (ts_loop s) (Fn_remove i) ?s) l)
        = (if j < length (ts_heap (put_first (ts_loop s) (Fn_remove i) ?s)) then expected (put_first (ts_loop s) (Fn_remove i) ?s) l j else [])"
      using old ex [of j l] i by (auto simp: q functor_of_def)
  qed
  moreover have "sv_table ?s" using sv_table_put [OF tbl, of c' i] closing by simp
  ultimately have inv1: "sv_inv (put_first (ts_loop s) (Fn_remove i) ?s)" by (simp add: sv_inv_def)
  have run: "close_conn i s = removeConnection (sc_loop (ts_heap s ! i)) i ?s"
    using i c'(1) by (simp add: close_conn_def ts_conn_def)
  show ?thesis
  proof (cases "ts_loop s = sc_loop (ts_heap s ! i)")
    case True
    then show ?thesis using run_remove [OF inv1] run by (simp add: removeConnection_def)
  next
    case False
    then show ?thesis using sv_inv_append [OF inv1] run by (simp add: removeConnection_def)
  qed
qed

lemma shutdown_step:
  assumes inv: "sv_inv s" and i: "i < length (ts_heap s)"
  shows "sv_inv (ts_put i (shutdown (sc_conn (ts_heap s ! i))) s)"
proof -
  let ?c = "shutdown (sc_conn (ts_heap s ! i))"
  have ch: "tc_channel ?c = tc_channel (sc_conn (ts_heap s ! i))"
    by (simp add: shutdown_def shutdownInLoop_def setState_def)
  have ph: "phase_of ?c (in_table s i) = ts_phase s i"
    by (simp add: ts_phase_def phase_of_def shutdown_def shutdownInLoop_def setState_def split: conn_state.split)
  then have phs: "ts_phase (ts_put i ?c s) j = ts_phase s j" if "j < length (ts_heap s)" for j
    using that by (simp add: ts_put_phase)
  have ex: "expected (ts_put i ?c s) l j = expected s l j" if "j < length (ts_heap s)" for l j
    using phs [OF that] that by (simp add: expected_def ts_put_heap)
  have "sv_queues (ts_put i ?c s)" using inv ex by (simp add: sv_inv_def sv_queues_def)
  moreover have "sv_table (ts_put i ?c s)"
    using inv phs ch by (auto simp: sv_inv_def sv_table_def ts_put_table ts_put_heap)
  ultimately show ?thesis by (simp add: sv_inv_def)
qed

lemma run_next_step:
  assumes inv: "sv_inv s" and cb: "cb_ok cb"
  shows "\<exists>s'. run_next cb l s = Inr s' \<and> sv_inv s'"
proof (cases "ts_queues s l")
  case Nil
  then show ?thesis using inv by (simp add: run_next_def)
next
  case (Cons f fs)
  let ?s = "s\<lparr>ts_queues := (ts_queues s)(l := fs)\<rparr>"
  have "put_first l f ?s = s" using Cons by (simp add: put_first_def fun_upd_idem)
  then have inv1: "sv_inv (put_first l f ?s)" using inv by simp
  have "\<exists>s'. run_functor cb f ?s = Inr s' \<and> sv_inv s'"
  proof (cases f)
    case (Fn_established i)
    then show ?thesis using run_established [OF _ cb] inv1 by blast
  next
    case (Fn_remove i)
    then show ?thesis using run_remove inv1 by simp
  next
    case (Fn_destroyed i)
    then show ?thesis using run_destroyed [OF _ cb] inv1 by blast
  next
    case (Fn_forceClose i)
    then show ?thesis using head_functor(2) [OF inv1] by (auto simp: expected_def split: phase.splits if_splits)
  qed
  then show ?thesis using Cons by (simp add: run_next_def)
qed

lemma accept_step:
  assumes inv: "sv_inv s" and cb: "cb_ok cb" and e: "sv_enabled (Sv_accept fd) s"
  shows "\<exists>s'. newConnection cb fd s = Inr s' \<and> sv_inv s'"
proof -
  have tbl: "sv_table s" using inv by (simp add: sv_inv_def)
  let ?i = "length (ts_heap s)"
  have id: "ts_nextConnId s = ?i + 1" "?i + 1 < 2 ^ 31 - 1" using tbl e by (simp_all add: sv_table_def)
  obtain l pool where gl: "getNextLoop (ts_pool s) = (l, pool)" by (cases "getNextLoop (ts_pool s)")
  have base: "lp_baseLoop pool = lp_baseLoop (ts_pool s)"
    using gl by (auto simp: getNextLoop_def Let_def split: if_splits)
  let ?n = "conn_name (ts_name s) (?i + 1)"
  let ?conn = "\<lparr>sc_name = ?n, sc_loop = l, sc_conn = new_tcp_conn fd False\<rparr>"
  let ?s = "s\<lparr>ts_nextConnId := ?i + 1 + 1, ts_pool := pool, ts_heap := ts_heap s @ [?conn],
      ts_connections := map_put ?n ?i (ts_connections s)\<rparr>"
  have names: "sc_name (ts_heap s ! j) \<noteq> ?n" if "j < ?i" for j
    using tbl that conn_name_inject [of "j + 1" "?i + 1"] id(2) by (auto simp: sv_table_def)
  have heap: "ts_heap ?s ! j = (if j = ?i then ?conn else ts_heap s ! j)" if "j < ?i + 1" for j
    using that by (simp add: nth_append)
  have tab: "in_table ?s j \<longleftrightarrow> j = ?i \<or> in_table s j" if "j < ?i + 1" for j
    using names [of j] that heap [OF that] by (auto simp: in_table_def)
  have ph: "ts_phase ?s j = (if j = ?i then Starting else ts_phase s j)" if "j < ?i + 1" for j
    using tab [OF that] heap [OF that] that by (auto simp: ts_phase_def phase_of_def new_tcp_conn_def)
  have ex: "expected ?s k j = (if j = ?i then (if k = l then [Fn_established ?i] else []) else expected s k j)" if "j < ?i + 1" for k j
    using ph [OF that] heap [OF that] base by (simp add: expected_def ts_loop_def)
  have "sv_queues (put_first l (Fn_established ?i) ?s)"
    unfolding sv_queues_def
  proof (intro allI)
    fix k j
    have q: "ts_queues (put_first l (Fn_established ?i) ?s) k = (if k = l then [Fn_established ?i] else []) @ ts_queues s k"
      by (simp add: put_first_def)
    have old: "filter (\<lambda>f. functor_of f = j) (ts_queues s k) = (if j < ?i then expected s k j else [])"
      using inv by (simp add: sv_inv_def sv_queues_def)
    show "filter (\<lambda>f. functor_of f = j) (ts_queues (put_first l (Fn_established ?i) ?s) k)
        = (if j < length (ts_heap (put_first l (Fn_established ?i) ?s)) then expected (put_first l (Fn_established ?i) ?s) k j else [])"
      unfolding q using old ex [of j k] by (auto simp: functor_of_def)
  qed
  moreover have "sv_table ?s"
    unfolding sv_table_def
  proof (intro conjI allI impI)
    fix j assume "j < length (ts_heap ?s)"
    then have j: "j < ?i + 1" by simp
    show "sc_name (ts_heap ?s ! j) = conn_name (ts_name ?s) (j + 1)"
      using tbl j heap [OF j] by (auto simp: sv_table_def)
    show "in_table ?s j" "ch_events (tc_channel (sc_conn (ts_heap ?s ! j))) = 0" if "ts_phase ?s j = Starting"
      using that tbl j heap [OF j] ph [OF j] tab [OF j] by (auto simp: sv_table_def new_tcp_conn_def new_channel_def split: if_splits)
    show "\<not> in_table ?s j" if "ts_phase ?s j = Gone"
      using that tbl j ph [OF j] tab [OF j] by (auto simp: sv_table_def split: if_splits)
    show "isNoneEvent (tc_channel (sc_conn (ts_heap ?s ! j)))" if "ts_phase ?s j = Removed"
      using that tbl j heap [OF j] ph [OF j] by (auto simp: sv_table_def split: if_splits)
  next
    show "ts_nextConnId ?s = length (ts_heap ?s) + 1" "length (ts_heap ?s) < 2 ^ 31 - 1" using id by simp_all
  next
    fix name j assume a: "map_of (ts_connections ?s) name = Some j"
    then have "name = ?n \<and> j = ?i \<or> map_of (ts_connections s) name = Some j" by (auto split: if_splits)
    then have "name = ?n \<and> j = ?i \<or> j < ?i \<and> name = sc_name (ts_heap s ! j)" using tbl by (auto simp: sv_table_def)
    then show "j < length (ts_heap ?s)" "name = sc_name (ts_heap ?s ! j)" by (auto simp: nth_append)
  qed
  ultimately have inv1: "sv_inv (put_first l (Fn_established ?i) ?s)" by (simp add: sv_inv_def)
  have run: "newConnection cb fd s = (if l = ts_loop ?s then run_functor cb (Fn_established ?i) ?s else Inr (ts_queueInLoop l (Fn_established ?i) ?s))"
    by (cases "l = ts_loop ?s") (simp_all add: newConnection_def gl id(1) Let_def del: run_functor.simps)
  show ?thesis
    using run_established [OF inv1 cb] sv_inv_append [OF inv1] unfolding run by (cases "l = ts_loop ?s") simp_all
qed

lemma sv_event_step:
  assumes "sv_inv s" "cb_ok cb" "sv_enabled e s"
  shows "\<exists>s'. sv_do cb e s = Inr s' \<and> sv_inv s'"
proof (cases e)
  case (Sv_accept fd)
  then show ?thesis using accept_step assms by simp
next
  case (Sv_peer_closes i)
  then show ?thesis using close_step assms by simp
next
  case (Sv_shutdown i)
  then show ?thesis using shutdown_step assms by (simp add: ts_conn_def)
next
  case (Sv_run l)
  then show ?thesis using run_next_step assms by simp
qed

definition good_callbacks :: "(tcp_conn \<Rightarrow> tcp_conn res) \<Rightarrow> tcp_server \<Rightarrow> bool" where
  "good_callbacks cb s \<longleftrightarrow> sv_init s \<and> cb_ok cb"

interpretation tcp_server: invariant_system "good_callbacks cb" "sv_step cb" "\<lambda>s. sv_inv s \<and> cb_ok cb"
proof unfold_locales
  show "good_callbacks cb s \<Longrightarrow> sv_inv s \<and> cb_ok cb" for s
    by (simp add: good_callbacks_def sv_init_def sv_inv_def sv_queues_def sv_table_def)
  show "sv_inv s \<and> cb_ok cb \<Longrightarrow> sv_step cb s t \<Longrightarrow> sv_inv t \<and> cb_ok cb" for s t
    unfolding sv_step_def using sv_event_step by fastforce
qed


text \<open>a connection for which a forced close is queued when its peer closes in the same iteration of the loop closes twice:
  handleClose leaves the state at kDisconnecting, so the queued forceCloseInLoop runs it again and the second
  removal from the table breaks the assertion of removeConnectionInLoop.\<close>

theorem force_close_races_with_peer:
  assumes "sv_inv s" "sv_enabled (Sv_peer_closes i) s" "sc_loop (ts_heap s ! i) = ts_loop s" "ts_queues s (ts_loop s) = []"
  shows "\<exists>s1 s2. force_close_conn i s = Inr s1 \<and> close_conn i s1 = Inr s2 \<and> run_next cb (ts_loop s2) s2 = Inl Assert_failed"
proof -
  have i: "i < length (ts_heap s)" and st: "tc_state (sc_conn (ts_heap s ! i)) = kConnected \<or> tc_state (sc_conn (ts_heap s ! i)) = kDisconnecting"
    and ev: "\<not> isNoneEvent (tc_channel (sc_conn (ts_heap s ! i)))"
    using assms(2) by auto
  have tbl: "sv_table s" using assms(1) by (simp add: sv_inv_def)
  then have "ts_phase s i \<noteq> Removed" using i ev by (auto simp: sv_table_def)
  then have tab: "map_of (ts_connections s) (sc_name (ts_heap s ! i)) = Some i"
    using st ev by (auto simp: ts_phase_def phase_of_def in_table_def split: if_splits)
  let ?c = "forceClose (sc_conn (ts_heap s ! i))"
  let ?l = "ts_loop s" and ?n = "sc_name (ts_heap s ! i)"
  let ?s1 = "ts_queueInLoop ?l (Fn_forceClose i) (ts_put i ?c s)"
  have f: "force_close_conn i s = Inr ?s1" using i st assms(3) by (simp add: force_close_conn_def ts_conn_def)
  have c: "tc_state ?c = kDisconnecting" using st by (auto simp: forceClose_def setState_def queue_functor_def)
  obtain c2 where c2: "handleClose ?c = Inr c2" "tc_state c2 = kDisconnecting" using handleClose_ok [of ?c] c by auto
  obtain c3 where c3: "handleClose c2 = Inr c3" using handleClose_ok [of c2] c2 by auto
  have h1: "ts_heap ?s1 ! i = (ts_heap s ! i)\<lparr>sc_conn := ?c\<rparr>" "i < length (ts_heap ?s1)" using i by (simp_all add: ts_put_heap)
  let ?t = "ts_put i c2 ?s1"
  have h2: "ts_heap ?t ! i = (ts_heap s ! i)\<lparr>sc_conn := c2\<rparr>" using h1 by (simp add: ts_put_heap)
  let ?u = "?t\<lparr>ts_connections := map_erase ?n (ts_connections s)\<rparr>"
  let ?s2 = "ts_queueInLoop ?l (Fn_destroyed i) ?u"
  have "close_conn i ?s1 = removeConnectionInLoop i ?t"
    using h1 c2 assms(3) by (simp add: close_conn_def ts_conn_def removeConnection_def)
  also have "\<dots> = Inr ?s2"
    using h1(2) h2 tab assms(3) by (simp add: removeConnectionInLoop_def ts_conn_def)
  finally have g: "close_conn i ?s1 = Inr ?s2" .
  have loop: "ts_loop ?s2 = ?l" by (simp add: ts_loop_def ts_put_def ts_queueInLoop_def)
  have q: "ts_queues ?s2 ?l = [Fn_forceClose i, Fn_destroyed i]" using assms(4) by (simp add: ts_queueInLoop_def)
  let ?v = "?s2\<lparr>ts_queues := (ts_queues ?s2)(?l := [Fn_destroyed i])\<rparr>"
  have h3: "ts_heap ?v ! i = (ts_heap s ! i)\<lparr>sc_conn := c2\<rparr>" "i < length (ts_heap ?v)" "ts_loop ?v = ?l"
    using h2 h1(2) by (simp_all add: ts_loop_def ts_put_def ts_queueInLoop_def)
  have "run_next cb ?l ?s2 = close_conn i ?v"
    using q h3 c2(2) by (simp add: run_next_def ts_conn_def)
  also have "\<dots> = removeConnectionInLoop i (ts_put i c3 ?v)"
    using h3 c3 assms(3) by (simp add: close_conn_def ts_conn_def removeConnection_def)
  also have "\<dots> = Inl Assert_failed"
    using h3 by (simp add: removeConnectionInLoop_def ts_conn_def ts_put_heap)
  finally show ?thesis using f g loop by auto
qed

section \<open>The properties at concrete inputs\<close>

definition example_server :: tcp_server where
  "example_server =
     \<lparr>ts_ipPort = ''0.0.0.0:80'', ts_name = ''http'', ts_listenning = True, ts_pool = new_loop_pool 0, ts_started = True,
      ts_nextConnId = 1, ts_connections = [], ts_heap = [], ts_queues = \<lambda>_. []\<rparr>"

lemma example_server_init: "good_callbacks Inr example_server"
  by (simp add: good_callbacks_def sv_init_def cb_ok_def example_server_def)

lemma example_accept:
  "\<exists>s. newConnection Inr 5 example_server = Inr s \<and> reach (good_callbacks Inr) (sv_step Inr) s
     \<and> sv_enabled (Sv_peer_closes 0) s \<and> sc_loop (ts_heap s ! 0) = ts_loop s \<and> (\<forall>l. ts_queues s l = [])
     \<and> ts_connections s = [(''http#1'', 0)]"
proof -
  obtain c where c: "connectEstablished Inr (new_tcp_conn 5 False) = Inr c" "tc_state c = kConnected" "\<not> isNoneEvent (tc_channel c)"
    using connectEstablished_ok [of Inr "new_tcp_conn 5 False"] by (auto simp: cb_ok_def new_tcp_conn_def new_channel_def)
  have n: "conn_name ''http'' 1 = ''http#1''" by code_simp
  let ?s = "example_server\<lparr>ts_nextConnId := 2, ts_heap := [\<lparr>sc_name = ''http#1'', sc_loop = 0, sc_conn = c\<rparr>], ts_connections := [(''http#1'', 0)]\<rparr>"
  have run: "newConnection Inr 5 example_server = Inr ?s"
    using c(1) n
    by (simp add: newConnection_def example_server_def getNextLoop_def new_loop_pool_def Let_def ts_loop_def ts_conn_def ts_put_def)
  have e: "sv_enabled (Sv_accept 5) example_server" by (simp add: example_server_def)
  have "sv_step Inr example_server ?s" unfolding sv_step_def using run e by (intro exI [of _ "Sv_accept 5"]) simp
  then have "reach (good_callbacks Inr) (sv_step Inr) ?s" by (rule reach_step [OF reach_init [of "good_callbacks Inr", OF example_server_init]])
  then show ?thesis using run c(2,3) by (intro exI [of _ ?s]) (simp add: example_server_def ts_loop_def new_loop_pool_def)
qed


theorem force_close_races_with_peer_witness:
  "\<exists>s s1 s2. newConnection Inr 5 example_server = Inr s \<and> force_close_conn 0 s = Inr s1 \<and> close_conn 0 s1 = Inr s2
     \<and> run_next Inr (ts_loop s2) s2 = Inl Assert_failed"
proof -
  obtain s where s: "newConnection Inr 5 example_server = Inr s" "reach (good_callbacks Inr) (sv_step Inr) s"
    "sv_enabled (Sv_peer_closes 0) s" "sc_loop (ts_heap s ! 0) = ts_loop s" "\<forall>l. ts_queues s l = []"
    using example_accept by blast
  have "sv_inv s" using tcp_server.reachable_inv [OF s(2)] by blast
  from force_close_races_with_peer [OF this s(3,4), of Inr] s(1,5) show ?thesis by auto
qed

end
