(* ===== verification/Connector.thy ===== *)
theory Connector
  imports Sockets Containers "HOL-Library.Multiset"
begin

text \<open>
  net/Connector.h and net/Connector.cc: the connector that makes a connection to a server and tries
  again with growing delays, in its loop's thread. What the kernel answers is an argument of each
  step. The descriptors created, closed and handed to the new-connection callback are recorded, and so
  are those no variable of the program holds any more.
\<close>

section \<open>State\<close>

datatype connector_state = cn_kDisconnected | cn_kConnecting | cn_kConnected

definition kMaxRetryDelayMs :: int where "kMaxRetryDelayMs = 30 * 1000"
definition kInitRetryDelayMs :: int where "kInitRetryDelayMs = 500"

text \<open>
  \<open>cn_timer\<close> is the delay in milliseconds of the startInLoop that retry has put on the loop's timers,
  while it is pending; \<open>cn_resets\<close> counts the queued calls of resetChannel.
\<close>

record connector =
  cn_connect :: bool
  cn_state :: connector_state
  cn_channel :: "channel option"
  cn_registered :: bool
  cn_retryDelayMs :: int
  cn_timer :: "int option"
  cn_resets :: nat
  cn_created :: "int list"
  cn_closed :: "int list"
  cn_delivered :: "int list"
  cn_dropped :: "int list"

definition new_connector :: connector where
  "new_connector =
     \<lparr>cn_connect = False, cn_state = cn_kDisconnected, cn_channel = None, cn_registered = False,
      cn_retryDelayMs = kInitRetryDelayMs, cn_timer = None, cn_resets = 0, cn_created = [], cn_closed = [],
      cn_delivered = [], cn_dropped = []\<rparr>"

definition cn_setState :: "connector_state \<Rightarrow> connector \<Rightarrow> connector" where
  "cn_setState s c = c\<lparr>cn_state := s\<rparr>"

definition cn_close :: "int \<Rightarrow> connector \<Rightarrow> connector" where
  "cn_close sockfd c = c\<lparr>cn_closed := cn_closed c @ [sockfd]\<rparr>"

section \<open>Operations\<close>

definition retry :: "int \<Rightarrow> connector \<Rightarrow> connector" where
  "retry sockfd c =
     (let c = cn_close sockfd c; c = cn_setState cn_kDisconnected c
      in if cn_connect c then
           (let c = c\<lparr>cn_timer := Some (cn_retryDelayMs c)\<rparr>
            in c\<lparr>cn_retryDelayMs := min (cn_retryDelayMs c * 2) kMaxRetryDelayMs\<rparr>)
         else c)"

definition connecting :: "int \<Rightarrow> connector \<Rightarrow> connector res" where
  "connecting sockfd c =
     (let c = cn_setState cn_kConnecting c
      in assert_c (cn_channel c = None)
          (let ch = new_channel sockfd
           in Inr (c\<lparr>cn_channel := Some (ch\<lparr>ch_events := set_bits_of kWriteEvent (ch_events ch)\<rparr>), cn_registered := True\<rparr>)))"

definition EISCONN :: int where "EISCONN = 106"
definition EINPROGRESS :: int where "EINPROGRESS = 115"
definition EADDRINUSE :: int where "EADDRINUSE = 98"
definition EADDRNOTAVAIL :: int where "EADDRNOTAVAIL = 99"
definition ECONNREFUSED :: int where "ECONNREFUSED = 111"
definition ENETUNREACH :: int where "ENETUNREACH = 101"

definition connect_goes_on :: "int list" where
  "connect_goes_on = [0, EINPROGRESS, EINTR, EISCONN]"

definition connect_retries :: "int list" where
  "connect_retries = [EAGAIN, EADDRINUSE, EADDRNOTAVAIL, ECONNREFUSED, ENETUNREACH]"

text \<open>connect: \<open>sock\<close> is the result of socket(2), \<open>savedErrno\<close> 0 or the errno of connect(2).\<close>

definition cn_do_connect :: "int \<Rightarrow> int \<Rightarrow> connector \<Rightarrow> connector res" where
  "cn_do_connect sock savedErrno c =
     rbind (createNonblockingOrDie sock) (\<lambda>sockfd.
       let c = c\<lparr>cn_created := cn_created c @ [sockfd]\<rparr>
       in if savedErrno \<in> set connect_goes_on then connecting sockfd c
          else if savedErrno \<in> set connect_retries then Inr (retry sockfd c)
          else Inr (cn_close sockfd c))"

definition startInLoop :: "int \<Rightarrow> int \<Rightarrow> connector \<Rightarrow> connector res" where
  "startInLoop sock err c =
     assert_c (cn_state c = cn_kDisconnected)
      (if cn_connect c then cn_do_connect sock err c else Inr c)"

definition cn_start :: "int \<Rightarrow> int \<Rightarrow> connector \<Rightarrow> connector res" where
  "cn_start sock err c = startInLoop sock err (c\<lparr>cn_connect := True\<rparr>)"

definition cn_restart :: "int \<Rightarrow> int \<Rightarrow> connector \<Rightarrow> connector res" where
  "cn_restart sock err c =
     (let c = cn_setState cn_kDisconnected c
      in startInLoop sock err (c\<lparr>cn_retryDelayMs := kInitRetryDelayMs, cn_connect := True\<rparr>))"

definition cn_stop :: "connector \<Rightarrow> connector" where
  "cn_stop c = c\<lparr>cn_connect := False, cn_timer := None\<rparr>"

definition removeAndResetChannel :: "connector \<Rightarrow> (int \<times> connector) res" where
  "removeAndResetChannel c =
     (case cn_channel c of
        None \<Rightarrow> Inl Null_pointer
      | Some ch \<Rightarrow> Inr (ch_fd ch, c\<lparr>cn_channel := Some (ch\<lparr>ch_events := kNoneEvent\<rparr>), cn_registered := False,
                                     cn_resets := cn_resets c + 1\<rparr>))"

definition resetChannel :: "connector \<Rightarrow> connector" where
  "resetChannel c = c\<lparr>cn_channel := None\<rparr>"

text \<open>handleWrite, with the pending error of the socket and whether it is connected to itself.\<close>

definition cn_handleWrite :: "int \<Rightarrow> bool \<Rightarrow> connector \<Rightarrow> connector res" where
  "cn_handleWrite err selfConnect c =
     (if cn_state c = cn_kConnecting then
        rbind (removeAndResetChannel c) (\<lambda>(sockfd, c).
          if err \<noteq> 0 then Inr (retry sockfd c)
          else if selfConnect then Inr (retry sockfd c)
          else
            (let c = cn_setState cn_kConnected c
             in if cn_connect c then Inr (c\<lparr>cn_delivered := cn_delivered c @ [sockfd]\<rparr>)
                else Inr (c\<lparr>cn_dropped := cn_dropped c @ [sockfd]\<rparr>)))
      else assert_c (cn_state c = cn_kDisconnected) (Inr c))"

definition cn_handleError :: "connector \<Rightarrow> connector res" where
  "cn_handleError c =
     assert_c (cn_state c = cn_kConnecting)
      (rbind (removeAndResetChannel c) (\<lambda>(sockfd, c). Inr (retry sockfd c)))"

definition connector_dtor :: "connector \<Rightarrow> connector res" where
  "connector_dtor c = assert_c (cn_channel c = None) (Inr (c\<lparr>cn_timer := None\<rparr>))"

section \<open>Runs\<close>

text \<open>
  What can happen to a connector, and when: the owner starts it when it is at rest, restarts it
  when the connection it made is gone, and may stop it at any time; the timer of a retry fires when
  the queued calls of resetChannel have run (they run at the end of the iteration of the loop that
  queued them); the channel reports an error only while it is registered, and a writable event
  also after the error of the same poll.
\<close>

datatype cn_event =
    Ev_start int int
  | Ev_restart int int
  | Ev_stop
  | Ev_timer int int
  | Ev_writable int bool
  | Ev_error
  | Ev_reset

fun cn_enabled :: "cn_event \<Rightarrow> connector \<Rightarrow> bool" where
  "cn_enabled (Ev_start sock err) c \<longleftrightarrow> 0 \<le> sock \<and> cn_state c = cn_kDisconnected \<and> cn_timer c = None \<and> cn_resets c = 0"
| "cn_enabled (Ev_restart sock err) c \<longleftrightarrow> 0 \<le> sock \<and> cn_state c = cn_kConnected \<and> cn_resets c = 0"
| "cn_enabled Ev_stop c \<longleftrightarrow> True"
| "cn_enabled (Ev_timer sock err) c \<longleftrightarrow> 0 \<le> sock \<and> cn_timer c \<noteq> None \<and> cn_resets c = 0"
| "cn_enabled (Ev_writable err self) c \<longleftrightarrow> cn_registered c \<or> cn_resets c \<noteq> 0 \<and> cn_state c = cn_kDisconnected"
| "cn_enabled Ev_error c \<longleftrightarrow> cn_registered c"
| "cn_enabled Ev_reset c \<longleftrightarrow> cn_resets c \<noteq> 0"

fun cn_do :: "cn_event \<Rightarrow> connector \<Rightarrow> connector res" where
  "cn_do (Ev_start sock err) c = cn_start sock err c"
| "cn_do (Ev_restart sock err) c = cn_restart sock err c"
| "cn_do Ev_stop c = Inr (cn_stop c)"
| "cn_do (Ev_timer sock err) c = startInLoop sock err (c\<lparr>cn_timer := None\<rparr>)"
| "cn_do (Ev_writable err self) c = cn_handleWrite err self c"
| "cn_do Ev_error c = cn_handleError c"
| "cn_do Ev_reset c = Inr ((resetChannel c)\<lparr>cn_resets := cn_resets c - 1\<rparr>)"

definition cn_step :: "connector \<Rightarrow> connector \<Rightarrow> bool" where
  "cn_step c c' \<longleftrightarrow> (\<exists>e. cn_enabled e c \<and> cn_do e c = Inr c')"

definition cn_init :: "connector \<Rightarrow> bool" where
  "cn_init c \<longleftrightarrow> c = new_connector"

definition cn_open :: "connector \<Rightarrow> int list" where
  "cn_open c = (case cn_channel c of Some ch \<Rightarrow> if cn_registered c then [ch_fd ch] else [] | None \<Rightarrow> [])"

definition cn_inv :: "connector \<Rightarrow> bool" where
  "cn_inv c \<longleftrightarrow>
     (cn_registered c \<longleftrightarrow> cn_state c = cn_kConnecting)
     \<and> (cn_registered c \<longrightarrow> cn_channel c \<noteq> None \<and> cn_resets c = 0)
     \<and> (cn_channel c \<noteq> None \<and> \<not> cn_registered c \<longleftrightarrow> cn_resets c = 1) \<and> cn_resets c \<le> 1
     \<and> (cn_timer c \<noteq> None \<longrightarrow> cn_state c = cn_kDisconnected)
     \<and> (\<exists>k. cn_retryDelayMs c = min (500 * 2 ^ k) 30000)
     \<and> mset (cn_created c) = mset (cn_closed c) + mset (cn_delivered c) + mset (cn_dropped c) + mset (cn_open c)"

lemmas cn_defs = cn_start_def cn_restart_def startInLoop_def cn_do_connect_def createNonblockingOrDie_def connecting_def
  retry_def cn_close_def cn_setState_def cn_stop_def cn_handleWrite_def cn_handleError_def removeAndResetChannel_def
  resetChannel_def cn_open_def new_channel_def Let_def

lemma retry_delay_doubles: "\<exists>k. min (min (500 * 2 ^ j) 30000 * 2) kMaxRetryDelayMs = min (500 * 2 ^ k) (30000 :: int)"
  by (rule exI [of _ "Suc j"]) (auto simp: kMaxRetryDelayMs_def min_def)

lemma retry_delay_init: "\<exists>k. kInitRetryDelayMs = min (500 * 2 ^ k) (30000 :: int)"
  by (rule exI [of _ 0]) (simp add: kInitRetryDelayMs_def)

lemma cn_inv_init: "cn_inv new_connector"
  using retry_delay_init by (simp add: cn_inv_def new_connector_def cn_open_def)

text \<open>The attempt to connect, from rest, is the heart of start, restart and the timer.\<close>

lemma startInLoop_step:
  assumes inv: "cn_inv c" and rest: "cn_state c = cn_kDisconnected" "cn_timer c = None" "cn_resets c = 0" and sock: "0 \<le> sock"
  shows "\<exists>c'. startInLoop sock err c = Inr c' \<and> cn_inv c'"
proof -
  obtain k where k: "cn_retryDelayMs c = min (500 * 2 ^ k) 30000" using inv by (auto simp: cn_inv_def)
  have ch: "cn_channel c = None" "\<not> cn_registered c" using inv rest by (auto simp: cn_inv_def)
  show ?thesis
  proof (cases "cn_connect c")
    case False
    then show ?thesis using inv rest by (simp add: startInLoop_def)
  next
    case True
    show ?thesis
      using inv rest sock ch True retry_delay_doubles [of k] k
      by (auto simp: cn_inv_def cn_defs)
  qed
qed

lemma cn_event_step:
  assumes inv: "cn_inv c" and e: "cn_enabled e c"
  shows "\<exists>c'. cn_do e c = Inr c' \<and> cn_inv c'"
proof -
  obtain k where k: "cn_retryDelayMs c = min (500 * 2 ^ k) 30000" using inv by (auto simp: cn_inv_def)
  show ?thesis
  proof (cases e)
    case (Ev_start sock err)
    have "cn_inv (c\<lparr>cn_connect := True\<rparr>)" using inv by (auto simp: cn_inv_def cn_open_def)
    then show ?thesis using e Ev_start startInLoop_step [of "c\<lparr>cn_connect := True\<rparr>"] by (simp add: cn_start_def)
  next
    case (Ev_restart sock err)
    let ?c = "c\<lparr>cn_state := cn_kDisconnected, cn_retryDelayMs := kInitRetryDelayMs, cn_connect := True\<rparr>"
    have "cn_inv ?c" "cn_timer ?c = None" using inv e Ev_restart retry_delay_init by (auto simp: cn_inv_def cn_open_def)
    then show ?thesis using e Ev_restart startInLoop_step [of ?c] by (simp add: cn_restart_def cn_setState_def)
  next
    case Ev_stop
    then show ?thesis using inv by (auto simp: cn_inv_def cn_stop_def cn_open_def)
  next
    case (Ev_timer sock err)
    have "cn_inv (c\<lparr>cn_timer := None\<rparr>)" "cn_state c = cn_kDisconnected" using inv e Ev_timer by (auto simp: cn_inv_def cn_open_def)
    then show ?thesis using e Ev_timer startInLoop_step [of "c\<lparr>cn_timer := None\<rparr>"] by simp
  next
    case (Ev_writable err self)
    show ?thesis
    proof (cases "cn_state c = cn_kConnecting")
      case True
      then obtain ch where ch: "cn_channel c = Some ch" "cn_registered c" "cn_resets c = 0" "cn_timer c = None"
        using inv by (auto simp: cn_inv_def)
      have sum: "mset (cn_created c) = mset (cn_closed c) + mset (cn_delivered c) + mset (cn_dropped c) + {#ch_fd ch#}"
        using inv ch by (simp add: cn_inv_def cn_open_def)
      show ?thesis
        using Ev_writable True ch sum retry_delay_doubles [of k] k
        by (cases "cn_connect c"; cases "err = 0"; cases self) (simp_all add: cn_inv_def cn_defs, blast+)
    next
      case False
      then show ?thesis using inv e Ev_writable by (auto simp: cn_inv_def cn_handleWrite_def assert_c_def)
    qed
  next
    case Ev_error
    then show ?thesis
      using inv e retry_delay_doubles [of k] k
      by (cases "cn_connect c") (auto simp: cn_inv_def cn_defs)
  next
    case Ev_reset
    then show ?thesis using inv e by (auto simp: cn_inv_def resetChannel_def cn_open_def)
  qed
qed

interpretation connector: invariant_system cn_init cn_step cn_inv
  by unfold_locales (auto simp: cn_init_def cn_inv_init cn_step_def dest: cn_event_step)


text \<open>The delays of consecutive failures, and the two ways an attempt ends without a retry.\<close>

lemma retry_delays:
  assumes "cn_connect c" "cn_retryDelayMs c = min (500 * 2 ^ k) 30000"
  shows "cn_timer (retry fd c) = Some (min (500 * 2 ^ k) 30000) \<and> cn_retryDelayMs (retry fd c) = min (500 * 2 ^ Suc k) 30000"
  using assms by (auto simp: retry_def cn_close_def cn_setState_def kMaxRetryDelayMs_def min_def)

text \<open>A connector stopped while it is connecting loses the descriptor when the connection is made: it is neither closed nor handed over.\<close>

lemma stopped_connection_is_dropped:
  assumes "cn_inv c" "cn_state c = cn_kConnecting"
  shows "\<exists>c'. cn_handleWrite 0 False (cn_stop c) = Inr c' \<and> cn_dropped c' = cn_dropped c @ [ch_fd (the (cn_channel c))]"
  using assms by (auto simp: cn_inv_def cn_defs)

text \<open>Starting a connector that waits for a retry: when the timer fires, the assertion of startInLoop fails.\<close>

lemma start_while_retrying_asserts:
  assumes "cn_state c = cn_kDisconnected" "cn_timer c = Some d" "cn_channel c = None" "0 \<le> sock"
  shows "\<exists>c'. cn_start sock EINPROGRESS c = Inr c' \<and> cn_timer c' = Some d \<and> cn_do (Ev_timer sock2 err2) c' = Inl Assert_failed"
  using assms by (simp add: cn_defs connect_goes_on_def)


end
