(* ===== verification/TcpClient.thy ===== *)
theory TcpClient
  imports TcpConnection Connector
begin

text \<open>
  net/TcpClient.h and net/TcpClient.cc: a client with one connection at a time, in its loop's thread. The
  connections it ever had are numbered in the order they were made; the calls of connectDestroyed it
  queues on its loop are recorded in order.
\<close>

section \<open>State\<close>

record client_conn =
  tlc_name :: "char list"
  tlc_conn :: tcp_conn

record tcp_client =
  tl_connector :: connector
  tl_retry :: bool
  tl_connect :: bool
  tl_nextConnId :: nat
  tl_connection :: "nat option"
  tl_heap :: "client_conn list"
  tl_queue :: "nat list"

definition new_tcp_client :: tcp_client where
  "new_tcp_client =
     \<lparr>tl_connector = new_connector, tl_retry = False, tl_connect = True, tl_nextConnId = 1,
      tl_connection = None, tl_heap = [], tl_queue = []\<rparr>"

definition enableRetry :: "tcp_client \<Rightarrow> tcp_client" where
  "enableRetry t = t\<lparr>tl_retry := True\<rparr>"

section \<open>Operations\<close>

text \<open>connect: the results of the system calls of the attempt are arguments.\<close>

definition tl_do_connect :: "int \<Rightarrow> int \<Rightarrow> tcp_client \<Rightarrow> tcp_client res" where
  "tl_do_connect sock err t =
     (let t = t\<lparr>tl_connect := True\<rparr>
      in rbind (cn_start sock err (tl_connector t)) (\<lambda>c. Inr (t\<lparr>tl_connector := c\<rparr>)))"

definition tl_conn :: "nat \<Rightarrow> tcp_client \<Rightarrow> client_conn res" where
  "tl_conn i t = (if i < length (tl_heap t) then Inr (tl_heap t ! i) else Inl Null_pointer)"

definition disconnect :: "tcp_client \<Rightarrow> tcp_client res" where
  "disconnect t =
     (let t = t\<lparr>tl_connect := False\<rparr>
      in case tl_connection t of
           None \<Rightarrow> Inr t
         | Some i \<Rightarrow> rbind (tl_conn i t) (\<lambda>cc.
             Inr (t\<lparr>tl_heap := (tl_heap t)[i := cc\<lparr>tlc_conn := shutdown (tlc_conn cc)\<rparr>]\<rparr>)))"

definition tl_stop :: "tcp_client \<Rightarrow> tcp_client" where
  "tl_stop t = (let t = t\<lparr>tl_connect := False\<rparr> in t\<lparr>tl_connector := cn_stop (tl_connector t)\<rparr>)"

definition client_conn_name :: "sockaddr_in \<Rightarrow> nat \<Rightarrow> char list" where
  "client_conn_name peerAddr connId = snprintf 32 ('':'' @ toHostPort peerAddr @ ''#'' @ dec_nat connId)"

text \<open>newConnection, with the answer of getpeername and the connection callback.\<close>

definition tl_newConnection ::
  "(tcp_conn \<Rightarrow> tcp_conn res) \<Rightarrow> sockaddr_in option \<Rightarrow> bool \<Rightarrow> int \<Rightarrow> tcp_client \<Rightarrow> tcp_client res" where
  "tl_newConnection cb peer hasWriteComplete connfd t =
     (let peerAddr = getPeerAddr peer;
          connName = client_conn_name peerAddr (tl_nextConnId t);
          t = t\<lparr>tl_nextConnId := tl_nextConnId t + 1\<rparr>;
          conn = new_tcp_conn connfd hasWriteComplete;
          i = length (tl_heap t);
          t = t\<lparr>tl_connection := Some i\<rparr>
      in rbind (connectEstablished cb conn) (\<lambda>c. Inr (t\<lparr>tl_heap := tl_heap t @ [\<lparr>tlc_name = connName, tlc_conn = c\<rparr>]\<rparr>)))"

text \<open>removeConnection, the close callback.\<close>

definition tl_removeConnection :: "int \<Rightarrow> int \<Rightarrow> nat \<Rightarrow> tcp_client \<Rightarrow> tcp_client res" where
  "tl_removeConnection sock err i t =
     assert_c (tl_connection t = Some i)
      (let t = t\<lparr>tl_connection := None\<rparr>; t = t\<lparr>tl_queue := tl_queue t @ [i]\<rparr>
       in if tl_retry t \<and> tl_connect t
          then rbind (cn_restart sock err (tl_connector t)) (\<lambda>c. Inr (t\<lparr>tl_connector := c\<rparr>))
          else Inr t)"

text \<open>The destructor without a connection stops the connector.\<close>

definition tcp_client_dtor :: "tcp_client \<Rightarrow> tcp_client" where
  "tcp_client_dtor t =
     (case tl_connection t of
        Some i \<Rightarrow> t
      | None \<Rightarrow> t\<lparr>tl_connector := cn_stop (tl_connector t)\<rparr>)"

section \<open>Reconnecting\<close>

text \<open>
  When the connection of a client goes down, the client lets go of it, destroys it later, and, exactly when
  retrying is enabled and it was not told to disconnect, starts a new attempt with the first delay.
\<close>

lemma removeConnection_reconnects:
  assumes "cn_inv (tl_connector t)" "cn_state (tl_connector t) = cn_kConnected" "cn_resets (tl_connector t) = 0"
    and "tl_connection t = Some i" "0 \<le> sock"
  shows "\<exists>t'. tl_removeConnection sock EINPROGRESS i t = Inr t' \<and> tl_connection t' = None \<and> tl_queue t' = tl_queue t @ [i]
    \<and> cn_inv (tl_connector t')
    \<and> (if tl_retry t \<and> tl_connect t
       then cn_state (tl_connector t') = cn_kConnecting \<and> cn_retryDelayMs (tl_connector t') = 500
       else tl_connector t' = tl_connector t)"
proof -
  from cn_event_step [of "tl_connector t" "Ev_restart sock EINPROGRESS"] assms obtain c where
    c: "cn_restart sock EINPROGRESS (tl_connector t) = Inr c" "cn_inv c" by auto
  moreover have "cn_state c = cn_kConnecting" "cn_retryDelayMs c = 500"
    using c(1) assms by (auto simp: cn_inv_def cn_defs connect_goes_on_def kInitRetryDelayMs_def assert_c_def split: if_splits)
  ultimately show ?thesis using assms by (cases "tl_retry t \<and> tl_connect t") (simp_all add: tl_removeConnection_def Let_def)
qed

text \<open>The name of a connection is never cut short.\<close>

lemma client_conn_name_full:
  assumes "n < 10 ^ 8"
  shows "client_conn_name a n = '':'' @ toHostPort a @ ''#'' @ dec_nat n"
proof -
  have "length (toHostPort a) \<le> 21"
    using length_dotted [of "sin_addr a"] length_dec_port [of "networkToHost16 (sin_port a)"]
    by (simp add: toHostPort_def sockets_toHostPort_def snprintf_def inet_ntop_def INET_ADDRSTRLEN_def Let_def)
  moreover have "length (dec_nat n) \<le> 8" using assms by (intro length_dec_nat) simp_all
  ultimately show ?thesis by (simp add: client_conn_name_def)
qed

end
