(* ===== verification/TimerQueue.thy ===== *)
theory TimerQueue
  imports Containers Timestamps "HOL-Library.Product_Lexorder"
begin

text \<open>
  net/Timer.h, net/Timer.cc, net/TimerId.h, net/TimerQueue.h and net/TimerQueue.cc: the timers of an
  event loop, in the loop's thread. Timer objects live in a store; an entry of the set is the pair of
  expiration and address the code orders it by. Addresses come from an arbitrary injective
  allocation; a weak pointer locks while some owner is left (the two sets, the vector of expired
  timers, a functor of the loop). The clock is a sequence of readings. What a callback does to the
  queue is given by a script: the calls of addTimer and cancel it makes.
\<close>

section \<open>State\<close>

record timer =
  tm_callback :: nat
  tm_expiration :: timestamp
  tm_interval :: rat
  tm_repeat :: bool

definition new_timer :: "nat \<Rightarrow> timestamp \<Rightarrow> rat \<Rightarrow> timer" where
  "new_timer cb expiry interval =
     \<lparr>tm_callback = cb, tm_expiration = expiry, tm_interval = interval, tm_repeat = (interval > 0)\<rparr>"

definition restart :: "timestamp \<Rightarrow> timer \<Rightarrow> timer" where
  "restart now t =
     (if tm_repeat t then t\<lparr>tm_expiration := addTime now (tm_interval t)\<rparr>
      else t\<lparr>tm_expiration := invalid_ts\<rparr>)"

type_synonym entry = "timestamp \<times> nat"

text \<open>
  \<open>tq_calling\<close> is \<open>None\<close> until handleRead has run: the constructor does not set the member.
  \<open>tq_armed\<close> is the expiration the timerfd was last set for and the interval passed to
  timerfd_settime, \<open>None\<close> when it is disarmed or has fired.
\<close>

record timer_queue =
  tq_timers :: "(entry, unit) std_map"
  tq_canceling :: "(entry, unit) std_map"
  tq_calling :: "bool option"
  tq_heap :: "nat \<Rightarrow> timer"
  tq_addr :: "nat \<Rightarrow> nat"
  tq_next :: nat
  tq_owned :: "nat set"
  tq_armed :: "(timestamp \<times> int \<times> int) option"
  tq_clock :: "nat \<Rightarrow> timestamp"
  tq_ticks :: nat
  tq_ran :: "nat list"

definition new_timer_queue :: "(nat \<Rightarrow> nat) \<Rightarrow> (nat \<Rightarrow> timestamp) \<Rightarrow> timer_queue" where
  "new_timer_queue addr clk =
     \<lparr>tq_timers = [], tq_canceling = [], tq_calling = None, tq_heap = (\<lambda>_. new_timer 0 invalid_ts 0),
      tq_addr = addr, tq_next = 0, tq_owned = {}, tq_armed = None, tq_clock = clk, tq_ticks = 0, tq_ran = []\<rparr>"

definition read_clock :: "timer_queue \<Rightarrow> timestamp \<times> timer_queue" where
  "read_clock q = (tq_clock q (tq_ticks q), q\<lparr>tq_ticks := tq_ticks q + 1\<rparr>)"

section \<open>The timerfd\<close>

definition createTimerfd :: "int \<Rightarrow> int res" where
  "createTimerfd timerfd = (if timerfd < 0 then Inl Fatal else Inr timerfd)"

definition howMuchTimeFromNow :: "timestamp \<Rightarrow> timestamp \<Rightarrow> int \<times> int" where
  "howMuchTimeFromNow now expiry =
     (let microseconds = microSecondsSinceEpoch expiry - microSecondsSinceEpoch now;
          microseconds = (if microseconds < 100 then 100 else microseconds)
      in (microseconds sdiv kMicroSecondsPerSecond, (microseconds smod kMicroSecondsPerSecond) * 1000))"

definition resetTimerfd :: "timestamp \<Rightarrow> timer_queue \<Rightarrow> timer_queue" where
  "resetTimerfd expiration q =
     (let (now, q) = read_clock q in q\<lparr>tq_armed := Some (expiration, howMuchTimeFromNow now expiration)\<rparr>)"

section \<open>Adding and cancelling\<close>

definition tq_insert :: "nat \<Rightarrow> timer_queue \<Rightarrow> (bool \<times> timer_queue) res" where
  "tq_insert t q =
     (let expiry = tm_expiration (tq_heap q t);
          earliestChanged = (case tq_timers q of [] \<Rightarrow> True | (k, _) # _ \<Rightarrow> expiry < fst k);
          inserted = (map_of (tq_timers q) (expiry, t) = None)
      in assert_c inserted
          (Inr (earliestChanged, q\<lparr>tq_timers := map_put (expiry, t) () (tq_timers q)\<rparr>)))"

definition addTimerInLoop :: "nat \<Rightarrow> timer_queue \<Rightarrow> timer_queue res" where
  "addTimerInLoop t q =
     rbind (tq_insert t q) (\<lambda>(earliestChanged, q).
       Inr (if earliestChanged then resetTimerfd (tm_expiration (tq_heap q t)) q else q))"

text \<open>\<open>weak_ptr::lock\<close>: is some owner left?\<close>

definition alive :: "timer_queue \<Rightarrow> nat \<Rightarrow> bool" where
  "alive q t \<longleftrightarrow> t \<in> snd ` fst ` set (tq_timers q) \<or> t \<in> snd ` fst ` set (tq_canceling q) \<or> t \<in> tq_owned q"

definition cancelInLoop :: "nat \<Rightarrow> timer_queue \<Rightarrow> timer_queue res" where
  "cancelInLoop t q =
     (if alive q t then
        (let timerEntry = (tm_expiration (tq_heap q t), t)
         in if map_of (tq_timers q) timerEntry \<noteq> None
            then Inr (q\<lparr>tq_timers := map_erase timerEntry (tq_timers q)\<rparr>)
            else case tq_calling q of
              None \<Rightarrow> Inl Uninitialised
            | Some True \<Rightarrow> Inr (q\<lparr>tq_canceling := map_put timerEntry () (tq_canceling q)\<rparr>)
            | Some False \<Rightarrow> Inr q)
      else Inr q)"

text \<open>\<open>new Timer\<close>, and addTimer called in the loop's thread: runInLoop runs the insertion at once.\<close>

definition alloc_timer :: "timer \<Rightarrow> timer_queue \<Rightarrow> nat \<times> timer_queue" where
  "alloc_timer tm q =
     (let t = tq_addr q (tq_next q) in (t, q\<lparr>tq_heap := (tq_heap q)(t := tm), tq_next := tq_next q + 1\<rparr>))"

definition addTimer :: "nat \<Rightarrow> timestamp \<Rightarrow> rat \<Rightarrow> timer_queue \<Rightarrow> (nat \<times> timer_queue) res" where
  "addTimer cb expiry interval q =
     (let (t, q) = alloc_timer (new_timer cb expiry interval) q
      in rbind (addTimerInLoop t q) (\<lambda>q. Inr (t, q)))"

text \<open>EventLoop's three ways in.\<close>

definition runAt :: "timestamp \<Rightarrow> nat \<Rightarrow> timer_queue \<Rightarrow> (nat \<times> timer_queue) res" where
  "runAt time cb q = addTimer cb time 0 q"

definition runAfter :: "rat \<Rightarrow> nat \<Rightarrow> timer_queue \<Rightarrow> (nat \<times> timer_queue) res" where
  "runAfter delay cb q = (let (now, q) = read_clock q in runAt (addTime now delay) cb q)"

definition runEvery :: "rat \<Rightarrow> nat \<Rightarrow> timer_queue \<Rightarrow> (nat \<times> timer_queue) res" where
  "runEvery interval cb q = (let (now, q) = read_clock q in addTimer cb (addTime now interval) interval q)"

section \<open>Expiry\<close>

definition getExpired :: "timestamp \<Rightarrow> timer_queue \<Rightarrow> (entry list \<times> timer_queue) res" where
  "getExpired now q =
     (let keys = map fst (tq_timers q);
          it = std_lower_bound (\<lambda>i. fst (keys ! i) \<le> now) 0 (length keys)
      in assert_c (it = length keys \<or> now < fst (keys ! it))
          (Inr (take it keys, q\<lparr>tq_timers := drop it (tq_timers q)\<rparr>)))"

fun reset_loop :: "entry list \<Rightarrow> timestamp \<Rightarrow> timer_queue \<Rightarrow> timer_queue res" where
  "reset_loop [] now q = Inr q"
| "reset_loop (e # es) now q =
     (if tm_repeat (tq_heap q (snd e)) \<and> map_of (tq_canceling q) e = None
      then rbind (tq_insert (snd e) (q\<lparr>tq_heap := (tq_heap q)(snd e := restart now (tq_heap q (snd e)))\<rparr>))
            (\<lambda>(_, q). reset_loop es now q)
      else reset_loop es now q)"

definition tq_reset :: "entry list \<Rightarrow> timestamp \<Rightarrow> timer_queue \<Rightarrow> timer_queue res" where
  "tq_reset expired now q =
     rbind (reset_loop expired now q) (\<lambda>q.
       let nextExpire = (case tq_timers q of [] \<Rightarrow> invalid_ts | (k, _) # _ \<Rightarrow> tm_expiration (tq_heap q (snd k)))
       in Inr (if valid_ts nextExpire then resetTimerfd nextExpire q else q))"

datatype timer_call =
    Call_add nat timestamp rat
  | Call_cancel nat

fun do_call :: "timer_call \<Rightarrow> timer_queue \<Rightarrow> timer_queue res" where
  "do_call (Call_add cb expiry interval) q = rbind (addTimer cb expiry interval q) (\<lambda>(_, q). Inr q)"
| "do_call (Call_cancel t) q = cancelInLoop t q"

fun do_calls :: "timer_call list \<Rightarrow> timer_queue \<Rightarrow> timer_queue res" where
  "do_calls [] q = Inr q"
| "do_calls (c # cs) q = rbind (do_call c q) (do_calls cs)"

definition run_timer :: "(nat \<Rightarrow> timer_call list) \<Rightarrow> nat \<Rightarrow> timer_queue \<Rightarrow> timer_queue res" where
  "run_timer script t q =
     (let cb = tm_callback (tq_heap q t) in do_calls (script cb) (q\<lparr>tq_ran := tq_ran q @ [t]\<rparr>))"

fun run_loop :: "(nat \<Rightarrow> timer_call list) \<Rightarrow> entry list \<Rightarrow> timer_queue \<Rightarrow> timer_queue res" where
  "run_loop script [] q = Inr q"
| "run_loop script (e # es) q = rbind (run_timer script (snd e) q) (run_loop script es)"

text \<open>
  handleRead: the timerfd has fired. The vector \<open>expired\<close> owns its timers until the function returns.
\<close>

definition tq_handleRead :: "(nat \<Rightarrow> timer_call list) \<Rightarrow> timer_queue \<Rightarrow> timer_queue res" where
  "tq_handleRead script q =
     (let (now, q) = read_clock (q\<lparr>tq_armed := None\<rparr>)
      in rbind (getExpired now q) (\<lambda>(expired, q).
           let held = tq_owned q;
               q = q\<lparr>tq_owned := held \<union> snd ` set expired, tq_calling := Some True, tq_canceling := []\<rparr>
           in rbind (run_loop script expired q) (\<lambda>q.
                rbind (tq_reset expired now (q\<lparr>tq_calling := Some False\<rparr>)) (\<lambda>q.
                  Inr (q\<lparr>tq_owned := held\<rparr>)))))"

section \<open>The interval passed to the kernel\<close>

text \<open>C18: the interval handed to timerfd_settime is at least 100 microseconds, has a normalised nanosecond part, and is
  exactly the time that is left when that is more.\<close>

theorem howMuchTimeFromNow_bounds:
  fixes now expiry :: timestamp
  defines "left \<equiv> microSecondsSinceEpoch expiry - microSecondsSinceEpoch now"
  shows "case howMuchTimeFromNow now expiry of (sec, nsec) \<Rightarrow>
    0 \<le> sec \<and> 0 \<le> nsec \<and> nsec < 10 ^ 9 \<and> sec * 10 ^ 9 + nsec = max 100 left * 1000"
proof -
  let ?m = "max 100 left"
  have m: "(if left < 100 then 100 else left) = ?m" by auto
  have "?m sdiv 1000000 = ?m div 1000000" "?m smod 1000000 = ?m mod 1000000"
    by (simp_all add: sdiv_nonneg smod_nonneg)
  moreover have "?m div 1000000 * 1000000000 + ?m mod 1000000 * 1000 = ?m * 1000"
    using div_mult_mod_eq [of ?m 1000000] by linarith
  moreover have "0 \<le> ?m div 1000000" "0 \<le> ?m mod 1000000" "?m mod 1000000 < 1000000" by (simp_all add: pos_imp_zdiv_nonneg_iff)
  ultimately show ?thesis
    by (simp add: howMuchTimeFromNow_def Let_def left_def [symmetric] m kMicroSecondsPerSecond_def)
qed

section \<open>The invariant\<close>

definition allocated :: "timer_queue \<Rightarrow> nat set" where
  "allocated q = tq_addr q ` {..<tq_next q}"

abbreviation pending :: "timer_queue \<Rightarrow> entry set" where
  "pending q \<equiv> map_keys (tq_timers q)"

abbreviation cancelled :: "timer_queue \<Rightarrow> entry set" where
  "cancelled q \<equiv> map_keys (tq_canceling q)"

text \<open>
  \<open>tq_wf R q\<close>: the entry of a timer in the set carries the timer's expiration, and the entries \<open>R\<close> (the
  expired ones a run of handleRead is dealing with) are owned, distinct, out of the set and still carry it.
\<close>

definition tq_wf :: "entry list \<Rightarrow> timer_queue \<Rightarrow> bool" where
  "tq_wf R q \<longleftrightarrow>
     map_inv (tq_timers q) \<and> map_inv (tq_canceling q) \<and> inj (tq_addr q) \<and> tq_owned q \<subseteq> allocated q
     \<and> (\<forall>p. tm_repeat (tq_heap q p) \<longrightarrow> 0 < tm_interval (tq_heap q p))
     \<and> (\<forall>(t, p) \<in> pending q. tm_expiration (tq_heap q p) = t \<and> p \<in> allocated q \<and> valid_ts t)
     \<and> (\<forall>(t, p) \<in> cancelled q. p \<in> allocated q)
     \<and> (\<forall>(t, p) \<in> set R. tm_expiration (tq_heap q p) = t \<and> p \<in> tq_owned q \<and> (\<forall>u. (u, p) \<notin> pending q))
     \<and> distinct (map snd R)"

lemma tq_wfD:
  assumes "tq_wf R q"
  shows "map_inv (tq_timers q)" "map_inv (tq_canceling q)" "inj (tq_addr q)"
    and "(t, p) \<in> pending q \<Longrightarrow> tm_expiration (tq_heap q p) = t"
    and "(t, p) \<in> pending q \<Longrightarrow> p \<in> allocated q" "(t, p) \<in> pending q \<Longrightarrow> valid_ts t"
    and "p \<in> tq_owned q \<Longrightarrow> p \<in> allocated q"
    and "(t, p) \<in> set R \<Longrightarrow> tm_expiration (tq_heap q p) = t" "(t, p) \<in> set R \<Longrightarrow> p \<in> tq_owned q"
      "(t, p) \<in> set R \<Longrightarrow> (u, p) \<notin> pending q" "distinct (map snd R)"
    and "(t, p) \<in> cancelled q \<Longrightarrow> p \<in> allocated q"
    and "tm_repeat (tq_heap q p) \<Longrightarrow> 0 < tm_interval (tq_heap q p)"
  using assms by (auto simp: tq_wf_def)

lemma tq_wf_empty: "inj addr \<Longrightarrow> tq_wf [] (new_timer_queue addr clk)"
  by (simp add: tq_wf_def new_timer_queue_def new_timer_def)

lemma alive_iff: "alive q p \<longleftrightarrow> p \<in> snd ` pending q \<or> p \<in> snd ` cancelled q \<or> p \<in> tq_owned q"
  by (simp add: alive_def map_keys_def)

lemma not_allocated: "inj (tq_addr q) \<Longrightarrow> tq_addr q (tq_next q) \<notin> allocated q"
  by (auto simp: allocated_def inj_def)

lemma resetTimerfd_fields [simp]:
  "tq_timers (resetTimerfd w q) = tq_timers q" "tq_canceling (resetTimerfd w q) = tq_canceling q"
  "tq_calling (resetTimerfd w q) = tq_calling q" "tq_heap (resetTimerfd w q) = tq_heap q"
  "tq_addr (resetTimerfd w q) = tq_addr q" "tq_next (resetTimerfd w q) = tq_next q"
  "tq_owned (resetTimerfd w q) = tq_owned q" "tq_ran (resetTimerfd w q) = tq_ran q"
  "tq_clock (resetTimerfd w q) = tq_clock q"
  "tq_armed (resetTimerfd w q) = Some (w, howMuchTimeFromNow (tq_clock q (tq_ticks q)) w)"
  by (simp_all add: resetTimerfd_def read_clock_def)

lemma tq_wf_resetTimerfd [simp]: "tq_wf R (resetTimerfd w q) \<longleftrightarrow> tq_wf R q"
  by (simp add: tq_wf_def allocated_def)

text \<open>The timerfd is set for no later than the first expiration.\<close>

definition armed_ok :: "timer_queue \<Rightarrow> bool" where
  "armed_ok q \<longleftrightarrow> (\<forall>(t, p) \<in> pending q. \<exists>w i. tq_armed q = Some (w, i) \<and> w \<le> t)"

definition earliest :: "timer_queue \<Rightarrow> timestamp option" where
  "earliest q = (case tq_timers q of [] \<Rightarrow> None | (k, _) # _ \<Rightarrow> Some (fst k))"

lemma earliest_le:
  assumes "map_inv (tq_timers q)" "k \<in> pending q"
  shows "\<exists>w. earliest q = Some w \<and> w \<le> fst k"
proof (cases "tq_timers q")
  case Nil
  with assms(2) show ?thesis by simp
next
  case (Cons e m)
  obtain h u where e: "e = (h, u)" by (cases e)
  have "h \<le> k"
    using assms Cons e by (auto simp: map_inv_Cons)
  then show ?thesis using Cons e by (cases h, cases k) (auto simp: earliest_def)
qed

section \<open>The calls keep the invariant\<close>

lemma addTimer_spec:
  assumes wf: "tq_wf R q" and v: "valid_ts expiry"
  shows "\<exists>q'. addTimer cb expiry interval q = Inr (tq_addr q (tq_next q), q') \<and> tq_wf R q'
      \<and> tq_canceling q' = tq_canceling q \<and> tq_calling q' = tq_calling q \<and> tq_ran q' = tq_ran q
      \<and> tq_owned q' = tq_owned q \<and> tq_clock q' = tq_clock q
      \<and> pending q' = insert (expiry, tq_addr q (tq_next q)) (pending q)
      \<and> allocated q \<subseteq> allocated q' \<and> (\<forall>p \<in> allocated q. tq_heap q' p = tq_heap q p)
      \<and> (armed_ok q \<longrightarrow> armed_ok q')"
proof -
  let ?t = "tq_addr q (tq_next q)"
  note d = tq_wfD [OF wf]
  have fresh: "?t \<notin> allocated q" using not_allocated [OF d(3)] .
  then have out: "(u, ?t) \<notin> pending q" for u using d(5) by blast
  let ?q1 = "q\<lparr>tq_heap := (tq_heap q)(?t := new_timer cb expiry interval), tq_next := tq_next q + 1,
               tq_timers := map_put (expiry, ?t) () (tq_timers q)\<rparr>"
  let ?e = "case tq_timers q of [] \<Rightarrow> True | (k, _) # _ \<Rightarrow> expiry < fst k"
  let ?q' = "if ?e then resetTimerfd expiry ?q1 else ?q1"
  have none: "map_of (tq_timers q) (expiry, ?t) = None" using out [of expiry] by (simp add: map_of_None_iff)
  have run: "addTimer cb expiry interval q = Inr (?t, ?q')"
    using none
    by (cases "tq_timers q") (auto simp: addTimer_def alloc_timer_def addTimerInLoop_def tq_insert_def Let_def new_timer_def)
  have alloc: "allocated ?q1 = insert ?t (allocated q)" "allocated ?q' = insert ?t (allocated q)"
    by (auto simp: allocated_def less_Suc_eq)
  have wf1: "tq_wf R ?q1"
    using d v fresh out unfolding tq_wf_def alloc
    by (auto simp: new_timer_def map_inv_put split: if_splits)
  have "armed_ok ?q'" if a: "armed_ok q"
  proof (cases ?e)
    case True
    have "expiry \<le> t" if "(t, p) \<in> pending q" for t p
      using earliest_le [OF d(1) that] True by (auto simp: earliest_def split: list.splits prod.splits)
    with True show ?thesis by (auto simp: armed_ok_def)
  next
    case False
    then obtain h u m where q: "tq_timers q = ((h, u) # m)" "fst h \<le> expiry"
      by (auto split: list.splits prod.splits)
    then have "h \<in> pending q" by simp
    then obtain w i where "tq_armed q = Some (w, i)" "w \<le> fst h"
      using a by (cases h) (force simp: armed_ok_def)
    with a q(2) False show ?thesis by (auto simp: armed_ok_def)
  qed
  then show ?thesis using run wf1 alloc fresh by (intro exI [of _ ?q']) auto
qed

text \<open>Cancelling takes the timer's entry out of the set; inside a run of handleRead, a timer that is not in the set is noted.\<close>

lemma cancelInLoop_spec:
  assumes wf: "tq_wf R q" and calling: "tq_calling q = Some b"
  shows "\<exists>q'. cancelInLoop p q = Inr q' \<and> tq_wf R q' \<and> tq_calling q' = tq_calling q \<and> tq_ran q' = tq_ran q
      \<and> tq_owned q' = tq_owned q \<and> tq_clock q' = tq_clock q
      \<and> pending q' = {k \<in> pending q. snd k \<noteq> p}
      \<and> allocated q' = allocated q \<and> tq_heap q' = tq_heap q
      \<and> (b \<and> p \<in> tq_owned q \<and> (\<forall>u. (u, p) \<notin> pending q) \<longrightarrow>
           cancelled q' = insert (tm_expiration (tq_heap q p), p) (cancelled q))
      \<and> cancelled q' \<subseteq> insert (tm_expiration (tq_heap q p), p) (cancelled q) \<and> cancelled q \<subseteq> cancelled q'
      \<and> (armed_ok q \<longrightarrow> armed_ok q')"
proof -
  note d = tq_wfD [OF wf]
  let ?e = "(tm_expiration (tq_heap q p), p)"
  have only: "k = ?e" if "k \<in> pending q" "snd k = p" for k
    using d(4) that by (cases k) auto
  have none: "snd k \<noteq> p" if "?e \<notin> pending q" "k \<in> pending q" for k
    using only that by metis
  consider "\<not> alive q p" | "alive q p" "?e \<in> pending q" | "alive q p" "?e \<notin> pending q" "b"
    | "alive q p" "?e \<notin> pending q" "\<not> b" by blast
  then show ?thesis
  proof cases
    case 1
    then have "cancelInLoop p q = Inr q" by (simp add: cancelInLoop_def)
    moreover have "{k \<in> pending q. snd k \<noteq> p} = pending q" "p \<notin> tq_owned q"
      using 1 by (auto simp: alive_iff)
    ultimately show ?thesis using wf by auto
  next
    case 2
    let ?q' = "q\<lparr>tq_timers := map_erase ?e (tq_timers q)\<rparr>"
    have run: "cancelInLoop p q = Inr ?q'" using 2 by (simp add: cancelInLoop_def Let_def map_of_None_iff)
    have "k \<in> pending q - {?e} \<longleftrightarrow> k \<in> pending q \<and> snd k \<noteq> p" for k
      by (metis (no_types) Diff_iff insertI1 only singletonD snd_conv)
    then have "pending q - {?e} = {k \<in> pending q. snd k \<noteq> p}" by blast
    then have pend: "pending ?q' = {k \<in> pending q. snd k \<noteq> p}" by simp
    have al: "allocated ?q' = allocated q" by (simp add: allocated_def)
    have "tq_wf R ?q'"
      using wf unfolding tq_wf_def al by (auto simp: map_inv_erase)
    moreover have "armed_ok q \<longrightarrow> armed_ok ?q'" by (auto simp: armed_ok_def)
    moreover have "\<not> (\<forall>u. (u, p) \<notin> pending q)" using 2 by blast
    ultimately show ?thesis
      using run pend al by (intro exI [of _ ?q'] conjI) (simp_all, blast+)
  next
    case 3
    let ?q' = "q\<lparr>tq_canceling := map_put ?e () (tq_canceling q)\<rparr>"
    have run: "cancelInLoop p q = Inr ?q'"
      using 3 calling by (simp add: cancelInLoop_def Let_def map_of_None_iff)
    have al: "allocated ?q' = allocated q" by (simp add: allocated_def)
    have "p \<in> allocated q" using 3(1) d(5,7,12) by (auto simp: alive_iff)
    then have "tq_wf R ?q'"
      using wf unfolding tq_wf_def al by (auto simp: map_inv_put)
    moreover have "{k \<in> pending q. snd k \<noteq> p} = pending q" using none [OF 3(2)] by blast
    ultimately show ?thesis using run al by (auto simp: armed_ok_def)
  next
    case 4
    then have "cancelInLoop p q = Inr q" using calling by (simp add: cancelInLoop_def Let_def map_of_None_iff)
    moreover have "{k \<in> pending q. snd k \<noteq> p} = pending q" using none [OF 4(2)] by blast
    ultimately show ?thesis using wf 4 by auto
  qed
qed

text \<open>Calls whose times are valid.\<close>

definition calls_valid :: "timer_call list \<Rightarrow> bool" where
  "calls_valid cs \<longleftrightarrow> (\<forall>c \<in> set cs. case c of Call_add cb expiry interval \<Rightarrow> valid_ts expiry | Call_cancel t \<Rightarrow> True)"

text \<open>What a sequence of calls made while handleRead runs the callbacks does to the timers that existed before it.\<close>

definition calls_effect :: "entry list \<Rightarrow> nat set \<Rightarrow> timer_queue \<Rightarrow> timer_queue \<Rightarrow> bool" where
  "calls_effect R C q q' \<longleftrightarrow>
     tq_wf R q' \<and> tq_calling q' = tq_calling q \<and> tq_owned q' = tq_owned q \<and> tq_clock q' = tq_clock q
     \<and> allocated q \<subseteq> allocated q' \<and> (\<forall>p \<in> allocated q. tq_heap q' p = tq_heap q p)
     \<and> (\<forall>t p. p \<in> allocated q \<longrightarrow> ((t, p) \<in> pending q' \<longleftrightarrow> (t, p) \<in> pending q \<and> p \<notin> C))
     \<and> (\<forall>e \<in> set R. e \<in> cancelled q' \<longleftrightarrow> e \<in> cancelled q \<or> snd e \<in> C)"

definition cancels :: "timer_call list \<Rightarrow> nat set" where
  "cancels cs = {t. Call_cancel t \<in> set cs}"

lemma calls_effect_refl: "tq_wf R q \<Longrightarrow> calls_effect R {} q q"
  by (simp add: calls_effect_def)

lemma calls_effect_trans:
  assumes "calls_effect R C q q1" "calls_effect R D q1 q2"
  shows "calls_effect R (C \<union> D) q q2"
  using assms unfolding calls_effect_def by (simp add: subset_iff)

lemma do_call_effect:
  assumes wf: "tq_wf R q" and calling: "tq_calling q = Some True" and v: "calls_valid [c]"
  shows "\<exists>q'. do_call c q = Inr q' \<and> calls_effect R (cancels [c]) q q' \<and> tq_ran q' = tq_ran q"
proof (cases c)
  case (Call_add cb expiry interval)
  then have "valid_ts expiry" using v by (simp add: calls_valid_def)
  from addTimer_spec [OF wf this, of cb interval] obtain q' where
    q': "addTimer cb expiry interval q = Inr (tq_addr q (tq_next q), q')" "tq_wf R q'"
      "tq_canceling q' = tq_canceling q" "tq_calling q' = tq_calling q" "tq_ran q' = tq_ran q"
      "tq_owned q' = tq_owned q" "tq_clock q' = tq_clock q"
      "pending q' = insert (expiry, tq_addr q (tq_next q)) (pending q)"
      "allocated q \<subseteq> allocated q'" "\<forall>p \<in> allocated q. tq_heap q' p = tq_heap q p" by blast
  moreover have "tq_addr q (tq_next q) \<notin> allocated q" using not_allocated tq_wfD(3) [OF wf] .
  ultimately show ?thesis
    using Call_add by (auto simp: calls_effect_def cancels_def)
next
  case (Call_cancel p)
  obtain q' where q': "cancelInLoop p q = Inr q'" "tq_wf R q'" "tq_calling q' = tq_calling q" "tq_ran q' = tq_ran q"
      "tq_owned q' = tq_owned q" "tq_clock q' = tq_clock q" "pending q' = {k \<in> pending q. snd k \<noteq> p}"
      "allocated q' = allocated q" "tq_heap q' = tq_heap q"
      "p \<in> tq_owned q \<and> (\<forall>u. (u, p) \<notin> pending q) \<longrightarrow> cancelled q' = insert (tm_expiration (tq_heap q p), p) (cancelled q)"
      "cancelled q' \<subseteq> insert (tm_expiration (tq_heap q p), p) (cancelled q)" "cancelled q \<subseteq> cancelled q'"
    using cancelInLoop_spec [OF wf calling, of p] by auto
  have "e \<in> cancelled q' \<longleftrightarrow> e \<in> cancelled q \<or> snd e = p" if "e \<in> set R" for e
  proof (cases "snd e = p")
    case True
    obtain t where e: "e = (t, p)" using True by (cases e) auto
    have "tm_expiration (tq_heap q p) = t" "p \<in> tq_owned q" "\<forall>u. (u, p) \<notin> pending q"
      using tq_wfD(8-10) [OF wf] that e by auto
    with q'(10) e show ?thesis by simp
  next
    case False
    with q'(11,12) show ?thesis by auto
  qed
  with q' Call_cancel show ?thesis by (auto simp: calls_effect_def cancels_def)
qed

lemma do_calls_effect:
  "tq_wf R q \<Longrightarrow> tq_calling q = Some True \<Longrightarrow> calls_valid cs \<Longrightarrow>
     \<exists>q'. do_calls cs q = Inr q' \<and> calls_effect R (cancels cs) q q' \<and> tq_ran q' = tq_ran q"
proof (induction cs arbitrary: q)
  case Nil
  then show ?case by (simp add: cancels_def calls_effect_refl)
next
  case (Cons c cs)
  have v: "calls_valid [c]" "calls_valid cs" using Cons.prems(3) by (auto simp: calls_valid_def)
  obtain q1 where q1: "do_call c q = Inr q1" "calls_effect R (cancels [c]) q q1" "tq_ran q1 = tq_ran q"
    using do_call_effect [OF Cons.prems(1,2) v(1)] by blast
  then have "tq_wf R q1" "tq_calling q1 = Some True" using Cons.prems(2) by (auto simp: calls_effect_def)
  from Cons.IH [OF this v(2)] obtain q2 where
    q2: "do_calls cs q1 = Inr q2" "calls_effect R (cancels cs) q1 q2" "tq_ran q2 = tq_ran q1" by blast
  have "cancels (c # cs) = cancels [c] \<union> cancels cs" by (auto simp: cancels_def)
  with q1 q2 calls_effect_trans show ?case by fastforce
qed

section \<open>A run of handleRead\<close>

definition scripts_valid :: "(nat \<Rightarrow> timer_call list) \<Rightarrow> bool" where
  "scripts_valid script \<longleftrightarrow> (\<forall>cb. calls_valid (script cb))"

text \<open>The timers the callbacks of the entries \<open>es\<close> cancel.\<close>

definition cancelled_by :: "(nat \<Rightarrow> timer_call list) \<Rightarrow> timer_queue \<Rightarrow> entry list \<Rightarrow> nat set" where
  "cancelled_by script q es = (\<Union>e \<in> set es. cancels (script (tm_callback (tq_heap q (snd e)))))"

lemma tq_wf_log [simp]: "tq_wf R (q\<lparr>tq_ran := x\<rparr>) \<longleftrightarrow> tq_wf R q"
  by (simp add: tq_wf_def allocated_def)

lemma tq_wf_calling [simp]: "tq_wf R (q\<lparr>tq_calling := x\<rparr>) \<longleftrightarrow> tq_wf R q"
  by (simp add: tq_wf_def allocated_def)

lemma calls_effect_log [simp]: "calls_effect R C (q\<lparr>tq_ran := x\<rparr>) q' \<longleftrightarrow> calls_effect R C q q'"
  by (simp add: calls_effect_def allocated_def)

lemma run_loop_effect:
  assumes "scripts_valid script"
  shows "tq_wf R q \<Longrightarrow> tq_calling q = Some True \<Longrightarrow> set es \<subseteq> set R \<Longrightarrow>
     \<exists>q'. run_loop script es q = Inr q' \<and> calls_effect R (cancelled_by script q es) q q'
       \<and> tq_ran q' = tq_ran q @ map snd es"
proof (induction es arbitrary: q)
  case Nil
  then show ?case by (simp add: cancelled_by_def calls_effect_refl)
next
  case (Cons e es)
  let ?cs = "script (tm_callback (tq_heap q (snd e)))"
  have "calls_valid ?cs" using assms by (simp add: scripts_valid_def)
  with do_calls_effect [of R "q\<lparr>tq_ran := tq_ran q @ [snd e]\<rparr>" ?cs] Cons.prems(1,2) obtain q1 where
    q1: "run_timer script (snd e) q = Inr q1" "calls_effect R (cancels ?cs) q q1" "tq_ran q1 = tq_ran q @ [snd e]"
    by (auto simp: run_timer_def)
  then have "tq_wf R q1" "tq_calling q1 = Some True" using Cons.prems(2) by (auto simp: calls_effect_def)
  from Cons.IH [OF this] Cons.prems(3) obtain q2 where
    q2: "run_loop script es q1 = Inr q2" "calls_effect R (cancelled_by script q1 es) q1 q2"
      "tq_ran q2 = tq_ran q1 @ map snd es" by auto
  have "snd x \<in> allocated q" if "x \<in> set es" for x
    using tq_wfD(9) [OF Cons.prems(1), of "fst x" "snd x"] tq_wfD(7) [OF Cons.prems(1)] that Cons.prems(3) by auto
  then have "cancelled_by script q1 es = cancelled_by script q es"
    using q1(2) by (simp add: cancelled_by_def calls_effect_def)
  then have "cancelled_by script q (e # es) = cancels ?cs \<union> cancelled_by script q1 es"
    by (simp add: cancelled_by_def)
  with q1 q2 calls_effect_trans show ?case by fastforce
qed

text \<open>getExpired splits the set at the current time, and its assert holds.\<close>

lemma sorted_split_point:
  assumes "sorted_wrt (<) (ks :: entry list)"
  shows "std_lower_bound (\<lambda>i. fst (ks ! i) \<le> now) 0 (length ks) = length (takeWhile (\<lambda>k. fst k \<le> now) ks)"
proof (rule std_lower_bound_point)
  let ?n = "length (takeWhile (\<lambda>k. fst k \<le> now) ks)"
  show "fst (ks ! i) \<le> now" if "i < ?n" for i
    using nth_mem [OF that] set_takeWhileD takeWhile_nth [OF that] by metis
  show "\<not> fst (ks ! i) \<le> now" if i: "?n \<le> i" "i < 0 + length ks" for i
  proof -
    have stop: "\<not> fst (ks ! ?n) \<le> now" using nth_length_takeWhile [of "\<lambda>k. fst k \<le> now" ks] i by simp
    have "ks ! ?n \<le> ks ! i"
      using sorted_wrt_nth_less [OF assms, of ?n i] i by (cases "?n = i") auto
    then have "fst (ks ! ?n) \<le> fst (ks ! i)" by (cases "ks ! ?n", cases "ks ! i") auto
    with stop show ?thesis by simp
  qed
qed (simp_all add: length_takeWhile_le)

definition expired_entries :: "timestamp \<Rightarrow> timer_queue \<Rightarrow> entry list" where
  "expired_entries now q = takeWhile (\<lambda>k. fst k \<le> now) (map fst (tq_timers q))"

lemma getExpired_spec:
  fixes now :: timestamp
  assumes "map_inv (tq_timers q)"
  defines "E \<equiv> expired_entries now q"
  shows "getExpired now q = Inr (E, q\<lparr>tq_timers := drop (length E) (tq_timers q)\<rparr>)"
    and "set E = {k \<in> pending q. fst k \<le> now}"
    and "map_keys (drop (length E) (tq_timers q)) = {k \<in> pending q. now < fst k}"
    and "map_inv (drop (length E) (tq_timers q))" "distinct E"
proof -
  let ?ks = "map fst (tq_timers q)"
  have sorted: "sorted_wrt (<) ?ks" using assms(1) by (simp add: map_inv_def)
  have pt: "std_lower_bound (\<lambda>i. fst (?ks ! i) \<le> now) 0 (length ?ks) = length E"
    unfolding E_def expired_entries_def by (rule sorted_split_point [OF sorted])
  have takeE: "take (length E) ?ks = E" by (simp add: E_def expired_entries_def takeWhile_eq_take [symmetric])
  have dropE: "drop (length E) ?ks = dropWhile (\<lambda>k. fst k \<le> now) ?ks"
    by (simp add: E_def expired_entries_def dropWhile_eq_drop)
  have ks: "?ks = E @ drop (length E) ?ks" using takeE by (metis append_take_drop_id)
  have big: "now < fst k" if k: "k \<in> set (drop (length E) ?ks)" for k
  proof -
    obtain d ds where dd: "drop (length E) ?ks = d # ds" using k by (cases "drop (length E) ?ks") auto
    then have d: "now < fst d" using hd_dropWhile [of "\<lambda>k. fst k \<le> now" ?ks] dropE by auto
    have "sorted_wrt (<) (d # ds)" using sorted ks dd by (metis sorted_wrt_append)
    then have "d \<le> k" using k dd by auto
    then have "fst d \<le> fst k" by (cases d, cases k) auto
    with d show ?thesis by simp
  qed
  have small: "fst k \<le> now" if "k \<in> set E" for k
    using that by (auto simp: E_def expired_entries_def dest: set_takeWhileD)
  have all: "pending q = set E \<union> set (drop (length E) ?ks)"
    using arg_cong [OF ks, of set] by (simp add: map_keys_def)
  show "getExpired now q = Inr (E, q\<lparr>tq_timers := drop (length E) (tq_timers q)\<rparr>)"
  proof -
    have "length E = length ?ks \<or> now < fst (?ks ! length E)"
    proof (cases "length E < length ?ks")
      case True
      then have "?ks ! length E \<in> set (drop (length E) ?ks)"
        by (metis Cons_nth_drop_Suc list.set_intros(1))
      then show ?thesis using big by blast
    qed (use arg_cong [OF ks, of length] in auto)
    then show ?thesis unfolding getExpired_def Let_def pt takeE by simp
  qed
  show "set E = {k \<in> pending q. fst k \<le> now}" using all small big by fastforce
  show "map_keys (drop (length E) (tq_timers q)) = {k \<in> pending q. now < fst k}"
    using all small big by (auto simp: map_keys_def drop_map [symmetric] simp flip: set_map) fastforce+
  show "map_inv (drop (length E) (tq_timers q))"
    using sorted sorted_wrt_drop unfolding map_inv_def by (metis drop_map)
  show "distinct E" using sorted ks by (metis distinct_append strict_sorted_iff)
qed

text \<open>reset puts the repeating timers that were not cancelled back, one interval after \<open>now\<close>.\<close>

definition rescheduled :: "timestamp \<Rightarrow> timer_queue \<Rightarrow> entry list \<Rightarrow> entry set" where
  "rescheduled now q es =
     {(addTime now (tm_interval (tq_heap q p)), p) | t p.
        (t, p) \<in> set es \<and> tm_repeat (tq_heap q p) \<and> (t, p) \<notin> cancelled q}"

lemma valid_addTime: "valid_ts now \<Longrightarrow> 0 < i \<Longrightarrow> valid_ts (addTime now i)"
  using addTime_mono [of i now] by (simp add: valid_ts_def timestamp_order_defs)

lemma tq_wf_drop_first: "tq_wf (e # es) q \<Longrightarrow> tq_wf es q"
  by (cases e) (auto simp: tq_wf_def)

lemma reset_loop_spec:
  assumes now: "valid_ts now"
  shows "tq_wf es q \<Longrightarrow>
    \<exists>q'. reset_loop es now q = Inr q' \<and> tq_wf [] q'
      \<and> pending q' = pending q \<union> rescheduled now q es
      \<and> tq_canceling q' = tq_canceling q \<and> tq_ran q' = tq_ran q \<and> tq_owned q' = tq_owned q
      \<and> tq_calling q' = tq_calling q \<and> tq_clock q' = tq_clock q \<and> tq_armed q' = tq_armed q
      \<and> allocated q' = allocated q"
proof (induction es arbitrary: q)
  case Nil
  then show ?case by (simp add: rescheduled_def)
next
  case (Cons e es)
  obtain t p where e: "e = (t, p)" by (cases e)
  note d = tq_wfD [OF Cons.prems]
  have p: "p \<in> tq_owned q" "p \<in> allocated q" "\<And>u. (u, p) \<notin> pending q" "\<And>u. (u, p) \<notin> set es"
    using d(7,9,10,11) e by (auto simp: image_iff) (metis snd_conv)
  show ?case
  proof (cases "tm_repeat (tq_heap q p) \<and> e \<notin> cancelled q")
    case True
    let ?new = "addTime now (tm_interval (tq_heap q p))"
    let ?q1 = "q\<lparr>tq_heap := (tq_heap q)(p := restart now (tq_heap q p)), tq_timers := map_put (?new, p) () (tq_timers q)\<rparr>"
    have exp: "tm_expiration (restart now (tq_heap q p)) = ?new" "tm_repeat (restart now (tq_heap q p)) = tm_repeat (tq_heap q p)"
      "tm_interval (restart now (tq_heap q p)) = tm_interval (tq_heap q p)"
      using True by (simp_all add: restart_def)
    have run: "reset_loop (e # es) now q = reset_loop es now ?q1"
      using True p(3) exp(1) by (simp add: e tq_insert_def Let_def map_of_None_iff)
    have al: "allocated ?q1 = allocated q" by (simp add: allocated_def)
    have "0 < tm_interval (tq_heap q p)" using d(13) True by blast
    then have v: "valid_ts ?new" using now valid_addTime by blast
    have wf1: "tq_wf es ?q1"
      using tq_wf_drop_first [OF Cons.prems] p v exp unfolding tq_wf_def al by (auto simp: map_inv_put)
    have "rescheduled now ?q1 es = rescheduled now q es"
      using p(4) unfolding rescheduled_def by (auto; metis)
    moreover have "rescheduled now q (e # es) = insert (?new, p) (rescheduled now q es)"
      using True e by (auto simp: rescheduled_def)
    ultimately have "pending ?q1 \<union> rescheduled now ?q1 es = pending q \<union> rescheduled now q (e # es)" by simp
    then show ?thesis using Cons.IH [OF wf1] run al by simp
  next
    case False
    then have run: "reset_loop (e # es) now q = reset_loop es now q"
      by (auto simp: e map_of_None_iff)
    have "rescheduled now q (e # es) = rescheduled now q es"
      using False e by (auto simp: rescheduled_def)
    then show ?thesis using Cons.IH [OF tq_wf_drop_first [OF Cons.prems]] run by simp
  qed
qed

lemma tq_reset_spec:
  assumes now: "valid_ts now" and wf: "tq_wf es q"
  shows "\<exists>q'. tq_reset es now q = Inr q' \<and> tq_wf [] q' \<and> armed_ok q'
      \<and> pending q' = pending q \<union> rescheduled now q es
      \<and> tq_canceling q' = tq_canceling q \<and> tq_ran q' = tq_ran q \<and> tq_owned q' = tq_owned q
      \<and> tq_calling q' = tq_calling q \<and> tq_clock q' = tq_clock q \<and> allocated q' = allocated q"
proof -
  obtain q1 where q1: "reset_loop es now q = Inr q1" "tq_wf [] q1"
    "pending q1 = pending q \<union> rescheduled now q es"
    "tq_canceling q1 = tq_canceling q" "tq_ran q1 = tq_ran q" "tq_owned q1 = tq_owned q"
    "tq_calling q1 = tq_calling q" "tq_clock q1 = tq_clock q" "allocated q1 = allocated q"
    using reset_loop_spec [OF now wf] by blast
  show ?thesis
  proof (cases "tq_timers q1")
    case Nil
    then have "tq_reset es now q = Inr q1" using q1(1) by (simp add: tq_reset_def invalid_ts_def valid_ts_def)
    with q1 Nil show ?thesis by (auto simp: armed_ok_def)
  next
    case (Cons x m)
    obtain t p u where x: "x = ((t, p), u)" by (cases x) auto
    have mem: "(t, p) \<in> pending q1" using Cons x by simp
    then have ex: "tm_expiration (tq_heap q1 p) = t" "valid_ts t" using tq_wfD(4,6) [OF q1(2)] by auto
    have "tq_reset es now q = Inr (resetTimerfd t q1)"
      using q1(1) Cons x ex by (simp add: tq_reset_def)
    moreover have "t \<le> fst k" if "k \<in> pending q1" for k
      using earliest_le [OF tq_wfD(1) [OF q1(2)] that] Cons x by (simp add: earliest_def)
    then have "armed_ok (resetTimerfd t q1)" by (auto simp: armed_ok_def)
    moreover have "allocated (resetTimerfd t q1) = allocated q1" by (simp add: allocated_def)
    ultimately show ?thesis using q1 by auto
  qed
qed

text \<open>The queue between two events of the loop.\<close>

definition tq_inv :: "timer_queue \<Rightarrow> bool" where
  "tq_inv q \<longleftrightarrow> tq_wf [] q \<and> tq_owned q = {} \<and> armed_ok q \<and> (\<forall>n. valid_ts (tq_clock q n))"

lemma handleRead_fires_aux:
  assumes inv: "tq_inv q" and v: "scripts_valid script"
  defines "now \<equiv> tq_clock q (tq_ticks q)"
  defines "E \<equiv> expired_entries now q"
  defines "C \<equiv> cancelled_by script q E"
  shows "\<exists>q'. tq_handleRead script q = Inr q' \<and> tq_inv q' \<and> tq_ran q' = tq_ran q @ map snd E
      \<and> (\<forall>t p u. (t, p) \<in> set E \<longrightarrow>
           ((u, p) \<in> pending q' \<longleftrightarrow> tm_repeat (tq_heap q p) \<and> p \<notin> C \<and> u = addTime now (tm_interval (tq_heap q p))))
      \<and> (\<forall>t p. (t, p) \<in> pending q \<longrightarrow> now < t \<longrightarrow> ((t, p) \<in> pending q' \<longleftrightarrow> p \<notin> C))"
proof -
  have wf: "tq_wf [] q" and owned: "tq_owned q = {}" and clk: "\<And>n. valid_ts (tq_clock q n)"
    using inv by (auto simp: tq_inv_def)
  note d = tq_wfD [OF wf]
  let ?q0 = "q\<lparr>tq_armed := None, tq_ticks := tq_ticks q + 1\<rparr>"
  have E: "E = expired_entries now ?q0" by (simp add: E_def expired_entries_def)
  have inv0: "map_inv (tq_timers ?q0)" using d(1) by simp
  note g = getExpired_spec [OF inv0, of now, folded E]
  let ?q2 = "?q0\<lparr>tq_timers := drop (length E) (tq_timers q), tq_owned := snd ` set E,
                 tq_calling := Some True, tq_canceling := []\<rparr>"
  have pend2: "pending ?q2 = {k \<in> pending q. now < fst k}" using g(3) by simp
  have al: "allocated ?q2 = allocated q" by (simp add: allocated_def)
  have wf2: "tq_wf E ?q2"
    unfolding tq_wf_def al pend2
  proof (intro conjI)
    show "map_inv (tq_timers ?q2)" using g(4) by simp
    show "tq_owned ?q2 \<subseteq> allocated q" using g(2) d(5) by auto
    have "inj_on snd (set E)"
      using g(2) d(4) by (auto simp: inj_on_def) (metis)+
    then show "distinct (map snd E)" using g(5) by (simp add: distinct_map)
    show "\<forall>(t, p)\<in>set E. tm_expiration (tq_heap ?q2 p) = t \<and> p \<in> tq_owned ?q2 \<and> (\<forall>u. (u, p) \<notin> {k \<in> pending q. now < fst k})"
      using g(2) d(4) by (auto simp: image_iff) (metis not_less)+
  qed (use d in auto)
  obtain q3 where q3: "run_loop script E ?q2 = Inr q3" "calls_effect E (cancelled_by script ?q2 E) ?q2 q3"
    "tq_ran q3 = tq_ran q @ map snd E"
    using run_loop_effect [OF v wf2, of E] by auto
  have C: "cancelled_by script ?q2 E = C" by (simp add: C_def cancelled_by_def)
  note ce = q3(2) [unfolded C calls_effect_def al]
  let ?q4 = "q3\<lparr>tq_calling := Some False\<rparr>"
  have "tq_wf E q3" using q3(2) by (simp only: calls_effect_def)
  then have wf4: "tq_wf E ?q4" by simp
  obtain q5 where q5: "tq_reset E now ?q4 = Inr q5" "tq_wf [] q5" "armed_ok q5"
    "pending q5 = pending ?q4 \<union> rescheduled now ?q4 E" "tq_ran q5 = tq_ran ?q4" "tq_clock q5 = tq_clock ?q4"
    using tq_reset_spec [OF _ wf4, of now] clk unfolding now_def by blast
  let ?q' = "q5\<lparr>tq_owned := {}\<rparr>"
  have run: "tq_handleRead script q = Inr ?q'"
    using g(1) q3(1) q5(1) by (simp add: tq_handleRead_def read_clock_def now_def [symmetric] owned)
  have "tq_wf [] ?q'" using q5(2) by (auto simp: tq_wf_def allocated_def)
  then have inv': "tq_inv ?q'" using q5(3,6) ce clk by (auto simp: tq_inv_def armed_ok_def)
  have allocE: "p \<in> allocated q" if "(t, p) \<in> set E" for t p using that g(2) d(5) by auto
  have heap: "tq_heap q3 p = tq_heap q p" if "p \<in> allocated q" for p using ce that by simp
  have noted: "\<forall>e \<in> set E. e \<in> cancelled q3 \<longleftrightarrow> e \<in> cancelled ?q2 \<or> snd e \<in> C"
    using q3(2) unfolding C calls_effect_def by blast
  have canc: "(t, p) \<in> cancelled q3 \<longleftrightarrow> p \<in> C" if "(t, p) \<in> set E" for t p
    using bspec [OF noted that] by simp
  have "(u, p) \<in> rescheduled now ?q4 E \<longleftrightarrow>
      (\<exists>t. (t, p) \<in> set E \<and> tm_repeat (tq_heap q3 p) \<and> (t, p) \<notin> cancelled q3 \<and> u = addTime now (tm_interval (tq_heap q3 p)))" for u p
    by (auto simp: rescheduled_def)
  then have resch: "(u, p) \<in> rescheduled now ?q4 E \<longleftrightarrow>
      (\<exists>t. (t, p) \<in> set E) \<and> tm_repeat (tq_heap q p) \<and> p \<notin> C \<and> u = addTime now (tm_interval (tq_heap q p))" for u p
    using heap [OF allocE, of _ p] canc by (metis (no_types))
  have pend3: "(u, p) \<in> pending q3 \<longleftrightarrow> (u, p) \<in> pending q \<and> now < u \<and> p \<notin> C" if "p \<in> allocated q" for u p
    using ce pend2 that by auto
  have one: "u = t" if "(t, p) \<in> pending q" "(u, p) \<in> pending q" for t u p using d(4) that by metis
  have fired: "(u, p) \<in> pending ?q' \<longleftrightarrow> tm_repeat (tq_heap q p) \<and> p \<notin> C \<and> u = addTime now (tm_interval (tq_heap q p))"
    if "(t, p) \<in> set E" for t p u
  proof -
    have "(u, p) \<notin> pending q3" using pend3 [OF allocE [OF that], of u] one [of t p u] g(2) that by auto
    then show ?thesis using q5(4) resch that by auto
  qed
  have kept: "(t, p) \<in> pending ?q' \<longleftrightarrow> p \<notin> C" if a: "(t, p) \<in> pending q" "now < t" for t p
  proof -
    have "\<nexists>u. (u, p) \<in> set E" using g(2) one a by (auto simp: not_less [symmetric])
    then show ?thesis using pend3 [OF d(5) [OF a(1)]] q5(4) resch a by auto
  qed
  show ?thesis using run inv' q5(5) q3(3) fired kept by (intro exI [of _ ?q']) auto
qed

section \<open>Between the events\<close>

inductive tq_step :: "(nat \<Rightarrow> timer_call list) \<Rightarrow> timer_queue \<Rightarrow> timer_queue \<Rightarrow> bool"
  for script :: "nat \<Rightarrow> timer_call list" where
  step_add: "valid_ts expiry \<Longrightarrow> addTimer cb expiry interval q = Inr (t, q') \<Longrightarrow> tq_step script q q'"
| step_cancel: "cancelInLoop t q = Inr q' \<Longrightarrow> tq_step script q q'"
| step_fire: "tq_handleRead script q = Inr q' \<Longrightarrow> tq_step script q q'"

definition tq_init :: "timer_queue \<Rightarrow> bool" where
  "tq_init q \<longleftrightarrow> (\<exists>addr clk. inj addr \<and> (\<forall>n. valid_ts (clk n)) \<and> q = new_timer_queue addr clk)"

lemma tq_inv_calling: "tq_inv (q\<lparr>tq_calling := x\<rparr>) \<longleftrightarrow> tq_inv q"
  by (simp add: tq_inv_def armed_ok_def)

lemma tq_inv_cancel:
  assumes "tq_inv q" "cancelInLoop t q = Inr q'"
  shows "tq_inv q'"
proof -
  have some: "tq_inv r'" if "tq_inv r" "cancelInLoop t r = Inr r'" "tq_calling r = Some b" for r r' b
    using cancelInLoop_spec [of "[]" r b t] that by (auto simp: tq_inv_def)
  show ?thesis
  proof (cases "tq_calling q")
    case None
    then have "cancelInLoop t (q\<lparr>tq_calling := Some False\<rparr>) = Inr (q'\<lparr>tq_calling := Some False\<rparr>)"
      using assms(2) by (auto simp: cancelInLoop_def Let_def alive_def split: if_splits)
    from some [OF _ this, of False] assms(1) show ?thesis by (simp add: tq_inv_calling)
  qed (use some assms in blast)
qed

lemma tq_inv_init: "tq_init q \<Longrightarrow> tq_inv q"
  by (auto simp: tq_init_def tq_inv_def tq_wf_empty armed_ok_def) (simp_all add: new_timer_queue_def)

lemma tq_inv_step: "scripts_valid script \<Longrightarrow> tq_inv q \<Longrightarrow> tq_step script q q' \<Longrightarrow> tq_inv q'"
proof (erule tq_step.cases)
  fix expiry cb interval r t r'
  assume a: "tq_inv q" "q = r" "q' = r'" "valid_ts expiry" "addTimer cb expiry interval r = Inr (t, r')"
  then show "tq_inv q'"
    using addTimer_spec [of "[]" q expiry cb interval] by (auto simp: tq_inv_def)
next
  fix t r r'
  assume "tq_inv q" "q = r" "q' = r'" "cancelInLoop t r = Inr r'"
  then show "tq_inv q'" using tq_inv_cancel by blast
next
  fix r r'
  assume "scripts_valid script" "tq_inv q" "q = r" "q' = r'" "tq_handleRead script r = Inr r'"
  then show "tq_inv q'" using handleRead_fires_aux [of q script] by auto
qed

text \<open>Scripts with an invalid time are replaced by the empty one, so that the system has its invariant without a hypothesis.\<close>

definition sane :: "(nat \<Rightarrow> timer_call list) \<Rightarrow> nat \<Rightarrow> timer_call list" where
  "sane script = (\<lambda>cb. if calls_valid (script cb) then script cb else [])"

lemma scripts_valid_sane: "scripts_valid (sane script)"
  by (simp add: scripts_valid_def sane_def) (simp add: calls_valid_def)

lemma sane_id: "scripts_valid script \<Longrightarrow> sane script = script"
  by (auto simp: scripts_valid_def sane_def)

interpretation timers: invariant_system tq_init "tq_step (sane script)" tq_inv for script
  by unfold_locales (auto intro: tq_inv_init tq_inv_step scripts_valid_sane)

lemma reachable_tq_inv: "scripts_valid script \<Longrightarrow> reach tq_init (tq_step script) q \<Longrightarrow> tq_inv q"
  using timers.reachable_inv [of script] by (simp add: sane_id)

text \<open>C16: when the timerfd fires, handleRead never fails; it runs exactly the timers whose expiration has passed, in the order of
  expiration and each once. A repeating one is back in the set, one interval later, unless a callback of this
  run cancelled it (itself included), a one-shot one is gone, and a timer that is not yet due stays unless
  cancelled.\<close>

theorem handleRead_fires:
  assumes "scripts_valid script" "reach tq_init (tq_step script) q"
  defines "now \<equiv> tq_clock q (tq_ticks q)"
  defines "E \<equiv> takeWhile (\<lambda>k. fst k \<le> now) (map fst (tq_timers q))"
  defines "C \<equiv> {t. \<exists>e \<in> set E. Call_cancel t \<in> set (script (tm_callback (tq_heap q (snd e))))}"
  shows "\<exists>q'. tq_handleRead script q = Inr q' \<and> tq_ran q' = tq_ran q @ map snd E
      \<and> set E = {k \<in> pending q. fst k \<le> now} \<and> sorted_wrt (<) E
      \<and> (\<forall>t p u. (t, p) \<in> set E \<longrightarrow>
           ((u, p) \<in> pending q' \<longleftrightarrow> tm_repeat (tq_heap q p) \<and> p \<notin> C \<and> u = addTime now (tm_interval (tq_heap q p))))
      \<and> (\<forall>t p. (t, p) \<in> pending q \<longrightarrow> now < t \<longrightarrow> ((t, p) \<in> pending q' \<longleftrightarrow> p \<notin> C))"
proof -
  have inv: "tq_inv q" using reachable_tq_inv [OF assms(1,2)] .
  then have m: "map_inv (tq_timers q)" by (auto simp: tq_inv_def tq_wf_def)
  have E: "E = expired_entries now q" by (simp add: E_def expired_entries_def)
  have C: "C = cancelled_by script q E" by (auto simp: C_def cancelled_by_def cancels_def)
  have "sorted_wrt (<) E"
    using m unfolding E_def map_inv_def by (metis sorted_wrt_append takeWhile_dropWhile_id)
  then show ?thesis
    using handleRead_fires_aux [OF inv assms(1)] getExpired_spec(2) [OF m, of now]
    unfolding E C now_def [symmetric] by blast
qed

text \<open>An example: a repeating timer of one second whose callback (number 7) does nothing, added at time 5 s.\<close>

definition example_clock :: "nat \<Rightarrow> timestamp" where
  "example_clock n = Timestamp (5000000 + 2000000 * int n)"

lemma example_reach:
  "\<exists>q. reach tq_init (tq_step (\<lambda>_. [])) q \<and> pending q = {(Timestamp 6000000, 0)} \<and> tq_ran q = []
     \<and> tq_heap q 0 = new_timer 7 (Timestamp 6000000) 1 \<and> tq_ticks q = 1 \<and> tq_clock q = example_clock"
proof -
  let ?q0 = "new_timer_queue id example_clock"
  have i: "tq_init ?q0"
    unfolding tq_init_def by (intro exI [of _ id] exI [of _ example_clock]) (simp add: example_clock_def valid_ts_def)
  let ?r = "addTimer 7 (Timestamp 6000000) 1 ?q0"
  obtain q1 where q1: "?r = Inr (0, q1)" "pending q1 = {(Timestamp 6000000, 0)}" "tq_ran q1 = []"
    "tq_heap q1 0 = new_timer 7 (Timestamp 6000000) 1" "tq_ticks q1 = 1" "tq_clock q1 = example_clock"
    by (simp add: addTimer_def alloc_timer_def addTimerInLoop_def tq_insert_def resetTimerfd_def read_clock_def
        new_timer_queue_def new_timer_def)
  then have st: "tq_step (\<lambda>_. []) ?q0 q1"
    by (intro step_add [of "Timestamp 6000000" 7 1]) (simp_all add: valid_ts_def)
  have r0: "reach tq_init (tq_step (\<lambda>_. [])) ?q0" using i by (rule reach_init)
  have "reach tq_init (tq_step (\<lambda>_. [])) q1" by (rule reach_step [OF r0 st])
  with q1(2-) show ?thesis by blast
qed

lemma example_scripts_valid: "scripts_valid (\<lambda>_. [])"
  by (simp add: scripts_valid_def calls_valid_def)

theorem handleRead_fires_witness:
  "\<exists>q q'. reach tq_init (tq_step (\<lambda>_. [])) q \<and> tq_handleRead (\<lambda>_. []) q = Inr q'
     \<and> tq_ran q' = [0] \<and> (Timestamp 8000000, 0) \<in> pending q'"
proof -
  obtain q where q: "reach tq_init (tq_step (\<lambda>_. [])) q" "pending q = {(Timestamp 6000000, 0)}" "tq_ran q = []"
    "tq_heap q 0 = new_timer 7 (Timestamp 6000000) 1" "tq_ticks q = 1" "tq_clock q = example_clock"
    using example_reach by blast
  define E where "E = takeWhile (\<lambda>k. fst k \<le> tq_clock q (tq_ticks q)) (map fst (tq_timers q))"
  from handleRead_fires [OF example_scripts_valid q(1)] obtain q' where
    q': "tq_handleRead (\<lambda>_. []) q = Inr q'" "tq_ran q' = tq_ran q @ map snd E"
      "set E = {k \<in> pending q. fst k \<le> tq_clock q (tq_ticks q)}" "sorted_wrt (<) E"
      "\<forall>t p u. (t, p) \<in> set E \<longrightarrow> ((u, p) \<in> pending q' \<longleftrightarrow> tm_repeat (tq_heap q p)
         \<and> p \<notin> {t. \<exists>e \<in> set E. Call_cancel t \<in> set []} \<and> u = addTime (tq_clock q (tq_ticks q)) (tm_interval (tq_heap q p)))"
    unfolding E_def [symmetric] by (elim exE conjE) (rule that)
  have now: "tq_clock q (tq_ticks q) = Timestamp 7000000" using q(5,6) by (simp add: example_clock_def)
  have "{k \<in> {(Timestamp 6000000, 0 :: nat)}. fst k \<le> Timestamp 7000000} = {(Timestamp 6000000, 0)}" by auto
  then have "set E = {(Timestamp 6000000, 0)}" unfolding q'(3) now q(2) .
  moreover have "distinct E" using q'(4) by (simp add: strict_sorted_iff)
  ultimately have E: "E = [(Timestamp 6000000, 0)]"
    by (cases E) (auto simp: subset_singleton_iff insert_eq_iff)
  have add: "addTime (Timestamp 7000000) 1 = Timestamp 8000000"
    by (simp add: addTime_def trunc_rat_def kMicroSecondsPerSecond_def)
  have "(Timestamp 8000000, 0) \<in> pending q'"
    using q'(5) unfolding now E by (simp add: q(4) new_timer_def add)
  with q q' E show ?thesis by auto
qed



text \<open>
  The member \<open>callingExpiredTimers_\<close> is read before anything has set it when a timer of which a functor
  of the loop still holds a pointer is cancelled a second time before the first expiry.
\<close>

lemma second_cancel_reads_uninitialised:
  assumes "tq_wf [] q" "tq_calling q = None" "p \<in> tq_owned q" "\<And>u. (u, p) \<notin> pending q"
  shows "cancelInLoop p q = Inl Uninitialised"
  using assms by (simp add: cancelInLoop_def alive_iff Let_def map_of_None_iff)

end
