(* ===== verification/LogStream.thy ===== *)
theory LogStream
  imports CText "HOL-Library.Word"
begin

unbundle bit_operations_syntax

text \<open>
  base/LogStream.h and base/LogStream.cc: the fixed buffer into which a log line is formatted, the
  conversions of numbers, and the output operators. The text that snprintf makes of a floating point
  number is an argument; a write past the end of the array is a fault.
\<close>

section \<open>FixedBuffer\<close>

definition kSmallBuffer :: nat where "kSmallBuffer = 4000"
definition kLargeBuffer :: nat where "kLargeBuffer = 4000 * 1000"

text \<open>The array \<open>data_\<close> (its length is SIZE) and the position of \<open>cur_\<close> in it.\<close>

record fixed_buffer =
  fb_data :: "char list"
  fb_cur :: nat

definition new_fixed_buffer :: "char list \<Rightarrow> fixed_buffer" where
  "new_fixed_buffer uninitialised = \<lparr>fb_data = uninitialised, fb_cur = 0\<rparr>"

definition fb_avail :: "fixed_buffer \<Rightarrow> int" where
  "fb_avail b = int (length (fb_data b)) - int (fb_cur b)"

definition fb_length :: "fixed_buffer \<Rightarrow> nat" where
  "fb_length b = fb_cur b"

definition fb_write :: "fixed_buffer \<Rightarrow> char list \<Rightarrow> fixed_buffer res" where
  "fb_write b xs =
     (if fb_cur b + length xs \<le> length (fb_data b) then Inr (b\<lparr>fb_data := overwrite (fb_data b) (fb_cur b) xs\<rparr>)
      else Inl Buffer_overflow)"

definition fb_add :: "fixed_buffer \<Rightarrow> nat \<Rightarrow> fixed_buffer" where
  "fb_add b len = b\<lparr>fb_cur := fb_cur b + len\<rparr>"

text \<open>The cast of a negative \<open>avail()\<close> to size\_t is a huge number.\<close>

definition fb_append :: "fixed_buffer \<Rightarrow> char list \<Rightarrow> fixed_buffer res" where
  "fb_append b buf =
     (if int (length buf) < (if fb_avail b < 0 then fb_avail b + 2 ^ 64 else fb_avail b) then
        rbind (fb_write b buf) (\<lambda>b. Inr (fb_add b (length buf)))
      else Inr b)"

definition fb_reset :: "fixed_buffer \<Rightarrow> fixed_buffer" where
  "fb_reset b = b\<lparr>fb_cur := 0\<rparr>"

definition fb_bzero :: "fixed_buffer \<Rightarrow> fixed_buffer" where
  "fb_bzero b = b\<lparr>fb_data := replicate (length (fb_data b)) (CHR 0x00)\<rparr>"

definition fb_toString :: "fixed_buffer \<Rightarrow> char list" where
  "fb_toString b = take (fb_cur b) (fb_data b)"

definition debugString :: "fixed_buffer \<Rightarrow> (fixed_buffer \<times> char list) res" where
  "debugString b = rbind (fb_write b [CHR 0x00]) (\<lambda>b. Inr (b, takeWhile (\<lambda>c. c \<noteq> CHR 0x00) (fb_data b)))"

section \<open>Conversion of numbers\<close>

definition digits :: "char list" where "digits = ''9876543210123456789''"
definition digitsHex :: "char list" where "digitsHex = ''0123456789ABCDEF''"

lemma sdiv_ten_smaller: "i sdiv 10 \<noteq> 0 \<Longrightarrow> nat \<bar>i sdiv 10\<bar> < nat \<bar>i\<bar>" for i :: int
proof -
  assume "i sdiv 10 \<noteq> 0"
  moreover have "\<bar>i sdiv 10\<bar> \<le> \<bar>i\<bar> div 10" by (simp add: signed_divide_int_def abs_mult abs_sgn_eq)
  ultimately show ?thesis by (auto simp: nat_less_eq_zless)
qed

text \<open>The do-loop of \<open>convert\<close>: the characters in the order in which they are written.\<close>

function convert_loop :: "int \<Rightarrow> char list" where
  "convert_loop i =
     (let lsd = i smod 10; i' = i sdiv 10; c = digits ! nat (9 + lsd)
      in c # (if i' \<noteq> 0 then convert_loop i' else []))"
  by auto
termination
proof (relation "measure (\<lambda>i. nat \<bar>i\<bar>)")
  fix i lsd i' :: int and c
  assume "i' = i sdiv 10" "i' \<noteq> 0"
  then show "(i', i) \<in> measure (\<lambda>i. nat \<bar>i\<bar>)" using sdiv_ten_smaller [of i] by (simp only: in_measure simp_thms)
qed simp

definition convert :: "int \<Rightarrow> char list" where
  "convert value = rev (convert_loop value @ (if value < 0 then ''-'' else []))"

fun convert_hex_loop :: "nat \<Rightarrow> char list" where
  "convert_hex_loop i = digitsHex ! (i mod 16) # (if i div 16 \<noteq> 0 then convert_hex_loop (i div 16) else [])"

definition convertHex :: "nat \<Rightarrow> char list" where
  "convertHex value = rev (convert_hex_loop value)"

declare convert_loop.simps [simp del] convert_hex_loop.simps [simp del]

section \<open>LogStream\<close>

definition kMaxNumericSize :: int where "kMaxNumericSize = 32"

definition formatInteger :: "fixed_buffer \<Rightarrow> int \<Rightarrow> fixed_buffer res" where
  "formatInteger b v =
     (if kMaxNumericSize \<le> fb_avail b then
        rbind (fb_write b (convert v @ [CHR 0x00])) (\<lambda>b. Inr (fb_add b (length (convert v))))
      else Inr b)"

definition put_pointer :: "fixed_buffer \<Rightarrow> 64 word \<Rightarrow> fixed_buffer res" where
  "put_pointer b p =
     (if kMaxNumericSize \<le> fb_avail b then
        rbind (fb_write b (''0x'' @ convertHex (unat p) @ [CHR 0x00])) (\<lambda>b. Inr (fb_add b (length (convertHex (unat p)) + 2)))
      else Inr b)"

text \<open>\<open>t\<close> is what \<open>"%.12g"\<close> makes of the number.\<close>

definition put_double :: "fixed_buffer \<Rightarrow> char list \<Rightarrow> fixed_buffer res" where
  "put_double b t =
     (if kMaxNumericSize \<le> fb_avail b then
        rbind (fb_write b (snprintf 32 t @ [CHR 0x00])) (\<lambda>b. Inr (fb_add b (length t)))
      else Inr b)"

text \<open>A \<open>Fmt\<close>: 32 bytes for the text \<open>t\<close> of its argument.\<close>

definition fmt_buf :: "char list \<Rightarrow> char list res" where
  "fmt_buf t = assert_c (length t < 32) (Inr (snprintf 32 t))"

text \<open>The integer types with an output operator; a short becomes an int, an unsigned short an unsigned int.\<close>

datatype log_integer =
    Arg_short "16 word" | Arg_unsigned_short "16 word"
  | Arg_int "32 word" | Arg_unsigned_int "32 word"
  | Arg_long "64 word" | Arg_unsigned_long "64 word"
  | Arg_long_long "64 word" | Arg_unsigned_long_long "64 word"

fun put_integer :: "fixed_buffer \<Rightarrow> log_integer \<Rightarrow> fixed_buffer res" where
  "put_integer b (Arg_short v) = formatInteger b (sint (scast v :: 32 word))"
| "put_integer b (Arg_unsigned_short v) = formatInteger b (uint (ucast v :: 32 word))"
| "put_integer b (Arg_int v) = formatInteger b (sint v)"
| "put_integer b (Arg_unsigned_int v) = formatInteger b (uint v)"
| "put_integer b (Arg_long v) = formatInteger b (sint v)"
| "put_integer b (Arg_unsigned_long v) = formatInteger b (uint v)"
| "put_integer b (Arg_long_long v) = formatInteger b (sint v)"
| "put_integer b (Arg_unsigned_long_long v) = formatInteger b (uint v)"

datatype log_item =
    Arg_bool bool
  | Arg_integer log_integer
  | Arg_pointer "64 word"
  | Arg_double "char list"
  | Arg_char char
  | Arg_c_string "char list option"
  | Arg_string "char list"
  | Arg_buffer fixed_buffer
  | Arg_formatted "char list"

fun put :: "fixed_buffer \<Rightarrow> log_item \<Rightarrow> fixed_buffer res" where
  "put b (Arg_bool v) = fb_append b (if v then ''1'' else ''0'')"
| "put b (Arg_integer v) = put_integer b v"
| "put b (Arg_pointer p) = put_pointer b p"
| "put b (Arg_double t) = put_double b t"
| "put b (Arg_char v) = fb_append b [v]"
| "put b (Arg_c_string s) = (case s of Some str \<Rightarrow> fb_append b (takeWhile (\<lambda>c. c \<noteq> CHR 0x00) str) | None \<Rightarrow> fb_append b ''(null)'')"
| "put b (Arg_string v) = fb_append b v"
| "put b (Arg_buffer v) = fb_append b (fb_toString v)"
| "put b (Arg_formatted t) = rbind (fmt_buf t) (\<lambda>buf. fb_append b (take (length t) buf))"

text \<open>A chain of output operators.\<close>

fun put_all :: "fixed_buffer \<Rightarrow> log_item list \<Rightarrow> fixed_buffer res" where
  "put_all b [] = Inr b"
| "put_all b (x # xs) = rbind (put b x) (\<lambda>b. put_all b xs)"

section \<open>The conversions print the numbers\<close>

lemma abs_sdiv_smod_ten: "\<bar>i sdiv 10\<bar> = \<bar>i\<bar> div 10" "\<bar>i smod 10\<bar> = \<bar>i\<bar> mod 10" for i :: int
  by (cases "i = 0"; simp add: signed_divide_int_def signed_modulo_int_def abs_mult abs_sgn_eq)+

lemma digits_nth:
  assumes "\<bar>l\<bar> < 10"
  shows "digits ! nat (9 + l) = digit_char (nat \<bar>l\<bar>)"
proof -
  have "l = -9 \<or> l = -8 \<or> l = -7 \<or> l = -6 \<or> l = -5 \<or> l = -4 \<or> l = -3 \<or> l = -2 \<or> l = -1 \<or> l = 0 \<or>
    l = 1 \<or> l = 2 \<or> l = 3 \<or> l = 4 \<or> l = 5 \<or> l = 6 \<or> l = 7 \<or> l = 8 \<or> l = 9" using assms by presburger
  then show ?thesis by (elim disjE; hypsubst; code_simp)
qed

lemma rev_convert_loop: "rev (convert_loop i) = dec_nat (nat \<bar>i\<bar>)"
proof (induction i rule: convert_loop.induct)
  case (1 i)
  have d: "digits ! nat (9 + i smod 10) = digit_char (nat \<bar>i\<bar> mod 10)"
    by (subst digits_nth) (simp_all add: abs_sdiv_smod_ten nat_mod_distrib)
  have q: "nat \<bar>i sdiv 10\<bar> = nat \<bar>i\<bar> div 10" by (simp add: abs_sdiv_smod_ten nat_div_distrib)
  show ?case
  proof (cases "i sdiv 10 = 0")
    case True
    then have "nat \<bar>i\<bar> < 10" using q by simp
    with True d show ?thesis by (subst convert_loop.simps, subst dec_nat.simps) (simp add: Let_def)
  next
    case False
    then have "\<not> nat \<bar>i\<bar> < 10" using q by (metis abs_0_eq abs_ge_zero div_less nat_0_iff order_antisym)
    with False d q 1 show ?thesis by (subst convert_loop.simps, subst dec_nat.simps) (simp add: Let_def)
  qed
qed

lemma convert_dec_int: "convert v = dec_int v"
  by (simp add: convert_def rev_convert_loop dec_int_def)

lemma length_convert:
  assumes "\<bar>v\<bar> < 10 ^ 20"
  shows "length (convert v) \<le> 21"
proof -
  have "nat \<bar>v\<bar> < 10 ^ 20" using assms by (simp add: nat_less_iff)
  from length_dec_nat [OF this] show ?thesis by (auto simp: convert_dec_int dec_int_def split: if_splits)
qed

lemma length_convert_hex_loop: "n < 16 ^ k \<Longrightarrow> 0 < k \<Longrightarrow> length (convert_hex_loop n) \<le> k"
proof (induction n arbitrary: k rule: convert_hex_loop.induct)
  case (1 n)
  show ?case
  proof (cases "n div 16 = 0")
    case True
    with 1 show ?thesis by (subst convert_hex_loop.simps) simp
  next
    case False
    with 1(2,3) obtain j where k: "k = Suc j" "0 < j" by (cases k; cases "k = 1") auto
    have "n div 16 < 16 ^ j" using 1(2) k by (simp add: less_mult_imp_div_less mult.commute)
    then have "length (convert_hex_loop (n div 16)) \<le> j" using 1(1) False k by blast
    with False k show ?thesis by (subst convert_hex_loop.simps) simp
  qed
qed

text \<open>The value of a hexadecimal text.\<close>

definition hex_value :: "char list \<Rightarrow> nat" where
  "hex_value s = foldl (\<lambda>v c. 16 * v + std_find c digitsHex) 0 s"

lemma hex_digit: "d < 16 \<Longrightarrow> std_find (digitsHex ! d) digitsHex = d"
proof -
  assume "d < 16"
  moreover have "\<forall>d \<in> set [0..<16]. std_find (digitsHex ! d) digitsHex = d" by code_simp
  ultimately show ?thesis by simp
qed

lemma hex_value_convertHex: "hex_value (convertHex n) = n"
proof (induction n rule: convert_hex_loop.induct)
  case (1 n)
  show ?case
  proof (cases "n div 16 = 0")
    case True
    then show ?thesis by (subst convertHex_def, subst convert_hex_loop.simps) (simp add: hex_value_def hex_digit div_eq_0_iff)
  next
    case False
    with 1 have "foldl (\<lambda>v c. 16 * v + std_find c digitsHex) 0 (rev (convert_hex_loop (n div 16))) = n div 16"
      by (simp add: hex_value_def convertHex_def)
    with False show ?thesis
      by (subst convertHex_def, subst convert_hex_loop.simps) (simp add: hex_value_def hex_digit)
  qed
qed

section \<open>The stream holds whole items and never overflows\<close>

fun integer_value :: "log_integer \<Rightarrow> int" where
  "integer_value (Arg_short v) = sint v" | "integer_value (Arg_unsigned_short v) = uint v"
| "integer_value (Arg_int v) = sint v" | "integer_value (Arg_unsigned_int v) = uint v"
| "integer_value (Arg_long v) = sint v" | "integer_value (Arg_unsigned_long v) = uint v"
| "integer_value (Arg_long_long v) = sint v" | "integer_value (Arg_unsigned_long_long v) = uint v"

definition item_text :: "log_item \<Rightarrow> char list" where
  "item_text x =
     (case x of
       Arg_bool v \<Rightarrow> (if v then ''1'' else ''0'')
     | Arg_integer v \<Rightarrow> dec_int (integer_value v)
     | Arg_pointer p \<Rightarrow> ''0x'' @ convertHex (unat p)
     | Arg_double t \<Rightarrow> t
     | Arg_char c \<Rightarrow> [c]
     | Arg_c_string s \<Rightarrow> (case s of None \<Rightarrow> ''(null)'' | Some str \<Rightarrow> takeWhile (\<lambda>c. c \<noteq> CHR 0x00) str)
     | Arg_string v \<Rightarrow> v
     | Arg_buffer v \<Rightarrow> fb_toString v
     | Arg_formatted t \<Rightarrow> t)"

text \<open>
  The space an item needs: a number 32 bytes, another item one byte more than its text. The text of a
  number of \<open>"%.12g"\<close> has at most 19 characters, and the one of a \<open>Fmt\<close> is asserted to be short.
\<close>

definition item_room :: "log_item \<Rightarrow> nat" where
  "item_room x =
     (case x of
       Arg_bool _ \<Rightarrow> 2 | Arg_char _ \<Rightarrow> 2
     | Arg_c_string _ \<Rightarrow> length (item_text x) + 1 | Arg_string _ \<Rightarrow> length (item_text x) + 1
     | Arg_buffer _ \<Rightarrow> length (item_text x) + 1 | Arg_formatted _ \<Rightarrow> length (item_text x) + 1
     | _ \<Rightarrow> 32)"

definition item_ok :: "log_item \<Rightarrow> bool" where
  "item_ok x = (case x of Arg_double t \<Rightarrow> length t < 32 | Arg_formatted t \<Rightarrow> length t < 32 | _ \<Rightarrow> True)"

definition fb_inv :: "nat \<Rightarrow> fixed_buffer \<Rightarrow> bool" where
  "fb_inv n b \<longleftrightarrow> length (fb_data b) = n \<and> fb_cur b < n"

lemma fb_toString_write:
  assumes "fb_inv n b" "fb_cur b + length xs + k \<le> n" "length ys = k"
  shows "\<exists>b'. fb_write b (xs @ ys) = Inr b' \<and> fb_toString (fb_add b' (length xs)) = fb_toString b @ xs \<and>
    length (fb_data b') = n \<and> fb_cur b' = fb_cur b"
  using assms by (simp add: fb_write_def fb_inv_def fb_toString_def fb_add_def overwrite_def)

text \<open>The result \<open>r\<close> of an operator that prints \<open>t\<close> when there are \<open>room\<close> bytes left.\<close>

definition prints :: "nat \<Rightarrow> fixed_buffer \<Rightarrow> nat \<Rightarrow> char list \<Rightarrow> fixed_buffer res \<Rightarrow> bool" where
  "prints n b room t r \<longleftrightarrow>
     (\<exists>b'. r = Inr b' \<and> fb_inv n b' \<and> fb_toString b' = (if fb_cur b + room \<le> n then fb_toString b @ t else fb_toString b))"

lemma fb_append_prints:
  assumes "fb_inv n b"
  shows "prints n b (length xs + 1) xs (fb_append b xs)"
proof (cases "fb_cur b + length xs < n")
  case True
  then show ?thesis
    using fb_toString_write [OF assms, of xs 0 "[]"] assms
    by (auto simp: prints_def fb_append_def fb_avail_def fb_inv_def fb_add_def)
next
  case False
  then show ?thesis using assms by (simp add: prints_def fb_append_def fb_avail_def fb_inv_def)
qed

lemma number_prints:
  assumes "fb_inv n b" "length xs < 32"
    and "r = (if kMaxNumericSize \<le> fb_avail b then rbind (fb_write b (xs @ [CHR 0x00])) (\<lambda>b. Inr (fb_add b (length xs))) else Inr b)"
  shows "prints n b 32 xs r"
proof (cases "fb_cur b + 32 \<le> n")
  case True
  then show ?thesis
    using fb_toString_write [OF assms(1), of xs 1 "[CHR 0x00]"] assms
    by (auto simp: prints_def kMaxNumericSize_def fb_avail_def fb_inv_def fb_add_def)
next
  case False
  then show ?thesis using assms by (simp add: prints_def kMaxNumericSize_def fb_avail_def fb_inv_def)
qed

lemma formatInteger_prints:
  assumes "fb_inv n b" "\<bar>v\<bar> < 10 ^ 20"
  shows "prints n b 32 (dec_int v) (formatInteger b v)"
proof -
  have "length (convert v) < 32" using length_convert [OF assms(2)] by simp
  from number_prints [OF assms(1) this formatInteger_def] show ?thesis by (simp add: convert_dec_int)
qed

lemma put_pointer_prints:
  assumes "fb_inv n b"
  shows "prints n b 32 (''0x'' @ convertHex (unat p)) (put_pointer b p)"
proof (rule number_prints [OF assms])
  have "unat p < 16 ^ 16" using unsigned_less [of p] by simp
  then show "length (''0x'' @ convertHex (unat p)) < 32"
    using length_convert_hex_loop [of "unat p" 16] by (simp add: convertHex_def)
qed (simp add: put_pointer_def)

lemma put_double_prints: "fb_inv n b \<Longrightarrow> length t < 32 \<Longrightarrow> prints n b 32 t (put_double b t)"
  by (rule number_prints) (simp_all add: put_double_def)

lemma word_abs_bounds:
  "\<bar>sint (v :: 32 word)\<bar> < 10 ^ 20" "\<bar>uint (v :: 32 word)\<bar> < 10 ^ 20" "\<bar>sint (w :: 64 word)\<bar> < 10 ^ 20" "\<bar>uint (w :: 64 word)\<bar> < 10 ^ 20"
proof -
  have "uint v < 2 ^ 32" "uint w < 2 ^ 64" using uint_lt2p [of v] uint_lt2p [of w] by simp_all
  then show "\<bar>uint v\<bar> < 10 ^ 20" "\<bar>uint w\<bar> < 10 ^ 20" by simp_all
  have "- (2 ^ 31) \<le> sint v" "sint v < 2 ^ 31" "- (2 ^ 63) \<le> sint w" "sint w < 2 ^ 63"
    using sint_ge [of v] sint_lt [of v] sint_ge [of w] sint_lt [of w] by simp_all
  then show "\<bar>sint v\<bar> < 10 ^ 20" "\<bar>sint w\<bar> < 10 ^ 20" by (simp_all add: abs_less_iff)
qed

lemma widen_short: "sint (scast v :: 32 word) = sint v" "uint (ucast v :: 32 word) = uint v" for v :: "16 word"
  by (simp_all add: sint_up_scast is_up uint_up_ucast)

lemma put_integer_prints:
  assumes "fb_inv n b"
  shows "prints n b 32 (dec_int (integer_value v)) (put_integer b v)"
  using formatInteger_prints [OF assms word_abs_bounds(1)] formatInteger_prints [OF assms word_abs_bounds(2)]
    formatInteger_prints [OF assms word_abs_bounds(3)] formatInteger_prints [OF assms word_abs_bounds(4)]
  by (cases v) (simp_all add: widen_short [symmetric])

lemma put_prints:
  assumes "fb_inv n b" "item_ok x"
  shows "prints n b (item_room x) (item_text x) (put b x)"
  using fb_append_prints [OF assms(1)] put_integer_prints [OF assms(1)] put_pointer_prints [OF assms(1)] put_double_prints [OF assms(1)] assms(2)
    fb_append_prints [OF assms(1), of "[c]" for c] fb_append_prints [OF assms(1), of "''(null)''"]
  by (cases x) (auto simp: item_room_def item_text_def item_ok_def fmt_buf_def assert_c_def numeral_2_eq_2 split: option.splits)

text \<open>The items that fit, one after another, into what is left of \<open>n\<close> bytes after the first \<open>k\<close>.\<close>

fun fitting :: "nat \<Rightarrow> nat \<Rightarrow> log_item list \<Rightarrow> log_item list" where
  "fitting n k [] = []"
| "fitting n k (x # xs) =
     (if k + item_room x \<le> n then x # fitting n (k + length (item_text x)) xs else fitting n k xs)"

lemma item_room_le: "item_room x \<le> length (item_text x) + 32"
  by (cases x) (simp_all add: item_room_def item_text_def)

lemma fitting_all: "k + length (concat (map item_text xs)) + 32 \<le> n \<Longrightarrow> fitting n k xs = xs"
proof (induction xs arbitrary: k)
  case (Cons x xs)
  then have "k + item_room x \<le> n" using item_room_le [of x] by simp
  with Cons show ?case by simp
qed simp

lemma put_all_spec:
  assumes "fb_inv n b" "\<forall>x \<in> set xs. item_ok x"
  shows "\<exists>b'. put_all b xs = Inr b' \<and> fb_inv n b' \<and> fb_toString b' = fb_toString b @ concat (map item_text (fitting n (fb_cur b) xs))"
  using assms
proof (induction xs arbitrary: b)
  case (Cons x xs)
  obtain b1 where b1: "put b x = Inr b1" "fb_inv n b1"
    "fb_toString b1 = (if fb_cur b + item_room x \<le> n then fb_toString b @ item_text x else fb_toString b)"
    using put_prints [OF Cons.prems(1), of x] Cons.prems(2) by (auto simp: prints_def)
  have "length (fb_toString b1) = fb_cur b1" "length (fb_toString b) = fb_cur b"
    using b1(2) Cons.prems(1) by (simp_all add: fb_toString_def fb_inv_def)
  then have cur: "fb_cur b1 = (if fb_cur b + item_room x \<le> n then fb_cur b + length (item_text x) else fb_cur b)"
    using b1(3) by (metis length_append)
  obtain b' where "put_all b1 xs = Inr b'" "fb_inv n b'"
    "fb_toString b' = fb_toString b1 @ concat (map item_text (fitting n (fb_cur b1) xs))"
    using Cons.IH [OF b1(2)] Cons.prems(2) by auto
  then show ?case using b1(1,3) cur by (cases "fb_cur b + item_room x \<le> n") simp_all
qed simp

text \<open>C36: any sequence of output operators on a stream of 4000 bytes returns without writing past the end
  of its buffer, and the stream then holds exactly the texts of the items that fitted when they came, whole
  and in their order (an integer as its decimal digits, its sign included even for the least one), and is
  still terminated inside the buffer by \<open>debugString\<close>.\<close>

theorem stream_holds_whole_items:
  assumes "length garbage = kSmallBuffer" "\<forall>x \<in> set xs. item_ok x"
  shows "\<exists>b. put_all (new_fixed_buffer garbage) xs = Inr b \<and>
    fb_toString b = concat (map item_text (fitting kSmallBuffer 0 xs)) \<and>
    fb_length b < kSmallBuffer \<and> (\<exists>r. debugString b = Inr r)"
proof -
  have "fb_inv kSmallBuffer (new_fixed_buffer garbage)"
    using assms(1) by (simp add: fb_inv_def new_fixed_buffer_def kSmallBuffer_def)
  from put_all_spec [OF this assms(2)] obtain b where b: "put_all (new_fixed_buffer garbage) xs = Inr b" "fb_inv kSmallBuffer b"
    "fb_toString b = concat (map item_text (fitting kSmallBuffer 0 xs))"
    by (auto simp: new_fixed_buffer_def fb_toString_def)
  then show ?thesis by (auto simp: fb_inv_def fb_length_def debugString_def fb_write_def)
qed

theorem stream_holds_whole_items_witness:
  "\<exists>b. put_all (new_fixed_buffer (replicate 4000 (CHR ''?''))) [Arg_c_string (Some ''fd=''), Arg_integer (Arg_int (- 2147483648)), Arg_bool True] = Inr b \<and>
     fb_toString b = ''fd='' @ dec_int (- 2147483648) @ ''1''"
  using stream_holds_whole_items [of "replicate 4000 (CHR ''?'')" "[Arg_c_string (Some ''fd=''), Arg_integer (Arg_int (- 2147483648)), Arg_bool True]"]
    length_dec_nat [of 2147483648 10]
  by (auto simp: kSmallBuffer_def item_ok_def item_room_def item_text_def dec_int_def)

end
