(* ===== verification/Calendar.thy ===== *)
theory Calendar
  imports CText "HOL-Library.Word"
begin

text \<open>
  base/Date.h and base/Date.cc, and the conversions between UTC times and calendar dates of
  base/TimeZone.cc. The C division is \<open>sdiv\<close>, its remainder \<open>smod\<close>. The arithmetic of the calendar
  is written on unbounded integers: \<open>4 * a + 3\<close>, its largest value, stays in 32 bits for every date
  before the year 1400000, and the conversion of a number of days to an int, which does not, is
  written out.
\<close>

section \<open>Julian day numbers\<close>

record year_month_day =
  ymd_year :: int
  ymd_month :: int
  ymd_day :: int

definition getJulianDayNumber :: "int \<Rightarrow> int \<Rightarrow> int \<Rightarrow> int" where
  "getJulianDayNumber year month day =
     (let a = (14 - month) sdiv 12;
          y = year + 4800 - a;
          m = month + 12 * a - 3
      in day + (153 * m + 2) sdiv 5 + y * 365 + y sdiv 4 - y sdiv 100 + y sdiv 400 - 32045)"

definition getYearMonthDay :: "int \<Rightarrow> year_month_day" where
  "getYearMonthDay julianDayNumber =
     (let a = julianDayNumber + 32044;
          b = (4 * a + 3) sdiv 146097;
          c = a - (b * 146097) sdiv 4;
          d = (4 * c + 3) sdiv 1461;
          e = c - (1461 * d) sdiv 4;
          m = (5 * e + 2) sdiv 153
      in \<lparr>ymd_year = b * 100 + d - 4800 + m sdiv 10, ymd_month = m + 3 - 12 * (m sdiv 10),
          ymd_day = e - (153 * m + 2) sdiv 5 + 1\<rparr>)"

definition kJulianDayOf1970_01_01 :: int where
  "kJulianDayOf1970_01_01 = getJulianDayNumber 1970 1 1"

section \<open>Date\<close>

datatype date = Date (julianDayNumber: int)

definition invalid_date :: date where
  "invalid_date = Date 0"

definition date_of_ymd :: "int \<Rightarrow> int \<Rightarrow> int \<Rightarrow> date" where
  "date_of_ymd y m d = Date (getJulianDayNumber y m d)"

definition date_valid :: "date \<Rightarrow> bool" where
  "date_valid d \<longleftrightarrow> 0 < julianDayNumber d"

definition yearMonthDay :: "date \<Rightarrow> year_month_day" where
  "yearMonthDay d = getYearMonthDay (julianDayNumber d)"

definition weekDay :: "date \<Rightarrow> int" where
  "weekDay d = (julianDayNumber d + 1) smod 7"

definition toIsoString :: "date \<Rightarrow> char list" where
  "toIsoString d =
     (let ymd = yearMonthDay d
      in snprintf 32 (fmt_width 4 (ymd_year ymd) @ ''-'' @ fmt_zero 2 (ymd_month ymd) @ ''-'' @ fmt_zero 2 (ymd_day ymd)))"

definition date_year :: "date \<Rightarrow> int" where
  "date_year d = ymd_year (yearMonthDay d)"

definition date_month :: "date \<Rightarrow> int" where
  "date_month d = ymd_month (yearMonthDay d)"

definition date_day :: "date \<Rightarrow> int" where
  "date_day d = ymd_day (yearMonthDay d)"

definition date_swap :: "date \<Rightarrow> date \<Rightarrow> date \<times> date" where
  "date_swap d that = (Date (julianDayNumber that), Date (julianDayNumber d))"

definition date_lt :: "date \<Rightarrow> date \<Rightarrow> bool" where
  "date_lt x y \<longleftrightarrow> julianDayNumber x < julianDayNumber y"

definition date_eq :: "date \<Rightarrow> date \<Rightarrow> bool" where
  "date_eq x y \<longleftrightarrow> julianDayNumber x = julianDayNumber y"

instantiation date :: linorder
begin

definition less_date :: "date \<Rightarrow> date \<Rightarrow> bool" where
  "less_date x y \<longleftrightarrow> date_lt x y"

definition less_eq_date :: "date \<Rightarrow> date \<Rightarrow> bool" where
  "less_eq_date x y \<longleftrightarrow> \<not> (y < x)"

instance
  by standard (auto simp: less_date_def date_lt_def less_eq_date_def date.expand)

end

section \<open>UTC times\<close>

text \<open>\<open>static_cast<int>\<close> of a 64-bit value.\<close>

definition cast_int :: "int \<Rightarrow> int" where
  "cast_int x = sint (word_of_int x :: 32 word)"

lemma cast_int_id [simp]: "- (2 ^ 31) \<le> x \<Longrightarrow> x < 2 ^ 31 \<Longrightarrow> cast_int x = x"
  by (simp add: cast_int_def sint_sbintrunc' signed_take_bit_int_eq_self)

definition kSecondsPerDay :: int where "kSecondsPerDay = 24 * 60 * 60"

record tm =
  tm_sec :: int
  tm_min :: int
  tm_hour :: int
  tm_mday :: int
  tm_mon :: int
  tm_year :: int
  tm_wday :: int
  tm_yday :: int
  tm_isdst :: bool
  tm_gmtoff :: int
  tm_zone :: "char list"

definition zero_tm :: tm where
  "zero_tm = \<lparr>tm_sec = 0, tm_min = 0, tm_hour = 0, tm_mday = 0, tm_mon = 0, tm_year = 0, tm_wday = 0, tm_yday = 0,
     tm_isdst = False, tm_gmtoff = 0, tm_zone = []\<rparr>"

definition date_of_tm :: "tm \<Rightarrow> date" where
  "date_of_tm t = Date (getJulianDayNumber (tm_year t + 1900) (tm_mon t + 1) (tm_mday t))"

definition fillHMS :: "int \<Rightarrow> tm \<Rightarrow> tm" where
  "fillHMS seconds utc =
     (let utc = utc\<lparr>tm_sec := seconds mod 60\<rparr>; minutes = seconds div 60
      in utc\<lparr>tm_min := minutes mod 60, tm_hour := minutes div 60\<rparr>)"

definition toUtcTime :: "int \<Rightarrow> bool \<Rightarrow> tm" where
  "toUtcTime secondsSinceEpoch yday =
     (let utc = zero_tm\<lparr>tm_zone := ''GMT''\<rparr>;
          seconds = cast_int (secondsSinceEpoch smod kSecondsPerDay);
          days = cast_int (secondsSinceEpoch sdiv kSecondsPerDay);
          (seconds, days) = (if seconds < 0 then (seconds + kSecondsPerDay, days - 1) else (seconds, days));
          utc = fillHMS seconds utc;
          date = Date (days + kJulianDayOf1970_01_01);
          ymd = yearMonthDay date;
          utc = utc\<lparr>tm_year := ymd_year ymd - 1900, tm_mon := ymd_month ymd - 1, tm_mday := ymd_day ymd, tm_wday := weekDay date\<rparr>
      in if yday then
           (let startOfYear = date_of_ymd (ymd_year ymd) 1 1
            in utc\<lparr>tm_yday := julianDayNumber date - julianDayNumber startOfYear\<rparr>)
         else utc)"

definition fromUtcTime6 :: "int \<Rightarrow> int \<Rightarrow> int \<Rightarrow> int \<Rightarrow> int \<Rightarrow> int \<Rightarrow> int" where
  "fromUtcTime6 year month day hour minute seconds =
     (let date = date_of_ymd year month day;
          secondsInDay = hour * 3600 + minute * 60 + seconds;
          days = julianDayNumber date - kJulianDayOf1970_01_01
      in days * kSecondsPerDay + secondsInDay)"

definition fromUtcTime :: "tm \<Rightarrow> int" where
  "fromUtcTime utc = fromUtcTime6 (tm_year utc + 1900) (tm_mon utc + 1) (tm_mday utc) (tm_hour utc) (tm_min utc) (tm_sec utc)"

section \<open>The Gregorian calendar\<close>

definition leap :: "int \<Rightarrow> bool" where
  "leap y \<longleftrightarrow> 4 dvd y \<and> (\<not> 100 dvd y \<or> 400 dvd y)"

definition days_in_month :: "int \<Rightarrow> int \<Rightarrow> int" where
  "days_in_month y m = (if m = 2 then (if leap y then 29 else 28) else if m \<in> {4, 6, 9, 11} then 30 else 31)"

definition valid_ymd :: "int \<Rightarrow> int \<Rightarrow> int \<Rightarrow> bool" where
  "valid_ymd y m d \<longleftrightarrow> 1 \<le> m \<and> m \<le> 12 \<and> 1 \<le> d \<and> d \<le> days_in_month y m"

text \<open>From a day number to the date and back.\<close>

lemma div_bounds: "0 < k \<Longrightarrow> k * (x div k) \<le> x \<and> x < k * (x div k) + k" for x k :: int
proof -
  assume k: "0 < k"
  have "x = k * (x div k) + x mod k" by simp
  with k pos_mod_sign [of k x] pos_mod_bound [of k x] show ?thesis by linarith
qed

lemma div4: "4 * (x div 4) \<le> x" "x \<le> 4 * (x div 4) + 3" for x :: int
  using div_bounds [of 4 x] by simp_all

lemma div_unique_bounds: "k * q \<le> x \<Longrightarrow> x < k * q + k \<Longrightarrow> x div k = q" for x k q :: int
  by (rule int_div_pos_eq [of _ _ _ "x - k * q"]) auto

text \<open>
  A year that starts in March: its months, and the number \<open>march_year e y\<close> of the day \<open>e\<close> of the
  year \<open>y\<close>, counted from the year -4800.
\<close>

definition month_start :: "int \<Rightarrow> int" where
  "month_start m = (153 * m + 2) div 5"

definition march_year :: "int \<Rightarrow> int \<Rightarrow> int" where
  "march_year e y = e + y * 365 + y div 4 - y div 100 + y div 400"

lemma twelve_months:
  assumes "0 \<le> m" "m \<le> 11"
  obtains "m = 0" | "m = 1" | "m = 2" | "m = 3" | "m = 4" | "m = 5" | "m = 6" | "m = 7" | "m = 8" | "m = 9" | "m = 10" | "m = (11::int)"
proof -
  have "m = 0 \<or> m = 1 \<or> m = 2 \<or> m = 3 \<or> m = 4 \<or> m = 5 \<or> m = 6 \<or> m = 7 \<or> m = 8 \<or> m = 9 \<or> m = 10 \<or> m = 11"
    using assms by presburger
  then show ?thesis using that by blast
qed

lemma march_month:
  assumes "0 \<le> e" "e \<le> 365"
  defines "m \<equiv> (5 * e + 2) div 153"
  shows "0 \<le> m \<and> m \<le> 11 \<and> 0 \<le> e - month_start m \<and>
    e - month_start m < (if m \<in> {1, 3, 6, 8} then 30 else if m = 11 then 29 else 31)"
proof -
  have b: "153 * m \<le> 5 * e + 2" "5 * e + 2 < 153 * m + 153" using div_bounds [of 153 "5 * e + 2"] by (simp_all add: m_def)
  have m: "0 \<le> m" "m \<le> 11" using b assms(1,2) by linarith+
  from m show ?thesis by (cases rule: twelve_months) (use b assms(1,2) in \<open>simp_all add: month_start_def\<close>)
qed

lemma march_day:
  assumes "0 \<le> m" "m \<le> 11" "0 \<le> d" "d < (if m \<in> {1, 3, 6, 8} then 30 else if m = 11 then 29 else 31)"
  shows "(5 * (month_start m + d) + 2) div 153 = m" and "0 \<le> month_start m + d" and "month_start m + d \<le> 365"
    and "month_start m + d = 365 \<Longrightarrow> m = 11 \<and> d = 28"
proof -
  have "153 * m \<le> 5 * (month_start m + d) + 2 \<and> 5 * (month_start m + d) + 2 < 153 * m + 153 \<and> 0 \<le> month_start m + d \<and>
    month_start m + d \<le> 365 \<and> (month_start m + d = 365 \<longrightarrow> m = 11 \<and> d = 28)"
    using assms(1,2) by (cases rule: twelve_months) (use assms(3,4) in \<open>simp_all add: month_start_def\<close>)
  then show "(5 * (month_start m + d) + 2) div 153 = m" "0 \<le> month_start m + d" "month_start m + d \<le> 365"
    "month_start m + d = 365 \<Longrightarrow> m = 11 \<and> d = 28"
    by (auto intro: div_unique_bounds)
qed

text \<open>The centuries, years and days of a day number, as the code computes them.\<close>

definition century :: "int \<Rightarrow> int" where "century a = (4 * a + 3) div 146097"
definition century_day :: "int \<Rightarrow> int" where "century_day a = a - (century a * 146097) div 4"
definition century_year :: "int \<Rightarrow> int" where "century_year c = (4 * c + 3) div 1461"
definition year_day :: "int \<Rightarrow> int" where "year_day c = c - (1461 * century_year c) div 4"

lemma century_day_bounds: "0 \<le> century_day a" "century_day a \<le> 36524"
proof -
  have "146097 * century a \<le> 4 * a + 3" "4 * a + 3 < 146097 * century a + 146097"
    using div_bounds [of 146097 "4 * a + 3"] by (simp_all add: century_def)
  moreover have "4 * ((century a * 146097) div 4) \<le> century a * 146097" "century a * 146097 < 4 * ((century a * 146097) div 4) + 4"
    using div_bounds [of 4 "century a * 146097"] by simp_all
  ultimately show "0 \<le> century_day a" "century_day a \<le> 36524" unfolding century_day_def by linarith+
qed

lemma year_day_bounds:
  assumes "0 \<le> c" "c \<le> 36524"
  shows "0 \<le> century_year c" "century_year c \<le> 99" "0 \<le> year_day c" "year_day c \<le> 365"
proof -
  have b: "1461 * century_year c \<le> 4 * c + 3" "4 * c + 3 < 1461 * century_year c + 1461"
    using div_bounds [of 1461 "4 * c + 3"] by (simp_all add: century_year_def)
  moreover have "4 * ((1461 * century_year c) div 4) \<le> 1461 * century_year c" "1461 * century_year c < 4 * ((1461 * century_year c) div 4) + 4"
    using div_bounds [of 4 "1461 * century_year c"] by simp_all
  ultimately show "0 \<le> century_year c" "century_year c \<le> 99" "0 \<le> year_day c" "year_day c \<le> 365"
    unfolding year_day_def using assms by linarith+
qed

lemma quarter_parts: "(b * 146097) div 4 = 36524 * b + b div 4" "(1461 * d) div 4 = 365 * d + d div 4" for b d :: int
  by (rule div_unique_bounds; use div_bounds [of 4 b] div_bounds [of 4 d] in \<open>simp add: algebra_simps\<close>)+

lemma year_parts:
  fixes b s :: int
  assumes "0 \<le> s" "s \<le> 99"
  shows "(b * 100 + s) div 4 = 25 * b + s div 4" "(b * 100 + s) div 100 = b" "(b * 100 + s) div 400 = b div 4"
proof -
  show "(b * 100 + s) div 4 = 25 * b + s div 4" by (rule div_unique_bounds) (use div_bounds [of 4 s] in simp_all)
  show "(b * 100 + s) div 100 = b" by (rule div_unique_bounds) (use assms in linarith)+
  show "(b * 100 + s) div 400 = b div 4" by (rule div_unique_bounds) (use assms div_bounds [of 4 b] in simp_all)
qed

text \<open>The day number is the march year day of its parts, and the parts are those of a march year day.\<close>

lemma march_year_of_parts: "march_year (year_day (century_day a)) (century a * 100 + century_year (century_day a)) = a"
proof -
  let ?c = "century_day a"
  have s: "0 \<le> century_year ?c" "century_year ?c \<le> 99" using year_day_bounds [OF century_day_bounds] by blast+
  show ?thesis
    unfolding march_year_def year_parts [OF s] year_day_def quarter_parts
    by (simp add: century_day_def quarter_parts)
qed

lemma leap_periodic: "leap (y + 400 * n) = leap y"
proof -
  have "4 dvd 400 * n" "100 dvd 400 * n" "400 dvd 400 * n" by (auto intro: dvd_mult2)
  then show ?thesis by (simp add: leap_def dvd_add_left_iff)
qed

lemma leap_century:
  fixes b s :: int
  assumes "0 \<le> s" "s \<le> 99"
  shows "leap (b * 100 + s + 1) \<longleftrightarrow> 4 dvd s + 1 \<and> (s = 99 \<longrightarrow> 4 dvd b + 1)"
proof -
  have "4 dvd b * 100" by presburger
  then have 4: "4 dvd b * 100 + (s + 1) \<longleftrightarrow> 4 dvd s + 1" by (rule dvd_add_right_iff)
  have 100: "100 dvd b * 100 + (s + 1) \<longleftrightarrow> s = 99"
    using assms zdvd_imp_le [of 100 "s + 1"] by (auto simp: dvd_add_right_iff)
  have "400 dvd b * 100 + (99 + 1) \<longleftrightarrow> 100 * 4 dvd 100 * (b + 1)" by (simp add: algebra_simps)
  then have 400: "400 dvd b * 100 + (99 + 1) \<longleftrightarrow> 4 dvd b + 1" by (simp only: dvd_mult_cancel_left) simp
  show ?thesis unfolding leap_def add.assoc using 4 100 400 by auto
qed

text \<open>The last day of a march year exists only before a leap day.\<close>

lemma last_march_day:
  assumes "year_day (century_day a) = 365"
  shows "leap (century a * 100 + century_year (century_day a) + 1)"
proof -
  define b c s where "b = century a" and "c = century_day a" and "s = century_year c"
  have s: "0 \<le> s" "s \<le> 99" using year_day_bounds [OF century_day_bounds] by (auto simp: s_def c_def)
  have c: "c = 365 + 365 * s + s div 4"
    using assms by (simp add: year_day_def quarter_parts c_def [symmetric] s_def [symmetric])
  have "4 * c + 3 < 1461 * s + 1461" using div_bounds [of 1461 "4 * c + 3"] by (simp add: s_def century_year_def)
  with c have "4 * (s div 4) + 2 < s" by linarith
  then have "4 dvd s + 1" by presburger
  have a: "a = c + 36524 * b + b div 4" by (simp add: c_def century_day_def quarter_parts b_def)
  have "4 * a + 3 < 146097 * b + 146097" using div_bounds [of 146097 "4 * a + 3"] by (simp add: b_def century_def)
  then have q: "4 * (s div 4) + 4 * (b div 4) + 1460 * s < b + 144634" unfolding a c by simp
  have "4 dvd b + 1" if "s = 99"
  proof -
    from q that have "4 * (b div 4) + 2 < b" by simp
    then show ?thesis by presburger
  qed
  with \<open>4 dvd s + 1\<close> leap_century [OF s, of b] show ?thesis by (simp add: b_def c_def s_def)
qed

text \<open>Both functions of the code in these terms.\<close>

lemma getYearMonthDay_parts:
  fixes j :: int
  assumes "- 32044 \<le> j"
  defines "c \<equiv> century_day (j + 32044)" and "b \<equiv> century (j + 32044)"
  defines "m \<equiv> (5 * year_day c + 2) div 153"
  shows "getYearMonthDay j = \<lparr>ymd_year = b * 100 + century_year c - 4800 + m div 10, ymd_month = m + 3 - 12 * (m div 10),
      ymd_day = year_day c - month_start m + 1\<rparr>"
proof -
  have b: "0 \<le> b" using assms(1) by (simp add: b_def century_def)
  have c: "0 \<le> c" "c \<le> 36524" using century_day_bounds by (simp_all add: c_def)
  note y = year_day_bounds [OF c]
  have m: "0 \<le> m" using y by (simp add: m_def)
  have 1: "(4 * (j + 32044) + 3) sdiv 146097 = b" using assms(1) by (simp add: sdiv_nonneg b_def century_def)
  have 2: "j + 32044 - (b * 146097) sdiv 4 = c" using b by (simp add: sdiv_nonneg c_def century_day_def b_def)
  have 3: "(4 * c + 3) sdiv 1461 = century_year c" using c by (simp add: sdiv_nonneg century_year_def)
  have 4: "c - (1461 * century_year c) sdiv 4 = year_day c" using y by (simp add: sdiv_nonneg year_day_def)
  have 5: "(5 * year_day c + 2) sdiv 153 = m" using y by (simp add: sdiv_nonneg m_def)
  show ?thesis
    unfolding getYearMonthDay_def Let_def 1 2 3 4 5 using m by (simp add: sdiv_nonneg month_start_def)
qed

lemma getJulianDayNumber_parts:
  assumes "0 \<le> y" "0 \<le> m" "m \<le> 11"
  shows "getJulianDayNumber (y - 4800 + m div 10) (m + 3 - 12 * (m div 10)) d = march_year (d - 1 + month_start m) y - 32044"
proof -
  have "(14 - (m + 3 - 12 * (m div 10))) sdiv 12 = m div 10"
    using assms(2,3) by (cases rule: twelve_months) (simp_all add: sdiv_nonneg)
  then show ?thesis
    using assms by (simp add: getJulianDayNumber_def Let_def sdiv_nonneg march_year_def month_start_def)
qed

lemma julian_of_ymd:
  assumes "- 32044 \<le> j"
  shows "getJulianDayNumber (ymd_year (getYearMonthDay j)) (ymd_month (getYearMonthDay j)) (ymd_day (getYearMonthDay j)) = j"
proof -
  define a where "a = j + 32044"
  define y where "y = century a * 100 + century_year (century_day a)"
  define e where "e = year_day (century_day a)"
  note bounds = year_day_bounds [OF century_day_bounds, of a]
  have e: "0 \<le> e" "e \<le> 365" using bounds by (simp_all add: e_def)
  have "0 \<le> century a" using assms by (simp add: a_def century_def)
  with bounds have "0 \<le> y" by (simp add: y_def)
  with march_month [OF e] have "getJulianDayNumber (y - 4800 + (5 * e + 2) div 153 div 10)
      ((5 * e + 2) div 153 + 3 - 12 * ((5 * e + 2) div 153 div 10)) (e - month_start ((5 * e + 2) div 153) + 1) = march_year e y - 32044"
    by (subst getJulianDayNumber_parts) auto
  then show ?thesis
    unfolding getYearMonthDay_parts [OF assms] a_def [symmetric] e_def [symmetric] y_def [symmetric]
    by (simp add: e_def y_def march_year_of_parts, simp add: a_def)
qed

lemma ymd_valid:
  assumes "- 32044 \<le> j"
  shows "valid_ymd (ymd_year (getYearMonthDay j)) (ymd_month (getYearMonthDay j)) (ymd_day (getYearMonthDay j))"
proof -
  define a where "a = j + 32044"
  define y where "y = century a * 100 + century_year (century_day a)"
  define e where "e = year_day (century_day a)"
  define m where "m = (5 * e + 2) div 153"
  note bounds = year_day_bounds [OF century_day_bounds, of a]
  have e: "0 \<le> e" "e \<le> 365" using bounds by (simp_all add: e_def)
  have m: "0 \<le> m" "m \<le> 11" and d: "0 \<le> e - month_start m"
    "e - month_start m < (if m \<in> {1, 3, 6, 8} then 30 else if m = 11 then 29 else 31)"
    using march_month [OF e] by (simp_all only: m_def)
  have leap: "leap (y + 1)" if "m = 11" "e - month_start m = 28"
    using that last_march_day [of a] by (simp add: month_start_def e_def y_def)
  then have leap': "e - month_start m < 28" if "m = 11" "\<not> leap (y - 4799)"
  proof -
    have "leap (y - 4799) = leap (y + 1)" using leap_periodic [of "y - 4799" 12] by (simp add: add.commute)
    then show ?thesis using leap d that by fastforce
  qed
  have ymd: "getYearMonthDay j = \<lparr>ymd_year = y - 4800 + m div 10, ymd_month = m + 3 - 12 * (m div 10), ymd_day = e - month_start m + 1\<rparr>"
    unfolding getYearMonthDay_parts [OF assms] a_def [symmetric] e_def [symmetric] y_def [symmetric] m_def [symmetric]
    by (simp add: e_def)
  show ?thesis
    unfolding ymd valid_ymd_def days_in_month_def using m
    by (cases rule: twelve_months) (use d leap' in \<open>auto\<close>)
qed

text \<open>From a date of the calendar to the day number and back.\<close>

lemma parts_of_march_year:
  assumes "0 \<le> y" "0 \<le> e" "e \<le> 365" and leap: "e = 365 \<Longrightarrow> leap (y + 1)"
  shows "century (march_year e y) * 100 + century_year (century_day (march_year e y)) = y"
    and "year_day (century_day (march_year e y)) = e"
proof -
  define b s where "b = y div 100" and "s = y mod 100"
  have s: "0 \<le> s" "s \<le> 99" using pos_mod_sign [of 100 y] pos_mod_bound [of 100 y] by (simp_all add: s_def)
  have y: "y = b * 100 + s" by (simp add: b_def s_def)
  let ?c = "e + 365 * s + s div 4"
  have a: "march_year e y = ?c + 36524 * b + b div 4" unfolding march_year_def y year_parts [OF s] by simp
  have s4: "4 dvd s + 1" and s99: "s = 99 \<longrightarrow> 4 dvd b + 1" if "e = 365"
    using leap [OF that] unfolding y leap_century [OF s] by simp_all
  have last: "4 * (s div 4) \<le> s - 3" if "e = 365" using s4 [OF that] by presburger
  have cent: "century (march_year e y) = b"
    unfolding a century_def
  proof (rule div_unique_bounds)
    show "146097 * b \<le> 4 * (?c + 36524 * b + b div 4) + 3" using assms(2) s div4 [of b] pos_imp_zdiv_nonneg_iff [of 4 s] by simp
    show "4 * (?c + 36524 * b + b div 4) + 3 < 146097 * b + 146097"
    proof (cases "e = 365 \<and> s = 99")
      case True
      then have "4 * (b div 4) + 3 \<le> b" using s99 by presburger
      with True show ?thesis by simp
    next
      case False
      then consider "e \<le> 364" | "e = 365" "s \<le> 98" using assms(3) s by linarith
      then show ?thesis by cases (use s div4 [of b] zdiv_mono1 [of s 99 4] in \<open>simp_all\<close>)
    qed
  qed
  have day: "century_day (march_year e y) = ?c" unfolding century_day_def cent by (simp add: a quarter_parts)
  have yr: "century_year ?c = s"
    unfolding century_year_def by (rule div_unique_bounds) (use assms(2,3) div4 [of s] last in \<open>cases "e = 365"; simp\<close>)+
  show "century (march_year e y) * 100 + century_year (century_day (march_year e y)) = y" unfolding day cent yr using y by simp
  show "year_day (century_day (march_year e y)) = e" by (simp add: day year_day_def yr quarter_parts)
qed

lemma ymd_of_julian:
  assumes "valid_ymd y m d" "- 4799 \<le> y"
  shows "getYearMonthDay (getJulianDayNumber y m d) = \<lparr>ymd_year = y, ymd_month = m, ymd_day = d\<rparr>"
proof -
  define k where "k = (if m \<le> 2 then m + 9 else m - 3)"
  define Y where "Y = y + 4800 - k div 10"
  define e where "e = month_start k + (d - 1)"
  have mb: "1 \<le> m" "m \<le> 12" "1 \<le> d" "d \<le> days_in_month y m" using assms(1) by (auto simp: valid_ymd_def)
  have k: "0 \<le> k" "k \<le> 11" "m = k + 3 - 12 * (k div 10)" "k div 10 \<le> 1" using mb by (auto simp: k_def)
  have Y: "0 \<le> Y" "y = Y - 4800 + k div 10" using assms(2) k by (simp_all add: Y_def)
  have dk: "0 \<le> d - 1" "d - 1 < (if k \<in> {1, 3, 6, 8} then 30 else if k = 11 then 29 else 31)"
    using mb by (auto simp: k_def days_in_month_def split: if_splits)
  note md = march_day [OF k(1,2) dk, folded e_def]
  have leap: "leap (Y + 1)" if "e = 365"
  proof -
    have "k = 11 \<and> d - 1 = 28" by (rule march_day(4) [OF k(1,2) dk]) (use that in \<open>simp add: e_def\<close>)
    then have "k = 11" "d = 29" by simp_all
    then have "m = 2" "leap y" using k mb by (auto simp: days_in_month_def split: if_splits)
    then show ?thesis using Y \<open>k = 11\<close> leap_periodic [of y 12] by (simp add: ac_simps)
  qed
  have j: "getJulianDayNumber y m d = march_year e Y - 32044"
    unfolding k(3) Y(2) e_def using getJulianDayNumber_parts [OF Y(1) k(1,2), of d] by (simp add: ac_simps)
  have "Y div 100 \<le> Y div 4" using Y(1) by (intro zdiv_mono2) simp_all
  moreover have "0 \<le> Y div 400" using Y(1) by (simp add: pos_imp_zdiv_nonneg_iff)
  ultimately have a: "- 32044 \<le> march_year e Y - 32044" unfolding march_year_def using Y(1) md(2) by linarith
  have m32: "march_year e Y - 32044 + 32044 = march_year e Y" by simp
  have parts: "century (march_year e Y) * 100 + century_year (century_day (march_year e Y)) = Y"
    "year_day (century_day (march_year e Y)) = e"
    by (rule parts_of_march_year [OF Y(1) md(2,3)]; use leap in simp)+
  have ee: "e - month_start k + 1 = d" by (simp add: e_def)
  show ?thesis
    unfolding j getYearMonthDay_parts [OF a] m32 parts md(1) k(3) [symmetric] ee using Y(2) by simp
qed

section \<open>The conversions are inverse to each other\<close>

text \<open>The day number of a date of the calendar from the year -4799 on gives the same year, month and
  day back, and every day number from -32044 on is the number of the date computed from it, which is a
  date of the Gregorian calendar.\<close>

lemma date_roundtrip:
  assumes "valid_ymd y m d" "- 4799 \<le> y" "- 32044 \<le> j"
  shows "yearMonthDay (date_of_ymd y m d) = \<lparr>ymd_year = y, ymd_month = m, ymd_day = d\<rparr> \<and>
    (let ymd = yearMonthDay (Date j)
     in valid_ymd (ymd_year ymd) (ymd_month ymd) (ymd_day ymd) \<and> date_of_ymd (ymd_year ymd) (ymd_month ymd) (ymd_day ymd) = Date j)"
  using assms by (simp add: yearMonthDay_def date_of_ymd_def ymd_of_julian julian_of_ymd ymd_valid Let_def)

lemma date_roundtrip_witness:
  "yearMonthDay (date_of_ymd 2000 2 29) = \<lparr>ymd_year = 2000, ymd_month = 2, ymd_day = 29\<rparr> \<and>
   date_of_ymd (ymd_year (yearMonthDay (Date 2440588))) (ymd_month (yearMonthDay (Date 2440588))) (ymd_day (yearMonthDay (Date 2440588))) = Date 2440588"
proof -
  have v: "valid_ymd 2000 2 29" by (simp add: valid_ymd_def days_in_month_def leap_def)
  show ?thesis using date_roundtrip [OF v, of 2440588] by (simp add: Let_def)
qed

lemma epoch [simp]: "kJulianDayOf1970_01_01 = 2440588"
  by (simp add: kJulianDayOf1970_01_01_def getJulianDayNumber_def Let_def sdiv_nonneg)

lemma fillHMS_fields:
  "fillHMS n t = t\<lparr>tm_sec := n mod 60, tm_min := n div 60 mod 60, tm_hour := n div 60 div 60\<rparr>"
  by (simp add: fillHMS_def Let_def)

text \<open>The quotient and remainder rounded to zero, corrected as the code does, are those rounded down.\<close>

lemma days_and_seconds:
  fixes t :: int
  assumes "0 < k"
  shows "(if t smod k < 0 then (t smod k + k, t sdiv k - 1) else (t smod k, t sdiv k)) = (t mod k, t div k)"
proof (cases "0 \<le> t")
  case True
  then show ?thesis using assms by (simp add: sdiv_nonneg smod_nonneg pos_mod_sign not_less)
next
  case False
  then have neg: "t sdiv k = - (- t div k)" "t smod k = - (- t mod k)"
    using assms by (simp_all add: signed_divide_int_def signed_modulo_int_def sgn_if)
  show ?thesis
  proof (cases "- t mod k = 0")
    case True
    then show ?thesis unfolding neg by (simp add: dvd_eq_mod_eq_0 [symmetric] dvd_neg_div)
  next
    case False
    then have "0 < - t mod k" using assms pos_mod_sign [of k "- t"] by linarith
    then show ?thesis
      unfolding neg using assms False zdiv_zminus1_eq_if [of k "- t"] zmod_zminus1_eq_if [of "- t" k] by simp
  qed
qed

lemma toUtcTime_eq:
  fixes t :: int
  defines "j \<equiv> t div 86400 + 2440588"
  assumes "\<bar>t\<bar> \<le> 10 ^ 14"
  shows "toUtcTime t yday =
    fillHMS (t mod 86400) zero_tm
      \<lparr>tm_zone := ''GMT'', tm_year := ymd_year (getYearMonthDay j) - 1900, tm_mon := ymd_month (getYearMonthDay j) - 1,
       tm_mday := ymd_day (getYearMonthDay j), tm_wday := (j + 1) smod 7,
       tm_yday := if yday then j - getJulianDayNumber (ymd_year (getYearMonthDay j)) 1 1 else 0\<rparr>"
proof -
  have "\<bar>t smod 86400\<bar> < 86400" by (simp add: signed_modulo_int_def abs_mult abs_sgn_eq)
  then have c1: "cast_int (t smod 86400) = t smod 86400" by (intro cast_int_id) (simp_all add: abs_less_iff)
  have "\<bar>t sdiv 86400\<bar> \<le> \<bar>t\<bar> div 86400" by (simp add: signed_divide_int_def abs_mult abs_sgn_eq)
  also have "\<dots> \<le> 10 ^ 14 div 86400" using assms(2) by (rule zdiv_mono1) simp
  finally have c2: "cast_int (t sdiv 86400) = t sdiv 86400" by (intro cast_int_id) simp_all
  have k: "kSecondsPerDay = 86400" by (simp add: kSecondsPerDay_def)
  show ?thesis
    unfolding toUtcTime_def Let_def k c1 c2 days_and_seconds [of 86400 t, simplified] j_def
    by (simp add: yearMonthDay_def date_of_ymd_def weekDay_def fillHMS_def Let_def zero_tm_def)
qed



end
