(* ===== verification/TimeZone.thy ===== *)
theory TimeZone
  imports Calendar Endian
begin

text \<open>
  base/TimeZone.cc: the reading of a zone file, the search of the local time that holds at an instant
  and the conversions between UTC and local time. A reader of the file is a function on the rest of the
  file and the data filled so far; a \<open>logic_error\<close> is a value, and what was stored before the throw
  stays stored. Memory is not exhausted (a count of the file is at most 2^31).
\<close>

section \<open>The data of a zone\<close>

record transition =
  gmttime :: int
  localtime :: int
  localtimeIdx :: int

record local_time =
  gmtOffset :: int
  isDst :: bool
  arrbIdx :: int

record tz_data =
  tz_transitions :: "transition list"
  tz_localtimes :: "local_time list"
  tz_names :: "char list list"
  tz_abbreviation :: "char list"

definition new_data :: tz_data where
  "new_data = \<lparr>tz_transitions = [], tz_localtimes = [], tz_names = [], tz_abbreviation = []\<rparr>"

definition comp_less :: "bool \<Rightarrow> transition \<Rightarrow> transition \<Rightarrow> bool" where
  "comp_less compareGmt lhs rhs =
     (if compareGmt then gmttime lhs < gmttime rhs else localtime lhs < localtime rhs)"

definition comp_equal :: "bool \<Rightarrow> transition \<Rightarrow> transition \<Rightarrow> bool" where
  "comp_equal compareGmt lhs rhs =
     (if compareGmt then gmttime lhs = gmttime rhs else localtime lhs = localtime rhs)"

section \<open>Reading a file\<close>

datatype 'a outcome = Done 'a | Logic_error "char list" | Undefined fault

record tz_file =
  tzf_rest :: "char list"
  tzf_data :: tz_data

type_synonym 'a reader = "tz_file \<Rightarrow> 'a outcome \<times> tz_file"

definition rd_return :: "'a \<Rightarrow> 'a reader" where
  "rd_return x = (\<lambda>f. (Done x, f))"

definition rd_throw :: "char list \<Rightarrow> 'a reader" where
  "rd_throw e = (\<lambda>f. (Logic_error e, f))"

definition rd_fault :: "fault \<Rightarrow> 'a reader" where
  "rd_fault e = (\<lambda>f. (Undefined e, f))"

definition rd_bind :: "'a reader \<Rightarrow> ('a \<Rightarrow> 'b reader) \<Rightarrow> 'b reader" where
  "rd_bind m k = (\<lambda>f.
     (case m f of
       (Done x, f') \<Rightarrow> k x f'
     | (Logic_error e, f') \<Rightarrow> (Logic_error e, f')
     | (Undefined e, f') \<Rightarrow> (Undefined e, f')))"

definition rd_store :: "(tz_data \<Rightarrow> tz_data) \<Rightarrow> unit reader" where
  "rd_store g = (\<lambda>f. (Done (), f\<lparr>tzf_data := g (tzf_data f)\<rparr>))"

definition rd_data :: "tz_data reader" where
  "rd_data = (\<lambda>f. (Done (tzf_data f), f))"

text \<open>fread of \<open>n\<close> bytes takes what the file still has when that is less.\<close>

definition rd_fread :: "nat \<Rightarrow> char list reader" where
  "rd_fread n = (\<lambda>f. (Done (take n (tzf_rest f)), f\<lparr>tzf_rest := drop n (tzf_rest f)\<rparr>))"

definition readBytes :: "int \<Rightarrow> char list reader" where
  "readBytes n =
     (if n < 0 then rd_fault Out_of_range
      else rd_bind (rd_fread (nat n)) (\<lambda>buf.
        if int (length buf) \<noteq> n then rd_throw ''no enough data'' else rd_return buf))"

definition readInt32 :: "32 word reader" where
  "readInt32 =
     rd_bind (rd_fread 4) (\<lambda>x.
       if length x \<noteq> 4 then rd_throw ''bad int32_t data'' else rd_return (be32_dec x))"

definition readUInt8 :: "8 word reader" where
  "readUInt8 =
     rd_bind (rd_fread 1) (\<lambda>x.
       if length x \<noteq> 1 then rd_throw ''bad uint8_t data'' else rd_return (be8_dec x))"

fun read_times :: "'a reader \<Rightarrow> nat \<Rightarrow> 'a list reader" where
  "read_times r 0 = rd_return []"
| "read_times r (Suc n) = rd_bind r (\<lambda>x. rd_bind (read_times r n) (\<lambda>xs. rd_return (x # xs)))"

fun read_localtimes :: "nat \<Rightarrow> unit reader" where
  "read_localtimes 0 = rd_return ()"
| "read_localtimes (Suc n) =
     rd_bind readInt32 (\<lambda>gmtoff.
     rd_bind readUInt8 (\<lambda>isdst.
     rd_bind readUInt8 (\<lambda>abbrind.
     rd_bind (rd_store (\<lambda>d. d\<lparr>tz_localtimes := tz_localtimes d @
         [\<lparr>gmtOffset = sint gmtoff, isDst = (isdst \<noteq> 0), arrbIdx = uint abbrind\<rparr>]\<rparr>)) (\<lambda>_.
     read_localtimes n))))"

fun store_transitions :: "32 word list \<Rightarrow> 8 word list \<Rightarrow> unit reader" where
  "store_transitions (t # ts) (l # ls) =
     rd_bind rd_data (\<lambda>d.
       if unat l < length (tz_localtimes d) then
         rd_bind (rd_store (\<lambda>d. d\<lparr>tz_transitions := tz_transitions d @
           [\<lparr>gmttime = sint t, localtime = sint t + gmtOffset (tz_localtimes d ! unat l), localtimeIdx = uint l\<rparr>]\<rparr>)) (\<lambda>_.
         store_transitions ts ls)
       else rd_fault Out_of_range)"
| "store_transitions _ _ = rd_return ()"

text \<open>\<open>reserve\<close> of a negative count throws \<open>length_error\<close>, which is a \<open>logic_error\<close>.\<close>

definition read_zone :: "unit reader" where
  "read_zone =
     rd_bind (readBytes 4) (\<lambda>head.
     if head \<noteq> ''TZif'' then rd_throw ''bad head'' else
     rd_bind (readBytes 1) (\<lambda>version.
     rd_bind (readBytes 15) (\<lambda>_.
     rd_bind readInt32 (\<lambda>isgmtcnt.
     rd_bind readInt32 (\<lambda>isstdcnt.
     rd_bind readInt32 (\<lambda>leapcnt.
     rd_bind readInt32 (\<lambda>timecnt.
     rd_bind readInt32 (\<lambda>typecnt.
     rd_bind readInt32 (\<lambda>charcnt.
     if sint timecnt < 0 then rd_throw ''vector::reserve'' else
     rd_bind (read_times readInt32 (nat (sint timecnt))) (\<lambda>trans.
     rd_bind (read_times readUInt8 (nat (sint timecnt))) (\<lambda>localtimes.
     rd_bind (read_localtimes (nat (sint typecnt))) (\<lambda>_.
     rd_bind (store_transitions trans localtimes) (\<lambda>_.
     rd_bind (readBytes (sint charcnt)) (\<lambda>chars.
     rd_store (\<lambda>d. d\<lparr>tz_abbreviation := chars\<rparr>)))))))))))))))"

text \<open>
  \<open>file\<close> is the content of the file, \<open>None\<close> when fopen fails. The result is the return value and the
  filled data; the \<open>logic_error\<close> is caught and printed.
\<close>

definition readTimeZoneFile :: "char list option \<Rightarrow> tz_data \<Rightarrow> (bool \<times> tz_data) res" where
  "readTimeZoneFile file data =
     (case file of
       None \<Rightarrow> Inr (True, data)
     | Some bytes \<Rightarrow>
         (case read_zone \<lparr>tzf_rest = bytes, tzf_data = data\<rparr> of
           (Done _, f) \<Rightarrow> Inr (True, tzf_data f)
         | (Logic_error _, f) \<Rightarrow> Inr (True, tzf_data f)
         | (Undefined e, _) \<Rightarrow> Inl e))"

section \<open>Finding the local time of an instant\<close>

definition localtime_at :: "tz_data \<Rightarrow> int \<Rightarrow> local_time res" where
  "localtime_at data i =
     (if 0 \<le> i \<and> nat i < length (tz_localtimes data) then Inr (tz_localtimes data ! nat i) else Inl Out_of_range)"

definition findLocaltime :: "tz_data \<Rightarrow> transition \<Rightarrow> bool \<Rightarrow> local_time res" where
  "findLocaltime data sentry cmp =
     (let ts = tz_transitions data in
      if ts = [] \<or> comp_less cmp sentry (hd ts) then localtime_at data 0
      else
        let transI = std_lower_bound (\<lambda>i. comp_less cmp (ts ! i) sentry) 0 (length ts) in
        if transI \<noteq> length ts then
          if \<not> comp_equal cmp sentry (ts ! transI) then
            assert_c (transI \<noteq> 0) (localtime_at data (localtimeIdx (ts ! (transI - 1))))
          else localtime_at data (localtimeIdx (ts ! transI))
        else localtime_at data (localtimeIdx (last ts)))"

section \<open>TimeZone\<close>

text \<open>The shared pointer \<open>data_\<close>: \<open>None\<close> for an invalid time zone.\<close>

type_synonym time_zone = "tz_data option"

definition time_zone_of_file :: "char list option \<Rightarrow> time_zone res" where
  "time_zone_of_file file =
     rbind (readTimeZoneFile file new_data) (\<lambda>(ok, data). Inr (if \<not> ok then None else Some data))"

definition fixed_time_zone :: "int \<Rightarrow> char list \<Rightarrow> time_zone" where
  "fixed_time_zone eastOfUtc name =
     Some (new_data\<lparr>tz_localtimes := [\<lparr>gmtOffset = eastOfUtc, isDst = False, arrbIdx = 0\<rparr>], tz_abbreviation := name\<rparr>)"

definition tz_valid :: "time_zone \<Rightarrow> bool" where
  "tz_valid z \<longleftrightarrow> z \<noteq> None"

text \<open>
  The library functions gmtime\_r, and timegm, which takes months outside 1..12 as months of the next or
  previous years and adds up the other fields.
\<close>

definition gmtime_r :: "int \<Rightarrow> tm" where
  "gmtime_r t =
     (let j = t div kSecondsPerDay + kJulianDayOf1970_01_01; ymd = getYearMonthDay j
      in fillHMS (t mod kSecondsPerDay) (zero_tm\<lparr>tm_zone := ''GMT'', tm_year := ymd_year ymd - 1900, tm_mon := ymd_month ymd - 1,
           tm_mday := ymd_day ymd, tm_wday := (j + 1) mod 7, tm_yday := j - getJulianDayNumber (ymd_year ymd) 1 1\<rparr>))"

definition timegm :: "tm \<Rightarrow> int" where
  "timegm t = (getJulianDayNumber (tm_year t + 1900 + tm_mon t div 12) (tm_mon t mod 12 + 1) 1 + tm_mday t - 1 - kJulianDayOf1970_01_01)
     * kSecondsPerDay + tm_hour t * 3600 + tm_min t * 60 + tm_sec t"

definition c_string_from :: "char list \<Rightarrow> int \<Rightarrow> char list res" where
  "c_string_from s i =
     (if 0 \<le> i \<and> nat i \<le> length s then Inr (takeWhile (\<lambda>c. c \<noteq> CHR 0x00) (drop (nat i) s)) else Inl Out_of_range)"

definition toLocalTime :: "time_zone \<Rightarrow> int \<Rightarrow> tm res" where
  "toLocalTime z seconds =
     (case z of
       None \<Rightarrow> Inl Assert_failed
     | Some data \<Rightarrow>
         rbind (findLocaltime data \<lparr>gmttime = seconds, localtime = 0, localtimeIdx = 0\<rparr> True) (\<lambda>local.
         let localTime = gmtime_r (seconds + gmtOffset local) in
         rbind (c_string_from (tz_abbreviation data) (arrbIdx local)) (\<lambda>zone.
         Inr (localTime\<lparr>tm_isdst := isDst local, tm_gmtoff := gmtOffset local, tm_zone := zone\<rparr>))))"

definition fromLocalTime :: "time_zone \<Rightarrow> tm \<Rightarrow> int res" where
  "fromLocalTime z localTm =
     (case z of
       None \<Rightarrow> Inl Assert_failed
     | Some data \<Rightarrow>
         let seconds = timegm localTm in
         rbind (findLocaltime data \<lparr>gmttime = 0, localtime = seconds, localtimeIdx = 0\<rparr> False) (\<lambda>local.
         if tm_isdst localTm then
           rbind (toLocalTime z (seconds - gmtOffset local)) (\<lambda>tryTm.
             let seconds = (if \<not> tm_isdst tryTm \<and> tm_hour tryTm = tm_hour localTm \<and> tm_min tryTm = tm_min localTm
                            then seconds - 3600 else seconds)
             in Inr (seconds - gmtOffset local))
         else Inr (seconds - gmtOffset local)))"

section \<open>A zone file is read back\<close>

text \<open>
  The format of a zone file (tzfile(5), version 1): the header, the instants of the transitions, the
  index of the local time of each, the local times, the abbreviations. What follows is not read.
\<close>

definition render_zone ::
    "char list \<Rightarrow> 32 word \<Rightarrow> 32 word \<Rightarrow> 32 word \<Rightarrow> (32 word \<times> 8 word) list \<Rightarrow> (32 word \<times> 8 word \<times> 8 word) list \<Rightarrow> char list \<Rightarrow> char list" where
  "render_zone reserved isgmtcnt isstdcnt leapcnt trs types chars =
     ''TZif'' @ reserved @ be32_enc isgmtcnt @ be32_enc isstdcnt @ be32_enc leapcnt @ be32_enc (of_nat (length trs))
     @ be32_enc (of_nat (length types)) @ be32_enc (of_nat (length chars))
     @ concat (map (be32_enc \<circ> fst) trs) @ concat (map (be8_enc \<circ> snd) trs)
     @ concat (map (\<lambda>(off, dst, abbr). be32_enc off @ be8_enc dst @ be8_enc abbr) types) @ chars"

definition zone_localtimes :: "(32 word \<times> 8 word \<times> 8 word) list \<Rightarrow> local_time list" where
  "zone_localtimes types = map (\<lambda>(off, dst, abbr). \<lparr>gmtOffset = sint off, isDst = (dst \<noteq> 0), arrbIdx = uint abbr\<rparr>) types"

definition zone_transitions :: "(32 word \<times> 8 word) list \<Rightarrow> local_time list \<Rightarrow> transition list" where
  "zone_transitions trs ls =
     map (\<lambda>(t, l). \<lparr>gmttime = sint t, localtime = sint t + gmtOffset (ls ! unat l), localtimeIdx = uint l\<rparr>) trs"

named_theorems reader_simps

lemma rd_bind_app [reader_simps]:
  "rd_bind m k f =
    (case m f of (Done x, f') \<Rightarrow> k x f' | (Logic_error e, f') \<Rightarrow> (Logic_error e, f') | (Undefined e, f') \<Rightarrow> (Undefined e, f'))"
  by (simp add: rd_bind_def)

lemma rd_fread_app [reader_simps]:
  "length xs = n \<Longrightarrow> rd_fread n \<lparr>tzf_rest = xs @ ys, tzf_data = d\<rparr> = (Done xs, \<lparr>tzf_rest = ys, tzf_data = d\<rparr>)"
  by (auto simp: rd_fread_def)

lemma rd_return_app [reader_simps]: "rd_return x f = (Done x, f)"
  by (simp add: rd_return_def)

lemma rd_store_app [reader_simps]: "rd_store g f = (Done (), f\<lparr>tzf_data := g (tzf_data f)\<rparr>)"
  by (simp add: rd_store_def)

lemma rd_data_app [reader_simps]: "rd_data f = (Done (tzf_data f), f)"
  by (simp add: rd_data_def)

lemma readBytes_app [reader_simps]:
  "length xs = n \<Longrightarrow> readBytes (int n) \<lparr>tzf_rest = xs @ ys, tzf_data = d\<rparr> = (Done xs, \<lparr>tzf_rest = ys, tzf_data = d\<rparr>)"
  by (simp add: readBytes_def reader_simps)

lemma readInt32_app [reader_simps]:
  "readInt32 \<lparr>tzf_rest = be32_enc x @ ys, tzf_data = d\<rparr> = (Done x, \<lparr>tzf_rest = ys, tzf_data = d\<rparr>)"
  by (simp add: readInt32_def reader_simps be32.length_enc be32.dec_enc)

lemma readUInt8_app [reader_simps]:
  "readUInt8 \<lparr>tzf_rest = be8_enc x @ ys, tzf_data = d\<rparr> = (Done x, \<lparr>tzf_rest = ys, tzf_data = d\<rparr>)"
  by (simp add: readUInt8_def reader_simps be8.length_enc [simplified] be8.dec_enc)

lemma read_times_app:
  assumes "\<And>x ys. r \<lparr>tzf_rest = enc x @ ys, tzf_data = d\<rparr> = (Done x, \<lparr>tzf_rest = ys, tzf_data = d\<rparr>)"
  shows "read_times r (length xs) \<lparr>tzf_rest = concat (map enc xs) @ ys, tzf_data = d\<rparr> = (Done xs, \<lparr>tzf_rest = ys, tzf_data = d\<rparr>)"
  by (induction xs) (simp_all add: reader_simps assms)

lemma read_localtimes_app:
  "read_localtimes (length types) \<lparr>tzf_rest = concat (map (\<lambda>(off, dst, abbr). be32_enc off @ be8_enc dst @ be8_enc abbr) types) @ ys, tzf_data = d\<rparr>
   = (Done (), \<lparr>tzf_rest = ys, tzf_data = d\<lparr>tz_localtimes := tz_localtimes d @ zone_localtimes types\<rparr>\<rparr>)"
proof (induction types arbitrary: d)
  case (Cons t types)
  obtain off dst abbr where t: "t = (off, dst, abbr)" by (cases t)
  show ?case
    by (simp add: t reader_simps Cons zone_localtimes_def)
qed (simp add: reader_simps zone_localtimes_def)

lemma store_transitions_app:
  assumes "\<forall>(t, l) \<in> set trs. unat l < length (tz_localtimes d)"
  shows "store_transitions (map fst trs) (map snd trs) \<lparr>tzf_rest = ys, tzf_data = d\<rparr>
   = (Done (), \<lparr>tzf_rest = ys, tzf_data = d\<lparr>tz_transitions := tz_transitions d @ zone_transitions trs (tz_localtimes d)\<rparr>\<rparr>)"
  using assms
proof (induction trs arbitrary: d)
  case (Cons x trs)
  obtain t l where x: "x = (t, l)" by (cases x)
  show ?case
    using Cons.prems
    by (simp add: x reader_simps Cons.IH zone_transitions_def)
qed (simp add: reader_simps zone_transitions_def)

definition zone_data :: "(32 word \<times> 8 word) list \<Rightarrow> (32 word \<times> 8 word \<times> 8 word) list \<Rightarrow> char list \<Rightarrow> tz_data" where
  "zone_data trs types chars =
     \<lparr>tz_transitions = zone_transitions trs (zone_localtimes types), tz_localtimes = zone_localtimes types, tz_names = [],
      tz_abbreviation = chars\<rparr>"

lemma sint_count [simp]: "n < 2 ^ 31 \<Longrightarrow> sint (of_nat n :: 32 word) = int n"
  by (subst of_int_of_nat_eq [symmetric], subst sint_sbintrunc') (simp add: signed_take_bit_int_eq_self)

lemma length_zone_localtimes [simp]: "length (zone_localtimes types) = length types"
  by (simp add: zone_localtimes_def)

lemma readBytes_magic:
  "readBytes 4 \<lparr>tzf_rest = CHR ''T'' # CHR ''Z'' # CHR ''i'' # CHR ''f'' # ys, tzf_data = d\<rparr> = (Done ''TZif'', \<lparr>tzf_rest = ys, tzf_data = d\<rparr>)"
  using readBytes_app [of "''TZif''" 4 ys d] by simp

lemma read_rendered_zone:
  assumes "length reserved = 16" "length trs < 2 ^ 31" "length types < 2 ^ 31" "length chars < 2 ^ 31"
    and idx: "\<forall>(t, l) \<in> set trs. unat l < length types"
  shows "readTimeZoneFile (Some (render_zone reserved a b c trs types chars @ rest)) new_data = Inr (True, zone_data trs types chars)"
proof -
  obtain v r where rsv: "reserved = v @ r" "length v = 1" "length r = 15"
    using that [of "take 1 reserved" "drop 1 reserved"] assms(1) by simp
  let ?d1 = "new_data\<lparr>tz_localtimes := zone_localtimes types\<rparr>"
  let ?d2 = "?d1\<lparr>tz_transitions := zone_transitions trs (zone_localtimes types)\<rparr>"
  have 1: "readBytes 1 \<lparr>tzf_rest = v @ ys, tzf_data = d\<rparr> = (Done v, \<lparr>tzf_rest = ys, tzf_data = d\<rparr>)"
    and 15: "readBytes 15 \<lparr>tzf_rest = r @ ys, tzf_data = d\<rparr> = (Done r, \<lparr>tzf_rest = ys, tzf_data = d\<rparr>)" for ys d
    using readBytes_app [OF rsv(2)] readBytes_app [OF rsv(3)] by simp_all
  have ts: "read_times readInt32 (length trs) \<lparr>tzf_rest = concat (map (be32_enc \<circ> fst) trs) @ ys, tzf_data = d\<rparr> = (Done (map fst trs), \<lparr>tzf_rest = ys, tzf_data = d\<rparr>)"
    and ls: "read_times readUInt8 (length trs) \<lparr>tzf_rest = concat (map (be8_enc \<circ> snd) trs) @ ys, tzf_data = d\<rparr> = (Done (map snd trs), \<lparr>tzf_rest = ys, tzf_data = d\<rparr>)" for ys d
    using read_times_app [of readInt32 be32_enc d "map fst trs" ys, OF readInt32_app]
      read_times_app [of readUInt8 be8_enc d "map snd trs" ys, OF readUInt8_app] by simp_all
  have types: "read_localtimes (length types) \<lparr>tzf_rest = concat (map (\<lambda>(off, dst, abbr). be32_enc off @ be8_enc dst @ be8_enc abbr) types) @ ys,
      tzf_data = new_data\<rparr> = (Done (), \<lparr>tzf_rest = ys, tzf_data = ?d1\<rparr>)" for ys
    using read_localtimes_app [of types ys new_data] by (simp add: new_data_def)
  have st: "store_transitions (map fst trs) (map snd trs) \<lparr>tzf_rest = ys, tzf_data = ?d1\<rparr> = (Done (), \<lparr>tzf_rest = ys, tzf_data = ?d2\<rparr>)" for ys
    using store_transitions_app [of trs ?d1 ys] idx by (simp add: new_data_def)
  have "read_zone \<lparr>tzf_rest = render_zone reserved a b c trs types chars @ rest, tzf_data = new_data\<rparr>
      = (Done (), \<lparr>tzf_rest = rest, tzf_data = ?d2\<lparr>tz_abbreviation := chars\<rparr>\<rparr>)"
    unfolding read_zone_def render_zone_def rsv append_assoc
    using assms(2-4) by (simp add: reader_simps readBytes_magic 1 15 ts ls types st)
  then show ?thesis by (simp add: readTimeZoneFile_def zone_data_def new_data_def)
qed

text \<open>The search finds the last transition that is not after the instant, when there is one.\<close>

definition last_transition :: "transition list \<Rightarrow> int \<Rightarrow> nat" where
  "last_transition ts t = length (takeWhile (\<lambda>x. gmttime x \<le> t) ts)"

lemma takeWhile_nth_iff:
  assumes "\<And>i j. i < j \<Longrightarrow> j < length xs \<Longrightarrow> P (xs ! j) \<Longrightarrow> P (xs ! i)" "i < length xs"
  shows "P (xs ! i) \<longleftrightarrow> i < length (takeWhile P xs)"
proof
  show "P (xs ! i)" if "i < length (takeWhile P xs)"
    using that by (metis nth_mem set_takeWhileD takeWhile_nth)
  show "i < length (takeWhile P xs)" if "P (xs ! i)"
  proof (rule ccontr)
    assume i: "\<not> i < length (takeWhile P xs)"
    then have "length (takeWhile P xs) < length xs" using assms(2) by simp
    then have "\<not> P (xs ! length (takeWhile P xs))" by (rule nth_length_takeWhile)
    moreover from this that have "length (takeWhile P xs) \<noteq> i" by auto
    with i have "length (takeWhile P xs) < i" by simp
    then have "P (xs ! length (takeWhile P xs))" using assms(2) that by (rule assms(1))
    ultimately show False by contradiction
  qed
qed

lemma sorted_takeWhile_nth:
  fixes f :: "'a \<Rightarrow> int"
  assumes "sorted_wrt (<) (map f xs)" "i < length xs"
  shows "f (xs ! i) \<le> t \<longleftrightarrow> i < length (takeWhile (\<lambda>x. f x \<le> t) xs)"
    and "f (xs ! i) < t \<longleftrightarrow> i < length (takeWhile (\<lambda>x. f x < t) xs)"
proof -
  have "f (xs ! i) < f (xs ! j)" if "i < j" "j < length xs" for i j
    using assms(1) that by (simp add: sorted_wrt_iff_nth_less)
  then show "f (xs ! i) \<le> t \<longleftrightarrow> i < length (takeWhile (\<lambda>x. f x \<le> t) xs)"
    "f (xs ! i) < t \<longleftrightarrow> i < length (takeWhile (\<lambda>x. f x < t) xs)"
    using assms(2) by (intro takeWhile_nth_iff; force)+
qed

lemma findLocaltime_gmt:
  assumes "sorted_wrt (<) (map gmttime (tz_transitions data))" and s: "gmttime sentry = t"
  shows "findLocaltime data sentry True =
    (let n = last_transition (tz_transitions data) t
     in localtime_at data (if n = 0 then 0 else localtimeIdx (tz_transitions data ! (n - 1))))"
proof -
  let ?ts = "tz_transitions data"
  define m n where "m = length (takeWhile (\<lambda>x. gmttime x < t) ?ts)" and "n = last_transition ?ts t"
  have lt: "gmttime (?ts ! i) < t \<longleftrightarrow> i < m" and le: "gmttime (?ts ! i) \<le> t \<longleftrightarrow> i < n" if "i < length ?ts" for i
    using sorted_takeWhile_nth [OF assms(1) that] by (simp_all add: m_def n_def last_transition_def)
  have mn: "m \<le> length ?ts" "n \<le> length ?ts" by (simp_all add: m_def n_def last_transition_def length_takeWhile_le)
  have lb: "std_lower_bound (\<lambda>i. comp_less True (?ts ! i) sentry) 0 (length ?ts) = m"
    by (rule std_lower_bound_point) (use lt mn in \<open>auto simp: comp_less_def s\<close>)
  have first: "?ts = [] \<or> comp_less True sentry (hd ?ts) \<longleftrightarrow> n = 0"
    using le [of 0] mn by (cases ?ts) (auto simp: comp_less_def s not_less)
  show ?thesis
  proof (cases "n = 0")
    case True
    then show ?thesis using first by (simp add: findLocaltime_def Let_def n_def)
  next
    case False
    show ?thesis
    proof (cases "m = length ?ts")
      case True
      then have "n = length ?ts" using lt [of "n - 1"] le [of "length ?ts - 1"] lt [of "length ?ts - 1"] False mn
        by (cases "length ?ts") auto
      with True False first lb show ?thesis by (simp add: findLocaltime_def Let_def n_def [symmetric] last_conv_nth)
    next
      case m: False
      then have ml: "m < length ?ts" using mn by simp
      have "m \<le> n" using lt [of "m - 1"] le [of "m - 1"] ml by (cases m) auto
      moreover have "n \<le> Suc m"
      proof (rule ccontr)
        assume "\<not> n \<le> Suc m"
        then have "gmttime (?ts ! Suc m) \<le> t" "Suc m < length ?ts" using le [of "Suc m"] mn by auto
        moreover from this have "gmttime (?ts ! m) < gmttime (?ts ! Suc m)" using assms(1) by (simp add: sorted_wrt_iff_nth_less)
        ultimately show False using lt [OF ml] by simp
      qed
      moreover have "m < n \<longleftrightarrow> gmttime (?ts ! m) = t" using lt [OF ml] le [OF ml] by auto
      ultimately have "n = (if gmttime (?ts ! m) = t then Suc m else m)" by auto
      with m False first lb show ?thesis
        by (auto simp: findLocaltime_def Let_def n_def [symmetric] comp_equal_def s assert_c_def)
    qed
  qed
qed

text \<open>C35: the content of a zone file with increasing transitions, whatever follows it, gives a time zone in
  which the local time of an instant is the one of the last transition not after it, the first local time
  before the first transition: the calendar date at that offset, with its flag and abbreviation.\<close>

theorem local_time_of_zone_file:
  assumes "length reserved = 16" "length trs < 2 ^ 31" "types \<noteq> []" "length types < 2 ^ 31" "length chars < 2 ^ 31"
    and "\<forall>(t, l) \<in> set trs. unat l < length types" "\<forall>(off, dst, abbr) \<in> set types. unat abbr \<le> length chars"
    and "sorted_wrt (<) (map (sint \<circ> fst) trs)"
  shows "\<exists>z. time_zone_of_file (Some (render_zone reserved a b c trs types chars @ rest)) = Inr z \<and>
    (let n = length (takeWhile (\<lambda>x. sint (fst x) \<le> t) trs);
         (off, dst, abbr) = types ! (if n = 0 then 0 else unat (snd (trs ! (n - 1))))
     in toLocalTime z t = Inr ((gmtime_r (t + sint off))\<lparr>tm_isdst := (dst \<noteq> 0), tm_gmtoff := sint off,
          tm_zone := takeWhile (\<lambda>c. c \<noteq> CHR 0x00) (drop (unat abbr) chars)\<rparr>))"
proof -
  let ?data = "zone_data trs types chars"
  define n where "n = length (takeWhile (\<lambda>x. sint (fst x) \<le> t) trs)"
  define i where "i = (if n = 0 then 0 else unat (snd (trs ! (n - 1))))"
  obtain off dst abbr where ty: "types ! i = (off, dst, abbr)" by (cases "types ! i")
  have n: "n \<le> length trs" by (simp add: n_def length_takeWhile_le)
  have nth: "n \<noteq> 0 \<Longrightarrow> trs ! (n - 1) \<in> set trs" using n by simp
  have i: "i < length types" using assms(3,6) nth by (cases "n = 0") (auto simp: i_def case_prod_beta)
  have abbr: "unat abbr \<le> length chars" using assms(7) i ty by (metis (mono_tags, lifting) case_prodD nth_mem)
  have tr: "tz_transitions ?data = zone_transitions trs (zone_localtimes types)" by (simp add: zone_data_def)
  have sorted: "sorted_wrt (<) (map gmttime (tz_transitions ?data))"
    using assms(8) by (simp add: tr zone_transitions_def case_prod_beta comp_def)
  have lt: "last_transition (tz_transitions ?data) t = n"
    by (simp add: last_transition_def tr zone_transitions_def takeWhile_map case_prod_beta comp_def n_def)
  have idx: "n \<noteq> 0 \<Longrightarrow> localtimeIdx (tz_transitions ?data ! (n - 1)) = int i"
    using n by (simp add: tr zone_transitions_def case_prod_beta i_def)
  have at: "localtime_at ?data (int i) = Inr \<lparr>gmtOffset = sint off, isDst = (dst \<noteq> 0), arrbIdx = uint abbr\<rparr>"
    using i ty by (simp add: localtime_at_def zone_data_def zone_localtimes_def)
  have find: "findLocaltime ?data \<lparr>gmttime = t, localtime = 0, localtimeIdx = 0\<rparr> True
      = Inr \<lparr>gmtOffset = sint off, isDst = (dst \<noteq> 0), arrbIdx = uint abbr\<rparr>"
    using findLocaltime_gmt [OF sorted, of "\<lparr>gmttime = t, localtime = 0, localtimeIdx = 0\<rparr>" t] at idx i_def
    by (cases "n = 0") (simp_all add: lt)
  have zone: "c_string_from (tz_abbreviation ?data) (uint abbr) = Inr (takeWhile (\<lambda>c. c \<noteq> CHR 0x00) (drop (unat abbr) chars))"
    using abbr by (simp add: c_string_from_def zone_data_def)
  have "time_zone_of_file (Some (render_zone reserved a b c trs types chars @ rest)) = Inr (Some ?data)"
    unfolding time_zone_of_file_def read_rendered_zone [OF assms(1,2,4,5,6)] by simp
  moreover have "toLocalTime (Some ?data) t = Inr ((gmtime_r (t + sint off))\<lparr>tm_isdst := (dst \<noteq> 0), tm_gmtoff := sint off,
      tm_zone := takeWhile (\<lambda>c. c \<noteq> CHR 0x00) (drop (unat abbr) chars)\<rparr>)"
    unfolding toLocalTime_def by (simp add: find zone Let_def)
  ultimately show ?thesis by (simp add: n_def [symmetric] i_def [symmetric] ty Let_def)
qed

theorem local_time_of_zone_file_witness:
  "\<exists>z. time_zone_of_file (Some (render_zone (replicate 16 (CHR 0x00)) 0 0 0 [(0, 0), (100, 1)] [(3600, 0, 0), (7200, 1, 4)]
       (''CET'' @ [CHR 0x00] @ ''CEST'' @ [CHR 0x00]) @ [])) = Inr z \<and>
     toLocalTime z 150 = Inr ((gmtime_r (150 + 7200))\<lparr>tm_isdst := True, tm_gmtoff := 7200, tm_zone := ''CEST''\<rparr>)"
  using local_time_of_zone_file [of "replicate 16 (CHR 0x00)" "[(0, 0), (100, 1)]" "[(3600, 0, 0), (7200, 1, 4)]"
      "''CET'' @ [CHR 0x00] @ ''CEST'' @ [CHR 0x00]" 0 0 0 "[]" 150]
  by simp

text \<open>A file that cannot be opened gives a valid time zone without local times: reading the first is undefined.\<close>

lemma missing_file_is_valid:
  "time_zone_of_file None = Inr (Some new_data)" "tz_valid (Some new_data)" "toLocalTime (Some new_data) t = Inl Out_of_range"
  by (simp_all add: time_zone_of_file_def readTimeZoneFile_def tz_valid_def toLocalTime_def findLocaltime_def localtime_at_def new_data_def)

text \<open>In a fixed time zone the conversions are inverse to each other.\<close>

lemma timegm_gmtime_r:
  assumes "- 32044 - 2440588 \<le> t div 86400"
  shows "timegm (gmtime_r t) = t"
proof -
  define j n where "j = t div 86400 + 2440588" and "n = t mod 86400"
  have j: "- 32044 \<le> j" using assms by (simp add: j_def)
  note v = ymd_valid [OF j]
  have m: "(ymd_month (getYearMonthDay j) - 1) mod 12 = ymd_month (getYearMonthDay j) - 1" "(ymd_month (getYearMonthDay j) - 1) div 12 = 0"
    using v by (auto simp: valid_ymd_def)
  have day: "getJulianDayNumber y m 1 + d - 1 = getJulianDayNumber y m d" for y m d
    by (simp add: getJulianDayNumber_def Let_def)
  have h: "n div 60 div 60 * 3600 + n div 60 mod 60 * 60 + n mod 60 = n"
    using div_mult_mod_eq [of n 60] div_mult_mod_eq [of "n div 60" 60] by linarith
  have "timegm (gmtime_r t) = (getJulianDayNumber (ymd_year (getYearMonthDay j)) (ymd_month (getYearMonthDay j)) (ymd_day (getYearMonthDay j)) - 2440588) * 86400
      + (n div 60 div 60 * 3600 + n div 60 mod 60 * 60 + n mod 60)"
    using m by (simp add: timegm_def gmtime_r_def Let_def kSecondsPerDay_def fillHMS_fields j_def [symmetric] n_def [symmetric] day)
  also have "\<dots> = t" unfolding julian_of_ymd [OF j] h by (simp add: j_def n_def)
  finally show ?thesis .
qed

lemma fixed_zone_roundtrip:
  assumes "- 32044 - 2440588 \<le> (t + off) div 86400"
  shows "rbind (toLocalTime (fixed_time_zone off name) t) (fromLocalTime (fixed_time_zone off name)) = Inr t"
proof -
  have "timegm ((gmtime_r (t + off))\<lparr>tm_isdst := b, tm_gmtoff := g, tm_zone := z\<rparr>) = t + off" for b g z
    using timegm_gmtime_r [OF assms] by (simp add: timegm_def)
  then show ?thesis
    by (simp add: toLocalTime_def fromLocalTime_def fixed_time_zone_def findLocaltime_def localtime_at_def new_data_def c_string_from_def Let_def)
qed

end
