(* ===== verification/Logging.thy ===== *)
theory Logging
  imports LogStream TimeZone
begin

text \<open>
  base/Logging.h and base/Logging.cc: the line of one log message, from the constructor of \<open>Logger\<close> to
  its destructor. The global settings and the variables of the thread are one record; the text that
  strerror\_r gives for an error number is an argument.
\<close>

datatype log_level = TRACE | DEBUG | INFO | WARN | ERROR | FATAL

fun level_num :: "log_level \<Rightarrow> nat" where
  "level_num TRACE = 0" | "level_num DEBUG = 1" | "level_num INFO = 2" | "level_num WARN = 3" | "level_num ERROR = 4" | "level_num FATAL = 5"

instantiation log_level :: linorder
begin

definition less_log_level :: "log_level \<Rightarrow> log_level \<Rightarrow> bool" where
  "less_log_level x y \<longleftrightarrow> level_num x < level_num y"

definition less_eq_log_level :: "log_level \<Rightarrow> log_level \<Rightarrow> bool" where
  "less_eq_log_level x y \<longleftrightarrow> level_num x \<le> level_num y"

lemma level_num_inject: "level_num x = level_num y \<Longrightarrow> x = y"
  by (cases x; cases y) simp_all

instance
  by standard (auto simp: less_log_level_def less_eq_log_level_def dest: level_num_inject)

end

definition LogLevelName :: "char list list" where
  "LogLevelName = [''TRACE '', ''DEBUG '', ''INFO  '', ''WARN  '', ''ERROR '', ''FATAL '']"

text \<open>The environment variables that are set.\<close>

definition initLogLevel :: "char list set \<Rightarrow> log_level" where
  "initLogLevel env =
     (if ''MUDUO_LOG_TRACE'' \<in> env then TRACE else if ''MUDUO_LOG_DEBUG'' \<in> env then DEBUG else INFO)"

section \<open>SourceFile\<close>

record source_file =
  sf_data :: "char list"
  sf_size :: int

text \<open>The text after the last slash; a literal of \<open>N\<close> bytes has \<open>N - 1\<close> characters.\<close>

fun strrchr :: "char list \<Rightarrow> char \<Rightarrow> nat option" where
  "strrchr [] c = None"
| "strrchr (x # xs) c = (case strrchr xs c of Some i \<Rightarrow> Some (Suc i) | None \<Rightarrow> if x = c then Some 0 else None)"

definition source_file_of_literal :: "char list \<Rightarrow> source_file" where
  "source_file_of_literal arr =
     (case strrchr arr (CHR ''/'') of
       Some slash \<Rightarrow> \<lparr>sf_data = drop (slash + 1) arr, sf_size = int (length arr) - int (slash + 1)\<rparr>
     | None \<Rightarrow> \<lparr>sf_data = arr, sf_size = int (length arr)\<rparr>)"

definition source_file_of_name :: "char list \<Rightarrow> source_file" where
  "source_file_of_name filename =
     (let data = (case strrchr filename (CHR ''/'') of Some slash \<Rightarrow> drop (slash + 1) filename | None \<Rightarrow> filename)
      in \<lparr>sf_data = data, sf_size = int (length data)\<rparr>)"

section \<open>The globals and the variables of the thread\<close>

record log_state =
  g_logLevel :: log_level
  g_logTimeZone :: time_zone
  t_time :: "char list"
  t_lastSecond :: int
  t_cachedTid :: int
  t_tidString :: "char list"
  log_output :: "char list list"
  log_flushed :: bool
  log_aborted :: bool

definition new_log_state :: "char list set \<Rightarrow> log_state" where
  "new_log_state env =
     \<lparr>g_logLevel = initLogLevel env, g_logTimeZone = None, t_time = [], t_lastSecond = 0, t_cachedTid = 0, t_tidString = [],
      log_output = [], log_flushed = False, log_aborted = False\<rparr>"

definition setLogLevel :: "log_level \<Rightarrow> log_state \<Rightarrow> log_state" where
  "setLogLevel level s = s\<lparr>g_logLevel := level\<rparr>"

definition setTimeZone :: "time_zone \<Rightarrow> log_state \<Rightarrow> log_state" where
  "setTimeZone tz s = s\<lparr>g_logTimeZone := tz\<rparr>"

definition defaultOutput :: "char list \<Rightarrow> log_state \<Rightarrow> log_state" where
  "defaultOutput msg s = s\<lparr>log_output := log_output s @ [msg]\<rparr>"

definition defaultFlush :: "log_state \<Rightarrow> log_state" where
  "defaultFlush s = s\<lparr>log_flushed := True\<rparr>"

text \<open>CurrentThread::tid() caches the number of the thread and its text.\<close>

definition cacheTid :: "int \<Rightarrow> log_state \<Rightarrow> log_state" where
  "cacheTid gettid s =
     (if t_cachedTid s = 0 then s\<lparr>t_cachedTid := gettid, t_tidString := snprintf 32 (fmt_width 5 gettid @ '' '')\<rparr> else s)"

text \<open>A \<open>T\<close>: a C string and the length the source claims for it.\<close>

definition put_T :: "char list \<Rightarrow> nat \<Rightarrow> fixed_buffer \<Rightarrow> fixed_buffer res" where
  "put_T str len b = assert_c (length str = len) (fb_append b (take len str))"

definition put_source_file :: "source_file \<Rightarrow> fixed_buffer \<Rightarrow> fixed_buffer res" where
  "put_source_file v b = fb_append b (take (nat (sf_size v)) (sf_data v))"

section \<open>Logger\<close>

definition time_text :: "tm \<Rightarrow> char list" where
  "time_text t =
     fmt_width 4 (tm_year t + 1900) @ fmt_zero 2 (tm_mon t + 1) @ fmt_zero 2 (tm_mday t) @ '' '' @
     fmt_zero 2 (tm_hour t) @ '':'' @ fmt_zero 2 (tm_min t) @ '':'' @ fmt_zero 2 (tm_sec t)"

definition cacheTime :: "int \<Rightarrow> log_state \<Rightarrow> log_state res" where
  "cacheTime seconds s =
     (if seconds \<noteq> t_lastSecond s then
        rbind (if tz_valid (g_logTimeZone s) then toLocalTime (g_logTimeZone s) seconds else Inr (gmtime_r seconds)) (\<lambda>tm_time.
        assert_c (length (time_text tm_time) = 17)
          (Inr (s\<lparr>t_lastSecond := seconds, t_time := snprintf 32 (time_text tm_time)\<rparr>)))
      else Inr s)"

definition formatTime :: "int \<Rightarrow> fixed_buffer \<Rightarrow> log_state \<Rightarrow> (fixed_buffer \<times> log_state) res" where
  "formatTime microSecondsSinceEpoch b s =
     (let seconds = microSecondsSinceEpoch sdiv 1000000; microseconds = cast_int (microSecondsSinceEpoch smod 1000000) in
      rbind (cacheTime seconds s) (\<lambda>s.
      if tz_valid (g_logTimeZone s) then
        rbind (fmt_buf (''.'' @ fmt_zero 6 microseconds @ '' '')) (\<lambda>us.
        assert_c (length us = 8) (
        rbind (put_T (t_time s) 17 b) (\<lambda>b.
        rbind (put_T us 8 b) (\<lambda>b. Inr (b, s)))))
      else
        rbind (fmt_buf (''.'' @ fmt_zero 6 microseconds @ ''Z '')) (\<lambda>us.
        assert_c (length us = 9) (
        rbind (put_T (t_time s) 17 b) (\<lambda>b.
        rbind (put_T us 9 b) (\<lambda>b. Inr (b, s)))))))"

record logger =
  lg_stream :: fixed_buffer
  lg_level :: log_level
  lg_line :: int
  lg_basename :: source_file

text \<open>
  \<open>now\<close> is the time of the message, \<open>garbage\<close> the uninitialised array of the stream, \<open>gettid\<close> the number
  of the thread and \<open>strerror\<close> the text of the error.
\<close>

definition new_impl ::
    "char list \<Rightarrow> int \<Rightarrow> int \<Rightarrow> (int \<Rightarrow> char list) \<Rightarrow> log_level \<Rightarrow> int \<Rightarrow> source_file \<Rightarrow> int \<Rightarrow> log_state \<Rightarrow> (logger \<times> log_state) res" where
  "new_impl garbage now gettid strerror level savedErrno file line s =
     rbind (formatTime now (new_fixed_buffer garbage) s) (\<lambda>(b, s).
     let s = cacheTid gettid s in
     rbind (put_T (t_tidString s) (length (t_tidString s)) b) (\<lambda>b.
     rbind (put_T (LogLevelName ! level_num level) 6 b) (\<lambda>b.
     rbind (if savedErrno \<noteq> 0 then
              put_all b [Arg_c_string (Some (strerror savedErrno)), Arg_c_string (Some '' (errno=''), Arg_integer (Arg_int (word_of_int savedErrno)), Arg_c_string (Some '') '')]
            else Inr b) (\<lambda>b.
     Inr (\<lparr>lg_stream = b, lg_level = level, lg_line = line, lg_basename = file\<rparr>, s)))))"

definition new_logger_func ::
    "char list \<Rightarrow> int \<Rightarrow> int \<Rightarrow> (int \<Rightarrow> char list) \<Rightarrow> source_file \<Rightarrow> int \<Rightarrow> log_level \<Rightarrow> char list \<Rightarrow> log_state \<Rightarrow> (logger \<times> log_state) res" where
  "new_logger_func garbage now gettid strerror file line level func s =
     rbind (new_impl garbage now gettid strerror level 0 file line s) (\<lambda>(l, s).
     rbind (put_all (lg_stream l) [Arg_c_string (Some func), Arg_char (CHR '' '')]) (\<lambda>b. Inr (l\<lparr>lg_stream := b\<rparr>, s)))"

definition new_logger_errno ::
    "char list \<Rightarrow> int \<Rightarrow> int \<Rightarrow> (int \<Rightarrow> char list) \<Rightarrow> source_file \<Rightarrow> int \<Rightarrow> bool \<Rightarrow> int \<Rightarrow> log_state \<Rightarrow> (logger \<times> log_state) res" where
  "new_logger_errno garbage now gettid strerror file line toAbort errno s =
     new_impl garbage now gettid strerror (if toAbort then FATAL else ERROR) errno file line s"

definition logger_put :: "log_item list \<Rightarrow> logger \<Rightarrow> logger res" where
  "logger_put xs l = rbind (put_all (lg_stream l) xs) (\<lambda>b. Inr (l\<lparr>lg_stream := b\<rparr>))"

definition logger_finish :: "logger \<Rightarrow> fixed_buffer res" where
  "logger_finish l =
     rbind (put (lg_stream l) (Arg_c_string (Some '' - ''))) (\<lambda>b.
     rbind (put_source_file (lg_basename l) b) (\<lambda>b.
     put_all b [Arg_char (CHR '':''), Arg_integer (Arg_int (word_of_int (lg_line l))), Arg_char (CHR 0x0A)]))"

definition logger_dtor :: "logger \<Rightarrow> log_state \<Rightarrow> log_state res" where
  "logger_dtor l s =
     rbind (logger_finish l) (\<lambda>b.
     let s = defaultOutput (take (fb_length b) (fb_data b)) s
     in Inr (if lg_level l = FATAL then (defaultFlush s)\<lparr>log_aborted := True\<rparr> else s))"

section \<open>The line of a message\<close>

text \<open>A stream of 4000 bytes that holds the text \<open>t\<close>.\<close>

definition holds :: "fixed_buffer \<Rightarrow> char list \<Rightarrow> bool" where
  "holds b t \<longleftrightarrow> fb_inv kSmallBuffer b \<and> fb_toString b = t"

lemma holds_cur: "holds b t \<Longrightarrow> fb_cur b = length t"
  by (auto simp: holds_def fb_inv_def fb_toString_def)

lemma append_holds:
  assumes "holds b t" "length t + length xs < kSmallBuffer"
  obtains b' where "fb_append b xs = Inr b'" "holds b' (t @ xs)"
  using fb_append_prints [of kSmallBuffer b xs] assms holds_cur [OF assms(1)] by (auto simp: prints_def holds_def)

lemma put_all_holds:
  assumes "holds b t" "\<forall>x \<in> set xs. item_ok x" "length t + length (concat (map item_text xs)) + 32 \<le> kSmallBuffer"
  obtains b' where "put_all b xs = Inr b'" "holds b' (t @ concat (map item_text xs))"
proof -
  have "fitting kSmallBuffer (fb_cur b) xs = xs" using assms(3) holds_cur [OF assms(1)] by (intro fitting_all) simp
  with put_all_spec [of kSmallBuffer b xs] assms that show ?thesis by (auto simp: holds_def)
qed

lemma put_T_holds:
  assumes "holds b t" "length str = len" "length t + len < kSmallBuffer"
  obtains b' where "put_T str len b = Inr b'" "holds b' (t @ str)"
  using append_holds [OF assms(1), of str] assms(2,3) by (auto simp: put_T_def assert_c_def)

definition micro_text :: "time_zone \<Rightarrow> int \<Rightarrow> char list" where
  "micro_text z us = ''.'' @ fmt_zero 6 us @ (if tz_valid z then '' '' else ''Z '')"

lemma length_fmt_zero6: "0 \<le> us \<Longrightarrow> us < 1000000 \<Longrightarrow> length (fmt_zero 6 us) = 6"
  using length_dec_nat [of "nat us" 6] by (simp add: fmt_zero_def pad_left_def nat_less_iff)

lemma formatTime_holds:
  assumes "holds b []" "0 \<le> us" "cacheTime (us div 1000000) s = Inr s'" "length (t_time s') = 17" "g_logTimeZone s' = g_logTimeZone s"
  obtains b' where "formatTime us b s = Inr (b', s')" "holds b' (t_time s' @ micro_text (g_logTimeZone s) (us mod 1000000))"
proof -
  have m: "0 \<le> us mod 1000000" "us mod 1000000 < 1000000" by simp_all
  then have c: "cast_int (us mod 1000000) = us mod 1000000" by (intro cast_int_id order_trans [OF _ m(1)] less_trans [OF m(2)]) simp_all
  note l6 = length_fmt_zero6 [OF m]
  obtain b1 where b1: "put_T (t_time s') 17 b = Inr b1" "holds b1 (t_time s')"
    using put_T_holds [OF assms(1,4)] by (auto simp: kSmallBuffer_def)
  let ?m = "micro_text (g_logTimeZone s) (us mod 1000000)"
  have "length ?m \<le> 9" using l6 by (simp add: micro_text_def)
  then have "length (t_time s') + length ?m < kSmallBuffer" using assms(4) by (simp add: kSmallBuffer_def)
  from put_T_holds [OF b1(2) refl this] obtain b2 where b2: "put_T ?m (length ?m) b1 = Inr b2" "holds b2 (t_time s' @ ?m)" by blast
  have "formatTime us b s = Inr (b2, s')"
    unfolding formatTime_def Let_def sdiv_nonneg [OF assms(2), of 1000000, simplified] smod_nonneg [OF assms(2), of 1000000, simplified] c assms(3)
    using b1(1) b2(1) assms(5) l6 by (cases "tz_valid (g_logTimeZone s)") (simp_all add: fmt_buf_def assert_c_def micro_text_def)
  then show ?thesis using b2(2) that by blast
qed

definition log_head :: "int \<Rightarrow> int \<Rightarrow> log_level \<Rightarrow> log_state \<Rightarrow> char list" where
  "log_head now gettid level s =
     t_time s @ micro_text (g_logTimeZone s) (now mod 1000000) @ t_tidString (cacheTid gettid s) @ LogLevelName ! level_num level"

definition log_tail :: "source_file \<Rightarrow> int \<Rightarrow> char list" where
  "log_tail file line = '' - '' @ sf_data file @ '':'' @ dec_int (sint (word_of_int line :: 32 word)) @ [CHR 0x0A]"

lemma length_LogLevelName: "length (LogLevelName ! level_num level) = 6"
  by (cases level) (simp_all add: LogLevelName_def numeral_eq_Suc)

lemma new_impl_holds:
  assumes "length garbage = kSmallBuffer" "0 \<le> now" "cacheTime (now div 1000000) s = Inr s1" "length (t_time s1) = 17"
    and z: "g_logTimeZone s1 = g_logTimeZone s" and room: "length (log_head now gettid level s1) < kSmallBuffer"
  obtains b where "new_impl garbage now gettid strerror level 0 file line s =
      Inr (\<lparr>lg_stream = b, lg_level = level, lg_line = line, lg_basename = file\<rparr>, cacheTid gettid s1)"
    and "holds b (log_head now gettid level s1)"
proof -
  let ?tid = "t_tidString (cacheTid gettid s1)"
  let ?time = "t_time s1 @ micro_text (g_logTimeZone s) (now mod 1000000)"
  have "holds (new_fixed_buffer garbage) []"
    using assms(1) by (simp add: holds_def fb_inv_def new_fixed_buffer_def fb_toString_def kSmallBuffer_def)
  then obtain b1 where b1: "formatTime now (new_fixed_buffer garbage) s = Inr (b1, s1)" "holds b1 ?time"
    using formatTime_holds assms(2-4) z by blast
  have len: "length ?time + (length ?tid + 6) < kSmallBuffer"
    using room length_LogLevelName [of level] by (simp add: log_head_def z)
  obtain b2 where b2: "put_T ?tid (length ?tid) b1 = Inr b2" "holds b2 (?time @ ?tid)"
    using put_T_holds [OF b1(2) refl, of ?tid] len by auto
  obtain b3 where b3: "put_T (LogLevelName ! level_num level) 6 b2 = Inr b3" "holds b3 ((?time @ ?tid) @ LogLevelName ! level_num level)"
    using put_T_holds [OF b2(2) length_LogLevelName] len by auto
  show ?thesis
    by (rule that [of b3]) (use b1(1) b2(1) b3 z in \<open>simp_all add: new_impl_def Let_def log_head_def\<close>)
qed

text \<open>A message that fits is printed as one line: time, thread, level, text, file and line number.\<close>

lemma logger_line:
  assumes "length garbage = kSmallBuffer" "0 \<le> now" "cacheTime (now div 1000000) s = Inr s1" "length (t_time s1) = 17"
    and "g_logTimeZone s1 = g_logTimeZone s" "\<forall>x \<in> set xs. item_ok x" "sf_size file = int (length (sf_data file))"
    and room: "length (log_head now gettid level s1 @ concat (map item_text xs) @ log_tail file line) + 40 \<le> kSmallBuffer"
  shows "\<exists>l s2 l' s'. new_impl garbage now gettid strerror level 0 file line s = Inr (l, s2) \<and> logger_put xs l = Inr l' \<and>
    logger_dtor l' s2 = Inr s' \<and>
    log_output s' = log_output s2 @ [log_head now gettid level s1 @ concat (map item_text xs) @ log_tail file line] \<and>
    log_aborted s' = (log_aborted s2 \<or> level = FATAL)"
proof -
  let ?h = "log_head now gettid level s1" and ?t = "concat (map item_text xs)"
  let ?last = "[Arg_char (CHR '':''), Arg_integer (Arg_int (word_of_int line)), Arg_char (CHR 0x0A)]"
  obtain b where b: "new_impl garbage now gettid strerror level 0 file line s =
      Inr (\<lparr>lg_stream = b, lg_level = level, lg_line = line, lg_basename = file\<rparr>, cacheTid gettid s1)" "holds b ?h"
  proof -
    have "length ?h < kSmallBuffer" using room by simp
    from new_impl_holds [OF assms(1-5) this] show ?thesis using that by blast
  qed
  obtain b1 where b1: "put_all b xs = Inr b1" "holds b1 (?h @ ?t)"
    using put_all_holds [OF b(2) assms(6)] room by auto
  obtain b2 where b2: "put b1 (Arg_c_string (Some '' - '')) = Inr b2" "holds b2 ((?h @ ?t) @ '' - '')"
    using append_holds [OF b1(2), of "'' - ''"] room by (auto simp: log_tail_def)
  obtain b3 where b3: "put_source_file file b2 = Inr b3" "holds b3 (((?h @ ?t) @ '' - '') @ sf_data file)"
    using append_holds [OF b2(2), of "sf_data file"] room assms(7) by (auto simp: log_tail_def put_source_file_def)
  obtain b4 where b4: "put_all b3 ?last = Inr b4"
    "holds b4 ((((?h @ ?t) @ '' - '') @ sf_data file) @ concat (map item_text ?last))"
    using put_all_holds [OF b3(2), of ?last] room by (auto simp: log_tail_def item_ok_def item_text_def)
  then have whole: "take (fb_length b4) (fb_data b4) = ?h @ ?t @ log_tail file line"
    by (simp add: holds_def fb_toString_def fb_length_def log_tail_def item_text_def)
  have "logger_finish \<lparr>lg_stream = b1, lg_level = level, lg_line = line, lg_basename = file\<rparr> = Inr b4"
    using b2(1) b3(1) b4(1) by (simp add: logger_finish_def)
  then show ?thesis using b(1) b1(1) whole by (simp add: logger_put_def logger_dtor_def Let_def defaultOutput_def defaultFlush_def)
qed

text \<open>When the text leaves too little room, the end of the line is cut off, the newline with it.\<close>

lemma long_line_loses_newline:
  assumes "holds (lg_stream l) t" "length t = kSmallBuffer - 1" "sf_data (lg_basename l) \<noteq> []" "0 < sf_size (lg_basename l)"
  shows "\<exists>s'. logger_dtor l s = Inr s' \<and> log_output s' = log_output s @ [t]"
proof -
  let ?b = "lg_stream l"
  have full: "fb_append ?b xs = Inr ?b" if "xs \<noteq> []" for xs
    using assms(1,2) holds_cur [OF assms(1)] that
    by (cases xs) (auto simp: fb_append_def fb_avail_def holds_def fb_inv_def kSmallBuffer_def)
  have num: "formatInteger ?b v = Inr ?b" for v
    using assms(1,2) holds_cur [OF assms(1)]
    by (simp add: formatInteger_def fb_avail_def holds_def fb_inv_def kSmallBuffer_def kMaxNumericSize_def)
  have "logger_finish l = Inr ?b"
    using assms(3,4) by (simp add: logger_finish_def put_source_file_def full num)
  then show ?thesis using assms(1) by (simp add: logger_dtor_def Let_def defaultOutput_def defaultFlush_def holds_def fb_toString_def fb_length_def)
qed

text \<open>A change of the time zone is not seen until the next second: the cached text is printed.\<close>

lemma time_zone_change_in_the_same_second:
  "t_lastSecond s = seconds \<Longrightarrow> cacheTime seconds (setTimeZone z s) = Inr (setTimeZone z s) \<and> t_time (setTimeZone z s) = t_time s"
  by (simp add: cacheTime_def setTimeZone_def)

text \<open>The name of a source file is what follows its last slash.\<close>

lemma strrchr_last: "CHR ''/'' \<notin> set name \<Longrightarrow> strrchr (dir @ CHR ''/'' # name) (CHR ''/'') = Some (length dir)"
proof (induction dir)
  case Nil
  have "strrchr xs c = None" if "c \<notin> set xs" for xs and c :: char using that by (induction xs) auto
  with Nil show ?case by simp
qed simp

lemma source_file_basename:
  "CHR ''/'' \<notin> set name \<Longrightarrow> source_file_of_literal (dir @ CHR ''/'' # name) = \<lparr>sf_data = name, sf_size = int (length name)\<rparr>"
  by (simp add: source_file_of_literal_def strrchr_last)

section \<open>The macros\<close>

definition new_logger_line ::
    "char list \<Rightarrow> int \<Rightarrow> int \<Rightarrow> (int \<Rightarrow> char list) \<Rightarrow> source_file \<Rightarrow> int \<Rightarrow> log_state \<Rightarrow> (logger \<times> log_state) res" where
  "new_logger_line garbage now gettid strerror file line s = new_impl garbage now gettid strerror INFO 0 file line s"

definition new_logger_level ::
    "char list \<Rightarrow> int \<Rightarrow> int \<Rightarrow> (int \<Rightarrow> char list) \<Rightarrow> source_file \<Rightarrow> int \<Rightarrow> log_level \<Rightarrow> log_state \<Rightarrow> (logger \<times> log_state) res" where
  "new_logger_level garbage now gettid strerror file line level s = new_impl garbage now gettid strerror level 0 file line s"

datatype log_macro = LOG_TRACE | LOG_DEBUG | LOG_INFO | LOG_WARN | LOG_ERROR | LOG_FATAL | LOG_SYSERR | LOG_SYSFATAL

text \<open>The condition in front of the first three; the others have none.\<close>

fun macro_on :: "log_macro \<Rightarrow> log_state \<Rightarrow> bool" where
  "macro_on LOG_TRACE s \<longleftrightarrow> g_logLevel s \<le> TRACE"
| "macro_on LOG_DEBUG s \<longleftrightarrow> g_logLevel s \<le> DEBUG"
| "macro_on LOG_INFO s \<longleftrightarrow> g_logLevel s \<le> INFO"
| "macro_on _ s \<longleftrightarrow> True"

text \<open>The surroundings of a message: the array of its stream, the time, the thread, the errno and its text, and the place in the source.\<close>

record log_site =
  ls_garbage :: "char list"
  ls_now :: int
  ls_gettid :: int
  ls_errno :: int
  ls_strerror :: "int \<Rightarrow> char list"
  ls_file :: source_file
  ls_line :: int
  ls_func :: "char list"

fun macro_logger :: "log_macro \<Rightarrow> log_site \<Rightarrow> log_state \<Rightarrow> (logger \<times> log_state) res" where
  "macro_logger LOG_TRACE e s = new_logger_func (ls_garbage e) (ls_now e) (ls_gettid e) (ls_strerror e) (ls_file e) (ls_line e) TRACE (ls_func e) s"
| "macro_logger LOG_DEBUG e s = new_logger_func (ls_garbage e) (ls_now e) (ls_gettid e) (ls_strerror e) (ls_file e) (ls_line e) DEBUG (ls_func e) s"
| "macro_logger LOG_INFO e s = new_logger_line (ls_garbage e) (ls_now e) (ls_gettid e) (ls_strerror e) (ls_file e) (ls_line e) s"
| "macro_logger LOG_WARN e s = new_logger_level (ls_garbage e) (ls_now e) (ls_gettid e) (ls_strerror e) (ls_file e) (ls_line e) WARN s"
| "macro_logger LOG_ERROR e s = new_logger_level (ls_garbage e) (ls_now e) (ls_gettid e) (ls_strerror e) (ls_file e) (ls_line e) ERROR s"
| "macro_logger LOG_FATAL e s = new_logger_level (ls_garbage e) (ls_now e) (ls_gettid e) (ls_strerror e) (ls_file e) (ls_line e) FATAL s"
| "macro_logger LOG_SYSERR e s =
     new_logger_errno (ls_garbage e) (ls_now e) (ls_gettid e) (ls_strerror e) (ls_file e) (ls_line e) False (ls_errno e) s"
| "macro_logger LOG_SYSFATAL e s =
     new_logger_errno (ls_garbage e) (ls_now e) (ls_gettid e) (ls_strerror e) (ls_file e) (ls_line e) True (ls_errno e) s"

text \<open>A statement: the temporary logger takes the items and is destroyed at its end.\<close>

definition log_statement :: "log_macro \<Rightarrow> log_site \<Rightarrow> log_item list \<Rightarrow> log_state \<Rightarrow> log_state res" where
  "log_statement macro e xs s =
     (if macro_on macro s
      then rbind (macro_logger macro e s) (\<lambda>(l, s). rbind (logger_put xs l) (\<lambda>l. logger_dtor l s))
      else Inr s)"

text \<open>CheckNotNull: a null pointer ends the process in the destructor of the logger.\<close>

definition CheckNotNull :: "log_site \<Rightarrow> char list \<Rightarrow> 'a option \<Rightarrow> log_state \<Rightarrow> ('a option \<times> log_state) res" where
  "CheckNotNull e names ptr s =
     (case ptr of
        None \<Rightarrow> rbind (log_statement LOG_FATAL e [Arg_c_string (Some names)] s) (\<lambda>s. Inl Fatal)
      | Some p \<Rightarrow> Inr (Some p, s))"

text \<open>What a macro is about: its level, and what it prints before the items.\<close>

fun macro_level :: "log_macro \<Rightarrow> log_level" where
  "macro_level LOG_TRACE = TRACE" | "macro_level LOG_DEBUG = DEBUG" | "macro_level LOG_INFO = INFO" | "macro_level LOG_WARN = WARN"
| "macro_level LOG_ERROR = ERROR" | "macro_level LOG_FATAL = FATAL" | "macro_level LOG_SYSERR = ERROR" | "macro_level LOG_SYSFATAL = FATAL"

definition errno_items :: "log_site \<Rightarrow> log_item list" where
  "errno_items e =
     (if ls_errno e \<noteq> 0
      then [Arg_c_string (Some (ls_strerror e (ls_errno e))), Arg_c_string (Some '' (errno=''),
            Arg_integer (Arg_int (word_of_int (ls_errno e))), Arg_c_string (Some '') '')]
      else [])"

definition macro_items :: "log_macro \<Rightarrow> log_site \<Rightarrow> log_item list" where
  "macro_items macro e =
     (if macro \<in> {LOG_TRACE, LOG_DEBUG} then [Arg_c_string (Some (ls_func e)), Arg_char (CHR '' '')]
      else if macro \<in> {LOG_SYSERR, LOG_SYSFATAL} then errno_items e else [])"

lemma put_all_append: "put_all b (xs @ ys) = rbind (put_all b xs) (\<lambda>b. put_all b ys)"
  by (induction xs arbitrary: b) (simp_all add: rbind_assoc)

lemma logger_put_Nil [simp]: "logger_put [] l = Inr l"
  by (simp add: logger_put_def)

lemma logger_put_append: "logger_put (xs @ ys) l = rbind (logger_put xs l) (logger_put ys)"
  by (simp add: logger_put_def [abs_def] put_all_append rbind_assoc)

lemma rbind_unit [simp]: "rbind r Inr = r"
  by (cases r) auto

lemma rbind_pair_Inr [simp]: "rbind r (\<lambda>(l, s). Inr (l, s)) = r"
  by (cases r) auto

lemma new_impl_errno:
  "new_impl garbage now gettid strerror level errno file line s =
     rbind (new_impl garbage now gettid strerror level 0 file line s) (\<lambda>(l, s).
       rbind (logger_put (if errno \<noteq> 0
          then [Arg_c_string (Some (strerror errno)), Arg_c_string (Some '' (errno=''), Arg_integer (Arg_int (word_of_int errno)),
            Arg_c_string (Some '') '')]
          else []) l) (\<lambda>l. Inr (l, s)))"
  by (cases "formatTime now (new_fixed_buffer garbage) s") (auto simp: new_impl_def Let_def logger_put_def rbind_assoc)

lemma macro_logger_items:
  "macro_logger macro e s =
     rbind (new_impl (ls_garbage e) (ls_now e) (ls_gettid e) (ls_strerror e) (macro_level macro) 0 (ls_file e) (ls_line e) s)
      (\<lambda>(l, s). rbind (logger_put (macro_items macro e) l) (\<lambda>l. Inr (l, s)))"
  using new_impl_errno [of "ls_garbage e" "ls_now e" "ls_gettid e" "ls_strerror e" "macro_level macro" "ls_errno e" "ls_file e" "ls_line e" s]
  by (cases macro) (simp_all add: new_logger_func_def new_logger_line_def new_logger_level_def new_logger_errno_def macro_items_def errno_items_def
      logger_put_def rbind_assoc split_beta)

text \<open>
  A statement prints nothing when its level is below the one set, and otherwise exactly one line, with its level, the function or the
  error where the macro names them, the items in order, the file and the line; only the two fatal ones end
  the process, after flushing.
\<close>

lemma cacheTime_output: "cacheTime seconds s = Inr s' \<Longrightarrow> log_output s' = log_output s \<and> log_aborted s' = log_aborted s"
  by (auto simp: cacheTime_def res_iffs split: if_splits)

lemma cacheTid_output [simp]: "log_output (cacheTid t s) = log_output s" "log_aborted (cacheTid t s) = log_aborted s"
  by (simp_all add: cacheTid_def)

theorem log_statement_prints:
  fixes macro :: log_macro
  assumes e: "length (ls_garbage e) = kSmallBuffer" "0 \<le> ls_now e" "sf_size (ls_file e) = int (length (sf_data (ls_file e)))"
    and t: "cacheTime (ls_now e div 1000000) s = Inr s1" "length (t_time s1) = 17" "g_logTimeZone s1 = g_logTimeZone s"
    and xs: "\<forall>x \<in> set xs. item_ok x"
  defines "text_line \<equiv> log_head (ls_now e) (ls_gettid e) (macro_level macro) s1 @ concat (map item_text (macro_items macro e @ xs))
      @ log_tail (ls_file e) (ls_line e)"
  assumes room: "length text_line + 40 \<le> kSmallBuffer"
  shows "\<exists>s'. log_statement macro e xs s = Inr s'
    \<and> log_output s' = log_output s @ (if macro_on macro s then [text_line] else [])
    \<and> log_aborted s' = (log_aborted s \<or> macro \<in> {LOG_FATAL, LOG_SYSFATAL})"
proof (cases "macro_on macro s")
  case False
  then have "macro \<notin> {LOG_FATAL, LOG_SYSFATAL}" by (cases macro) auto
  with False show ?thesis by (simp add: log_statement_def)
next
  case True
  let ?ys = "macro_items macro e @ xs"
  have ok: "\<forall>x \<in> set ?ys. item_ok x" using xs by (auto simp: macro_items_def errno_items_def item_ok_def)
  from logger_line [where gettid = "ls_gettid e" and level = "macro_level macro" and line = "ls_line e" and strerror = "ls_strerror e",
      OF e(1,2) t ok e(3) room [unfolded text_line_def]] obtain l s2 l' s' where
    l: "new_impl (ls_garbage e) (ls_now e) (ls_gettid e) (ls_strerror e) (macro_level macro) 0 (ls_file e) (ls_line e) s = Inr (l, s2)"
      "logger_put ?ys l = Inr l'" "logger_dtor l' s2 = Inr s'" "log_output s' = log_output s2 @ [text_line]"
      "log_aborted s' = (log_aborted s2 \<or> macro_level macro = FATAL)"
    unfolding text_line_def by blast
  have s2: "log_output s2 = log_output s" "log_aborted s2 = log_aborted s"
  proof -
    have "length (log_head (ls_now e) (ls_gettid e) (macro_level macro) s1) < kSmallBuffer" using room by (simp add: text_line_def)
    from new_impl_holds [OF e(1,2) t this]
    have "\<exists>l. new_impl (ls_garbage e) (ls_now e) (ls_gettid e) (ls_strerror e) (macro_level macro) 0 (ls_file e) (ls_line e) s
        = Inr (l, cacheTid (ls_gettid e) s1)" by blast
    then have "s2 = cacheTid (ls_gettid e) s1" using l(1) by auto
    then show "log_output s2 = log_output s" "log_aborted s2 = log_aborted s" using cacheTime_output [OF t(1)] by simp_all
  qed
  have "log_statement macro e xs s = Inr s'"
    using True l(1-3) by (simp add: log_statement_def macro_logger_items logger_put_append rbind_assoc)
      (auto simp: rbind_Inr_iff)
  moreover have "macro_level macro = FATAL \<longleftrightarrow> macro \<in> {LOG_FATAL, LOG_SYSFATAL}" by (cases macro) simp_all
  ultimately show ?thesis using True l(4,5) s2 by simp
qed

lemma CheckNotNull_null:
  "log_statement LOG_FATAL e [Arg_c_string (Some names)] s = Inr s' \<Longrightarrow> CheckNotNull e names None s = Inl Fatal"
  by (simp add: CheckNotNull_def)

end
