(* ===== verification/SiteMain.thy ===== *)
theory SiteMain
  imports WebSite TcpServer TcpClient TimerQueue Logging
begin

text \<open>
  The whole server as main() of http/bin/muduo_server.cc puts it together: the constructor and start of
  HttpServer (http/HttpServer.cc) over its TcpServer, its TcpClient and the timers of its loop, and main itself up to
  loop(). The answers of the kernel to the first attempt to reach the application are arguments.
\<close>

section \<open>The parts of an HttpServer\<close>

record http_process =
  hp_http :: http_server
  hp_server :: tcp_server
  hp_client :: tcp_client
  hp_connectAddr :: sockaddr_in
  hp_timers :: timer_queue
  hp_onRequest :: "http_request \<Rightarrow> http_response \<Rightarrow> http_response"
  hp_log :: log_state

text \<open>The functor of onCheckTimer, which runs every three seconds.\<close>

definition check_timer :: nat where
  "check_timer = 0"

definition http_server_ctor ::
  "nat \<Rightarrow> sockaddr_in \<Rightarrow> char list \<Rightarrow> int \<Rightarrow> sockaddr_in \<Rightarrow> timer_queue \<Rightarrow> log_state \<Rightarrow> http_process res" where
  "http_server_ctor loop listenAddr name expiration connectAddr timers logs =
     rbind (new_tcp_server loop listenAddr name) (\<lambda>server.
       rbind (runEvery 3 check_timer timers) (\<lambda>(timerId, timers).
         Inr \<lparr>hp_http = new_http_server expiration, hp_server = server, hp_client = new_tcp_client, hp_connectAddr = connectAddr,
              hp_timers = timers, hp_onRequest = defaultHttpCallback, hp_log = logs\<rparr>))"

definition setHttpCallback :: "(http_request \<Rightarrow> http_response \<Rightarrow> http_response) \<Rightarrow> http_process \<Rightarrow> http_process" where
  "setHttpCallback cb p = p\<lparr>hp_onRequest := cb\<rparr>"

definition hs_setThreadNum :: "int \<Rightarrow> http_process \<Rightarrow> http_process res" where
  "hs_setThreadNum n p = rbind (ts_setThreadNum n (hp_server p)) (\<lambda>s. Inr (p\<lparr>hp_server := s\<rparr>))"

definition hs_start :: "(nat \<Rightarrow> nat) \<Rightarrow> int \<Rightarrow> int \<Rightarrow> http_process \<Rightarrow> http_process res" where
  "hs_start startLoop sock err p =
     rbind (ts_start startLoop (hp_server p)) (\<lambda>s.
       let p = p\<lparr>hp_server := s\<rparr>
       in rbind (tl_do_connect sock err (hp_client p)) (\<lambda>c. Inr (p\<lparr>hp_client := c\<rparr>)))"

text \<open>
  dumpConnectionList prints one line for each entry of the list: the time of the last message of a
  connection, or that the connection is gone.
\<close>

definition dumpConnectionList :: "http_server \<Rightarrow> char list list" where
  "dumpConnectionList s =
     map (\<lambda>i. case hs_conns s i of
            Some c \<Rightarrow> ''    time '' @ ts_toString (cx_lastReceiveTime (tc_context c))
          | None \<Rightarrow> ''expired'') (hs_list s)"

section \<open>main\<close>

definition NUM_THREAD :: int where "NUM_THREAD = 5"
definition EXPIRATION :: int where "EXPIRATION = 5"
definition CGI_IP :: "char list" where "CGI_IP = ''127.0.0.1''"
definition CGI_PORT :: int where "CGI_PORT = 9000"
definition SERVER_PORT :: int where "SERVER_PORT = 8000"

definition site_main ::
  "file_system \<Rightarrow> file_stat \<Rightarrow> (nat \<Rightarrow> nat) \<Rightarrow> int \<Rightarrow> int \<Rightarrow> timer_queue \<Rightarrow> log_state \<Rightarrow> http_process res" where
  "site_main fs junk startLoop sock err timers logs =
     (let logs = setLogLevel DEBUG logs;
          loop = 0;
          cgiAddr = inet_address CGI_IP (word_of_int CGI_PORT)
      in rbind (http_server_ctor loop (inet_any (word_of_int SERVER_PORT)) ''muduo_http'' EXPIRATION cgiAddr timers logs) (\<lambda>server.
           let server = setHttpCallback (site_onRequest fs junk) server
           in rbind (hs_setThreadNum NUM_THREAD server) (hs_start startLoop sock err)))"

section \<open>The server comes up\<close>

lemma runEvery_fresh:
  assumes "inj addr" "\<forall>n. valid_ts (clk n)" "0 < interval"
  shows "\<exists>q. runEvery interval cb (new_timer_queue addr clk) = Inr (addr 0, q) \<and> pending q = {(addTime (clk 0) interval, addr 0)}"
proof -
  let ?q = "snd (read_clock (new_timer_queue addr clk))"
  have "tq_wf [] ?q" using tq_wf_empty [OF assms(1), of clk] by (simp add: tq_wf_def read_clock_def allocated_def)
  moreover have "valid_ts (addTime (clk 0) interval)"
    using assms(2) [rule_format, of 0] addTime_mono [OF assms(3), of "clk 0"] by (simp add: valid_ts_def timestamp_order_defs)
  ultimately show ?thesis
    using addTimer_spec [of "[]" ?q "addTime (clk 0) interval" cb interval]
    by (auto simp: runEvery_def read_clock_def new_timer_queue_def map_keys_def)
qed

lemma site_chars: "char_of (48 :: nat) = CHR ''0''" "char_of (56 :: nat) = CHR ''8''" "char_of (57 :: nat) = CHR ''9''"
  by code_simp+

lemma port_texts: "dec_nat 8000 = ''8000''" "dec_nat 9000 = ''9000''"
  by (simp_all add: dec_nat.simps digit_char_def site_chars)

lemma cgi_ip: "inet_pton ''127.0.0.1'' \<noteq> None"
  by (simp add: inet_pton_def octet_ok_def digits_val_def isdigit_def digit_val_def)

text \<open>
  With its timers and the kernel's consent (a socket, and a connect that succeeds or goes on), main reaches its
  loop: it listens on port 8000 of every address, five loops share the connections, the check for idle
  connections is due three seconds after the clock was read, and the connection to the application at
  127.0.0.1:9000 is being made.
\<close>

theorem server_comes_up:
  assumes addr: "inj addr" and clk: "\<forall>n. valid_ts (clk n)" and sock: "0 \<le> sock" "err \<in> set connect_goes_on"
  shows "\<exists>p. site_main fs junk startLoop sock err (new_timer_queue addr clk) logs = Inr p
    \<and> ts_ipPort (hp_server p) = ''0.0.0.0:8000'' \<and> ts_listenning (hp_server p) \<and> lp_loops (ts_pool (hp_server p)) = map startLoop [0..<5]
    \<and> pending (hp_timers p) = {(addTime (clk 0) 3, addr 0)}
    \<and> toIpPort (hp_connectAddr p) = Inr ''127.0.0.1:9000'' \<and> cn_state (tl_connector (hp_client p)) = cn_kConnecting
    \<and> hs_timeOut (hp_http p) = 5 \<and> hs_list (hp_http p) = [] \<and> hp_onRequest p = site_onRequest fs junk"
proof -
  have three: "0 < (3 :: rat)" by simp
  from runEvery_fresh [OF addr clk three, of check_timer] obtain q where
    q: "runEvery 3 check_timer (new_timer_queue addr clk) = Inr (addr 0, q)" "pending q = {(addTime (clk 0) 3, addr 0)}"
    by blast
  have a: "toIpPort (inet_any (word_of_int SERVER_PORT)) = Inr ''0.0.0.0:8000''"
    by (simp add: address_texts inet_any_parts SERVER_PORT_def port_texts)
  have b: "toIpPort (inet_address CGI_IP (word_of_int CGI_PORT)) = Inr ''127.0.0.1:9000''"
    by (simp add: address_texts inet_address_parts CGI_IP_def CGI_PORT_def port_texts cgi_ip)
  obtain c where c: "cn_start sock err new_connector = Inr c" "cn_state c = cn_kConnecting"
    using sock by (simp add: cn_start_def startInLoop_def new_connector_def cn_do_connect_def createNonblockingOrDie_def connecting_def
        cn_setState_def Let_def)
  have ctor: "http_server_ctor 0 (inet_any (word_of_int SERVER_PORT)) ''muduo_http'' EXPIRATION (inet_address CGI_IP (word_of_int CGI_PORT)) (new_timer_queue addr clk) l
      = Inr \<lparr>hp_http = new_http_server EXPIRATION,
             hp_server = \<lparr>ts_ipPort = ''0.0.0.0:8000'', ts_name = ''muduo_http'', ts_listenning = False, ts_pool = new_loop_pool 0,
               ts_started = False, ts_nextConnId = 1, ts_connections = [], ts_heap = [], ts_queues = \<lambda>_. []\<rparr>,
             hp_client = new_tcp_client, hp_connectAddr = inet_address CGI_IP (word_of_int CGI_PORT), hp_timers = q,
             hp_onRequest = defaultHttpCallback, hp_log = l\<rparr>" for l
    by (simp add: http_server_ctor_def new_tcp_server_def a q(1))
  show ?thesis
    unfolding site_main_def Let_def ctor
    by (simp add: hs_setThreadNum_def ts_setThreadNum_def setThreadNum_def hs_start_def ts_start_def pool_start_def tl_do_connect_def
        new_tcp_client_def setHttpCallback_def new_loop_pool_def NUM_THREAD_def EXPIRATION_def new_http_server_def Let_def b c q(2))
qed

end
