(* ===== verification/Reactor.thy ===== *)
theory Reactor
  imports TcpConnection EventLoop "HOL-Library.Sublist"
begin

text \<open>
  How an event reaches a connection: the callbacks the constructor of TcpConnection installs on its
  channel (net/TcpConnection.cc), Channel::handleEvent running them, the part of EventLoop::loop between two
  polls that dispatches the active channels, and the two functions through which a channel reaches
  the poller of its loop (net/EventLoop.cc). What one event does to one connection, and what one round of the loop does
  to all of them.
\<close>

section \<open>Channels and their loop\<close>

definition kPollTimeMs :: int where
  "kPollTimeMs = 10000"

text \<open>Only the thread of the loop may change the channels of the loop, and only its own.\<close>

definition el_updateChannel :: "nat \<Rightarrow> nat \<Rightarrow> nat \<Rightarrow> event_loop \<Rightarrow> nat \<Rightarrow> poller \<Rightarrow> poller res" where
  "el_updateChannel tid self ownerLoop l channel p =
     assert_c (ownerLoop = self) (rbind (assertInLoopThread tid l) (\<lambda>_. updateChannel channel p))"

definition el_removeChannel :: "nat \<Rightarrow> nat \<Rightarrow> nat \<Rightarrow> event_loop \<Rightarrow> nat \<Rightarrow> poller \<Rightarrow> poller res" where
  "el_removeChannel tid self ownerLoop l channel p =
     assert_c (ownerLoop = self) (rbind (assertInLoopThread tid l) (\<lambda>_. removeChannel channel p))"

text \<open>Dispatching the active channels, in order.\<close>

primrec dispatch ::
  "(nat \<Rightarrow> 's callbacks) \<Rightarrow> (nat \<Rightarrow> bool \<Rightarrow> 's \<Rightarrow> 's) \<Rightarrow> (nat \<Rightarrow> 32 word) \<Rightarrow> timestamp \<Rightarrow> nat list \<Rightarrow> 's \<Rightarrow> 's res" where
  "dispatch cbs set_handling revents t [] s = Inr s"
| "dispatch cbs set_handling revents t (k # ks) s =
     rbind (handleEvent (cbs k) (set_handling k) (revents k) t s) (dispatch cbs set_handling revents t ks)"

text \<open>The body of the loop up to doPendingFunctors: the time and the poller after poll, and what the callbacks made of \<open>s\<close>.\<close>

definition poll_and_dispatch ::
  "(pollfd list \<Rightarrow> int \<Rightarrow> int \<times> 16 word list) \<Rightarrow> int \<times> int \<Rightarrow> (nat \<Rightarrow> 's callbacks) \<Rightarrow> (nat \<Rightarrow> bool \<Rightarrow> 's \<Rightarrow> 's)
     \<Rightarrow> poller \<Rightarrow> 's \<Rightarrow> (timestamp \<times> poller \<times> 's) res" where
  "poll_and_dispatch poll_k tv cbs set_handling p s =
     rbind (poller_poll poll_k tv kPollTimeMs [] p) (\<lambda>(t, activeChannels, p).
       rbind (dispatch cbs set_handling (\<lambda>k. ch_revents (chan p k)) t activeChannels s) (\<lambda>s. Inr (t, p, s)))"

section \<open>The callbacks of a connection\<close>

text \<open>What the kernel answers on one connection, and its message callback.\<close>

record conn_env =
  ce_readv :: "nat list \<Rightarrow> readv_result"
  ce_write :: "char list \<Rightarrow> write_result"
  ce_message :: "timestamp \<Rightarrow> tcp_conn \<Rightarrow> tcp_conn res"

text \<open>handleError reads SO\_ERROR and logs it.\<close>

definition handleError :: "tcp_conn \<Rightarrow> tcp_conn res" where
  "handleError c = Inr c"

definition conn_callbacks :: "conn_env \<Rightarrow> tcp_conn callbacks" where
  "conn_callbacks env =
     \<lparr>readCallback = Some (handleRead (ce_readv env) (ce_message env)), writeCallback = Some (handleWrite (ce_write env)),
      errorCallback = Some handleError, closeCallback = Some handleClose\<rparr>"

definition set_eventHandling :: "bool \<Rightarrow> tcp_conn \<Rightarrow> tcp_conn" where
  "set_eventHandling b c = c\<lparr>tc_channel := (tc_channel c)\<lparr>ch_eventHandling := b\<rparr>\<rparr>"

definition conn_handleEvent :: "conn_env \<Rightarrow> 32 word \<Rightarrow> timestamp \<Rightarrow> tcp_conn \<Rightarrow> tcp_conn res" where
  "conn_handleEvent env = handleEvent (conn_callbacks env) set_eventHandling"

section \<open>One event\<close>

abbreviation up :: "tcp_conn \<Rightarrow> bool" where
  "up c \<equiv> tc_state c = kConnected \<or> tc_state c = kDisconnecting"

text \<open>
  What a connection keeps through anything its callbacks do while it is up: the output is only
  extended, at its end in the stream and on the wire.
\<close>

definition extends :: "tcp_conn \<Rightarrow> tcp_conn \<Rightarrow> bool" where
  "extends c c' \<longleftrightarrow> prefix (stream c) (stream c') \<and> prefix (tc_wire c) (tc_wire c') \<and> (up c \<longrightarrow> up c')"

text \<open>
  A message callback that returns leaves an open connection well-formed, does not take back output, and leaves the
  closing to the loop (it may shut the connection down, or queue its closing).
\<close>

definition message_callback_ok :: "(timestamp \<Rightarrow> tcp_conn \<Rightarrow> tcp_conn res) \<Rightarrow> bool" where
  "message_callback_ok f \<longleftrightarrow>
     (\<forall>t c c'. conn_inv c \<longrightarrow> up c \<longrightarrow> f t c = Inr c' \<longrightarrow>
        conn_inv c' \<and> tc_closeCalls c' = tc_closeCalls c \<and> extends c c')"

definition env_ok :: "conn_env \<Rightarrow> bool" where
  "env_ok env \<longleftrightarrow> readv_result_ok (ce_readv env) \<and> write_ok (ce_write env) \<and> message_callback_ok (ce_message env)"

text \<open>
  What poll(2) reports on a TCP socket whose reading side is gone includes POLLIN; so POLLHUP without it
  comes without the other events that make handleEvent read.
\<close>

definition hup_event :: "32 word \<Rightarrow> bool" where
  "hup_event revents \<longleftrightarrow> has revents POLLHUP \<and> \<not> has revents POLLIN"

definition read_event :: "32 word \<Rightarrow> bool" where
  "read_event revents \<longleftrightarrow> has revents (POLLIN OR POLLPRI OR POLLRDHUP)"

definition revents_ok :: "32 word \<Rightarrow> bool" where
  "revents_ok revents \<longleftrightarrow> \<not> (hup_event revents \<and> read_event revents)"

lemma set_eventHandling_simps [simp]:
  "tc_state (set_eventHandling b c) = tc_state c" "tc_in (set_eventHandling b c) = tc_in c" "tc_out (set_eventHandling b c) = tc_out c"
  "tc_wire (set_eventHandling b c) = tc_wire c" "tc_closeCalls (set_eventHandling b c) = tc_closeCalls c"
  "ch_events (tc_channel (set_eventHandling b c)) = ch_events (tc_channel c)"
  "ch_eventHandling (tc_channel (set_eventHandling b c)) = b"
  "isWriting (tc_channel (set_eventHandling b c)) = isWriting (tc_channel c)"
  "isNoneEvent (tc_channel (set_eventHandling b c)) = isNoneEvent (tc_channel c)"
  "stream (set_eventHandling b c) = stream c" "conn_inv (set_eventHandling b c) = conn_inv c"
  by (simp_all add: set_eventHandling_def isWriting_def isNoneEvent_def stream_def conn_inv_def)

lemma extends_refl [simp]: "extends c c"
  by (simp add: extends_def)

lemma extends_trans: "extends c c1 \<Longrightarrow> extends c1 c2 \<Longrightarrow> extends c c2"
  by (auto simp: extends_def intro: prefix_order.trans)

lemma extends_flag [simp]: "extends c (set_eventHandling b c') = extends c c'" "extends (set_eventHandling b c) c' = extends c c'"
  by (simp_all add: extends_def)

lemma handleClose_up:
  "up c \<Longrightarrow> \<exists>c'. handleClose c = Inr c' \<and> tc_closeCalls c' = tc_closeCalls c + 1 \<and> tc_state c' = tc_state c
    \<and> isNoneEvent (tc_channel c') \<and> tc_wire c' = tc_wire c \<and> tc_out c' = tc_out c \<and> tc_in c' = tc_in c"
  by (simp add: handleClose_def isNoneEvent_def)

lemma handleWrite_none: "isNoneEvent (tc_channel c) \<Longrightarrow> handleWrite w c = Inr c"
  by (simp add: handleWrite_def isWriting_def isNoneEvent_def)

lemma shutdownInLoop_simps [simp]:
  "tc_wire (shutdownInLoop c) = tc_wire c" "tc_closeCalls (shutdownInLoop c) = tc_closeCalls c"
  by (simp_all add: shutdownInLoop_def)

lemma handleWrite_wire:
  "handleWrite w c = Inr c' \<Longrightarrow> prefix (tc_wire c) (tc_wire c') \<and> tc_closeCalls c' = tc_closeCalls c"
  by (auto simp: handleWrite_def Let_def res_iffs split: if_splits write_result.splits)

lemma handleWrite_extends:
  assumes "conn_inv c" "write_ok w"
  shows "\<exists>c'. handleWrite w c = Inr c' \<and> conn_inv c' \<and> tc_closeCalls c' = tc_closeCalls c \<and> extends c c'"
  using handleWrite_spec [OF assms] handleWrite_wire [of w c] by (auto simp: extends_def)

text \<open>Reading: an end of file closes, an error changes nothing, bytes go to the message callback.\<close>

lemma handleRead_cases:
  assumes "conn_inv c" "up c"
  shows "case rd (readFd_iov (tc_in c)) of
      Readv_err e \<Rightarrow> handleRead rd f t c = Inr c
    | Readv_ok data \<Rightarrow> \<exists>c1. conn_inv c1 \<and> up c1 \<and> tc_closeCalls c1 = tc_closeCalls c \<and> extends c c1 \<and> tc_wire c1 = tc_wire c
        \<and> contents (tc_in c1) = contents (tc_in c) @ data
        \<and> handleRead rd f t c = (if data = [] then handleClose c1 else f t c1)"
proof -
  have inb: "buffer_inv (tc_in c)" using assms(1) by (simp add: conn_inv_def)
  show ?thesis
  proof (cases "rd (readFd_iov (tc_in c))")
    case (Readv_err e)
    then show ?thesis by (simp add: handleRead_def readFd_def Let_def)
  next
    case (Readv_ok data)
    with readFd_ok [where readv_k = rd, OF inb Readv_ok] obtain b where b: "readFd rd (tc_in c) = Inr (int (length data), None, b)" "buffer_inv b" "contents b = contents (tc_in c) @ data"
      by auto
    let ?c = "c\<lparr>tc_in := b\<rparr>"
    have "conn_inv ?c" using assms(1) b(2) by (simp add: conn_inv_def)
    moreover have "extends c ?c" by (simp add: extends_def stream_def)
    moreover have "handleRead rd f t c = (if data = [] then handleClose ?c else f t ?c)" by (simp add: handleRead_def b(1))
    ultimately show ?thesis using Readv_ok b(3) assms by (auto intro!: exI [of _ ?c])
  qed
qed

text \<open>The three last callbacks of handleEvent, after the closing one.\<close>

definition after_close :: "conn_env \<Rightarrow> 32 word \<Rightarrow> timestamp \<Rightarrow> tcp_conn \<Rightarrow> tcp_conn res" where
  "after_close env revents t c =
     rbind (if read_event revents then handleRead (ce_readv env) (ce_message env) t c else Inr c)
      (\<lambda>c. rbind (if has revents POLLOUT then handleWrite (ce_write env) c else Inr c) (\<lambda>c. Inr (set_eventHandling False c)))"

lemma conn_handleEvent_phases:
  "conn_handleEvent env revents t c =
     rbind (if hup_event revents then handleClose (set_eventHandling True c) else Inr (set_eventHandling True c)) (after_close env revents t)"
  by (simp add: conn_handleEvent_def handleEvent_def conn_callbacks_def handleError_def [abs_def] call_opt_def after_close_def [abs_def]
      hup_event_def read_event_def)

text \<open>After a closing only the flag of the channel changes.\<close>

lemma after_close_closed:
  assumes "isNoneEvent (tc_channel c)" "\<not> read_event revents"
  shows "after_close env revents t c = Inr (set_eventHandling False c)"
  using assms by (simp add: after_close_def handleWrite_none)

lemma after_read:
  assumes "env_ok env" "conn_inv c1"
  shows "\<exists>c2. rbind (if has revents POLLOUT then handleWrite (ce_write env) c1 else Inr c1) (\<lambda>c. Inr (set_eventHandling False c)) = Inr c2
    \<and> conn_inv c2 \<and> tc_closeCalls c2 = tc_closeCalls c1 \<and> extends c1 c2 \<and> \<not> ch_eventHandling (tc_channel c2)"
  using handleWrite_extends [OF assms(2), of "ce_write env"] assms by (auto simp: env_ok_def)

lemma after_close_open:
  assumes c: "conn_inv c" "up c" and env: "env_ok env"
  defines "answer \<equiv> ce_readv env (readFd_iov (tc_in c))"
  shows "case after_close env revents t c of
      Inl e \<Rightarrow> \<exists>data c1. read_event revents \<and> answer = Readv_ok data \<and> data \<noteq> [] \<and> conn_inv c1 \<and> up c1
        \<and> contents (tc_in c1) = contents (tc_in c) @ data \<and> ce_message env t c1 = Inl e
    | Inr c' \<Rightarrow> extends c c' \<and> \<not> ch_eventHandling (tc_channel c') \<and>
        (if read_event revents \<and> answer = Readv_ok []
         then tc_closeCalls c' = tc_closeCalls c + 1 \<and> isNoneEvent (tc_channel c') \<and> tc_wire c' = tc_wire c \<and> contents (tc_in c') = contents (tc_in c)
         else tc_closeCalls c' = tc_closeCalls c \<and> conn_inv c')"
proof (cases "read_event revents \<and> (\<exists>data. answer = Readv_ok data)")
  case False
  have "after_close env revents t c = rbind (if has revents POLLOUT then handleWrite (ce_write env) c else Inr c) (\<lambda>c. Inr (set_eventHandling False c))"
  proof (cases "read_event revents")
    case True
    with False obtain e where "answer = Readv_err e" by (cases answer) auto
    with handleRead_cases [OF c, of "ce_readv env" "ce_message env" t] env True show ?thesis
      by (simp add: after_close_def env_ok_def answer_def)
  qed (simp add: after_close_def)
  with after_read [OF env c(1), of revents] False show ?thesis by auto
next
  case True
  then obtain data where data: "read_event revents" "answer = Readv_ok data" by blast
  with handleRead_cases [OF c, of "ce_readv env" "ce_message env" t] env obtain c1 where
    c1: "conn_inv c1" "up c1" "tc_closeCalls c1 = tc_closeCalls c" "extends c c1" "tc_wire c1 = tc_wire c"
      "contents (tc_in c1) = contents (tc_in c) @ data"
      "handleRead (ce_readv env) (ce_message env) t c = (if data = [] then handleClose c1 else ce_message env t c1)"
    by (auto simp: env_ok_def answer_def)
  show ?thesis
  proof (cases "data = []")
    case True
    obtain c2 where c2: "handleClose c1 = Inr c2" "tc_closeCalls c2 = tc_closeCalls c1 + 1" "tc_state c2 = tc_state c1"
      "isNoneEvent (tc_channel c2)" "tc_wire c2 = tc_wire c1" "tc_out c2 = tc_out c1" "tc_in c2 = tc_in c1"
      using handleClose_up [OF c1(2)] by blast
    have "after_close env revents t c = Inr (set_eventHandling False c2)"
      using data True c1(7) c2 by (simp add: after_close_def handleWrite_none)
    moreover have "extends c1 c2" using c2 by (simp add: extends_def stream_def)
    ultimately show ?thesis using extends_trans [OF c1(4)] c2 c1 data True by auto
  next
    case False
    show ?thesis
    proof (cases "ce_message env t c1")
      case (Inl e)
      then show ?thesis using data False c1 by (auto simp: after_close_def)
    next
      case (Inr c2)
      have c2: "conn_inv c2" "tc_closeCalls c2 = tc_closeCalls c1" "extends c1 c2"
        using env c1(1,2) Inr unfolding env_ok_def message_callback_ok_def by blast+
      have run: "after_close env revents t c
          = rbind (if has revents POLLOUT then handleWrite (ce_write env) c2 else Inr c2) (\<lambda>c. Inr (set_eventHandling False c))"
        using data(1) False c1(7) Inr by (simp add: after_close_def)
      from after_read [OF env c2(1), of revents] obtain c3 where
        c3: "after_close env revents t c = Inr c3" "conn_inv c3" "tc_closeCalls c3 = tc_closeCalls c2" "extends c2 c3"
        "\<not> ch_eventHandling (tc_channel c3)"
        unfolding run by blast
      have "extends c c3" using c1(4) c2(3) c3(4) by (blast intro: extends_trans)
      with c3 c2(2) c1(3) data False show ?thesis by simp
    qed
  qed
qed

lemma conn_event:
  assumes c: "conn_inv c" "tc_state c = kConnected \<or> tc_state c = kDisconnecting" and env: "env_ok env" and r: "revents_ok revents"
  defines "answer \<equiv> ce_readv env (readFd_iov (tc_in c))"
    and "closes \<equiv> hup_event revents \<or> read_event revents \<and> ce_readv env (readFd_iov (tc_in c)) = Readv_ok []"
  shows "case conn_handleEvent env revents t c of
      Inl e \<Rightarrow> \<exists>data c1. read_event revents \<and> answer = Readv_ok data \<and> data \<noteq> [] \<and> conn_inv c1 \<and> up c1
        \<and> contents (tc_in c1) = contents (tc_in c) @ data \<and> ce_message env t c1 = Inl e
    | Inr c' \<Rightarrow> tc_closeCalls c' = tc_closeCalls c + of_bool closes \<and> extends c c' \<and> \<not> ch_eventHandling (tc_channel c') \<and>
        (if closes then isNoneEvent (tc_channel c') \<and> tc_wire c' = tc_wire c \<and> contents (tc_in c') = contents (tc_in c)
         else conn_inv c')"
proof (cases "hup_event revents")
  case True
  let ?c = "set_eventHandling True c"
  obtain c1 where c1: "handleClose ?c = Inr c1" "tc_closeCalls c1 = tc_closeCalls c + 1" "tc_state c1 = tc_state c"
    "isNoneEvent (tc_channel c1)" "tc_wire c1 = tc_wire c" "tc_out c1 = tc_out c" "tc_in c1 = tc_in c"
    using handleClose_up [of ?c] c(2) by auto
  have "\<not> read_event revents" using r True by (simp add: revents_ok_def)
  then have "conn_handleEvent env revents t c = Inr (set_eventHandling False c1)"
    using True c1 by (simp add: conn_handleEvent_phases after_close_closed)
  then show ?thesis using c1 True by (simp add: closes_def extends_def stream_def)
next
  case False
  have "conn_inv (set_eventHandling True c)" "up (set_eventHandling True c)" using c by simp_all
  from after_close_open [OF this env, of revents t] False show ?thesis
    by (auto simp: conn_handleEvent_phases closes_def answer_def split: sum.splits if_splits)
qed


text \<open>A callback that sends is such a callback.\<close>

lemma sendInLoop_wire:
  "sendInLoop w m c = Inr c' \<Longrightarrow> prefix (tc_wire c) (tc_wire c') \<and> tc_closeCalls c' = tc_closeCalls c"
  by (auto simp: sendInLoop_def try_write_def Let_def res_iffs split: if_splits write_result.splits)

lemma sending_callback_ok:
  assumes "write_ok w"
  shows "message_callback_ok (\<lambda>t c. send w (g t c) c)"
  unfolding message_callback_ok_def
proof (intro allI impI)
  fix t c c'
  assume a: "conn_inv c" "up c" "send w (g t c) c = Inr c'"
  from send_stream [OF a(1) assms, of "g t c"] a(3) have "conn_inv c'" "prefix (stream c) (stream c')" "tc_state c' = tc_state c"
    by auto
  moreover have "prefix (tc_wire c) (tc_wire c') \<and> tc_closeCalls c' = tc_closeCalls c"
    using a(3) sendInLoop_wire by (auto simp: send_def split: if_splits)
  ultimately show "conn_inv c' \<and> tc_closeCalls c' = tc_closeCalls c \<and> extends c c'"
    using a(2) by (simp add: extends_def)
qed

text \<open>A server that sends back what it received so far.\<close>

definition echo_env :: "char list \<Rightarrow> conn_env" where
  "echo_env data =
     \<lparr>ce_readv = (\<lambda>lens. Readv_ok (take (sum_list lens) data)), ce_write = (\<lambda>d. Write_ok (length d)),
      ce_message = (\<lambda>t c. send (\<lambda>d. Write_ok (length d)) (contents (tc_in c)) c)\<rparr>"

lemma write_all_ok [simp]: "write_ok (\<lambda>d. Write_ok (length d))"
  by (simp add: write_ok_def)

lemma echo_env_ok [simp]: "env_ok (echo_env data)"
  by (simp add: env_ok_def echo_env_def readv_result_ok_def sending_callback_ok)

lemma poll_bits:
  "read_event POLLIN" "\<not> hup_event POLLIN" "revents_ok POLLIN" "\<not> read_event POLLHUP" "hup_event POLLHUP" "revents_ok POLLHUP"
  by (simp_all add: read_event_def hup_event_def revents_ok_def has_def poll_consts)


text \<open>
  Without that assumption on poll(2) the callback can be called twice in one event: a hang-up closes, and
  urgent data or a closed reading side reads, finds the end of the stream, and closes again. The owner
  of the connection removes it twice, and its second assertion fails (\<open>n == 1\<close> in TcpServer::removeConnectionInLoop).
\<close>

lemma hang_up_can_close_twice:
  assumes "hup_event revents" "read_event revents" "up c" "conn_inv c" "ce_readv env (readFd_iov (tc_in c)) = Readv_ok []"
  shows "\<exists>c'. conn_handleEvent env revents t c = Inr c' \<and> tc_closeCalls c' = tc_closeCalls c + 2"
proof -
  let ?c = "set_eventHandling True c"
  obtain c1 where c1: "handleClose ?c = Inr c1" "tc_closeCalls c1 = tc_closeCalls c + 1" "tc_state c1 = tc_state c" "tc_in c1 = tc_in c"
    using handleClose_up [of ?c] assms(3) by auto
  have "buffer_inv (tc_in c)" using assms(4) by (simp add: conn_inv_def)
  from readFd_ok [where readv_k = "ce_readv env", OF this assms(5)] obtain b where b: "readFd (ce_readv env) (tc_in c) = Inr (0, None, b)" by auto
  let ?c1 = "c1\<lparr>tc_in := b\<rparr>"
  obtain c2 where c2: "handleClose ?c1 = Inr c2" "tc_closeCalls c2 = tc_closeCalls c + 2" "isNoneEvent (tc_channel c2)"
    using handleClose_up [of ?c1] assms(3) c1 by auto
  have "handleRead (ce_readv env) (ce_message env) t c1 = Inr c2" using b c1(4) c2(1) by (simp add: handleRead_def)
  then show ?thesis using assms(1,2) c1(1) c2 by (simp add: conn_handleEvent_phases after_close_def handleWrite_none)
qed

section \<open>One round of the loop\<close>

text \<open>The connections of a loop by the number of their channel. A callback changes its own connection.\<close>

definition on_conn :: "nat \<Rightarrow> (tcp_conn \<Rightarrow> tcp_conn res) \<Rightarrow> (nat \<rightharpoonup> tcp_conn) \<Rightarrow> (nat \<rightharpoonup> tcp_conn) res" where
  "on_conn k f m = (case m k of None \<Rightarrow> Inl Null_pointer | Some c \<Rightarrow> rbind (f c) (\<lambda>c. Inr (m(k \<mapsto> c))))"

definition loop_callbacks :: "(nat \<Rightarrow> conn_env) \<Rightarrow> nat \<Rightarrow> (nat \<rightharpoonup> tcp_conn) callbacks" where
  "loop_callbacks env k =
     (let cbs = conn_callbacks (env k)
      in \<lparr>readCallback = map_option (\<lambda>f t. on_conn k (f t)) (readCallback cbs), writeCallback = map_option (on_conn k) (writeCallback cbs),
          errorCallback = map_option (on_conn k) (errorCallback cbs), closeCallback = map_option (on_conn k) (closeCallback cbs)\<rparr>)"

definition loop_handling :: "nat \<Rightarrow> bool \<Rightarrow> (nat \<rightharpoonup> tcp_conn) \<Rightarrow> (nat \<rightharpoonup> tcp_conn)" where
  "loop_handling k b m = m(k := map_option (set_eventHandling b) (m k))"

lemma on_conn_upd [simp]: "on_conn k f (m(k \<mapsto> c)) = rbind (f c) (\<lambda>c. Inr (m(k \<mapsto> c)))"
  by (simp add: on_conn_def)

lemma on_conn_then [simp]: "rbind (on_conn k f (m(k \<mapsto> c))) g = rbind (f c) (\<lambda>c. g (m(k \<mapsto> c)))"
  by (simp add: rbind_assoc)

lemma loop_handling_upd [simp]: "loop_handling k b (m(k \<mapsto> c)) = m(k \<mapsto> set_eventHandling b c)"
  by (simp add: loop_handling_def)

lemma handleEvent_on_conn:
  assumes "m k = Some c"
  shows "handleEvent (loop_callbacks env k) (loop_handling k) revents t m
    = rbind (conn_handleEvent (env k) revents t c) (\<lambda>c'. Inr (m(k \<mapsto> c')))"
proof -
  have "loop_handling k True m = m(k \<mapsto> set_eventHandling True c)" using assms by (simp add: loop_handling_def)
  then show ?thesis
    unfolding handleEvent_def conn_handleEvent_def loop_callbacks_def conn_callbacks_def Let_def
    by (cases "has revents POLLHUP"; cases "has revents POLLIN"; cases "has revents (POLLERR OR POLLNVAL)";
        cases "has revents (POLLIN OR POLLPRI OR POLLRDHUP)"; cases "has revents POLLOUT")
      (simp_all add: call_opt_def rbind_assoc)
qed

text \<open>Dispatching different channels: each connection gets its own event, the others are left alone.\<close>

lemma dispatch_conns:
  assumes "distinct ks" "\<And>k. k \<in> set ks \<Longrightarrow> \<exists>c c'. m k = Some c \<and> conn_handleEvent (env k) (revents k) t c = Inr c'"
  shows "\<exists>m'. dispatch (loop_callbacks env) loop_handling revents t ks m = Inr m'
    \<and> (\<forall>k \<in> set ks. \<exists>c'. m' k = Some c' \<and> conn_handleEvent (env k) (revents k) t (the (m k)) = Inr c')
    \<and> (\<forall>k. k \<notin> set ks \<longrightarrow> m' k = m k)"
  using assms
proof (induction ks arbitrary: m)
  case Nil
  then show ?case by simp
next
  case (Cons k ks)
  obtain c c' where c: "m k = Some c" "conn_handleEvent (env k) (revents k) t c = Inr c'" using Cons.prems(2) [of k] by auto
  have new: "distinct ks" "k \<notin> set ks" using Cons.prems(1) by simp_all
  have rest: "\<exists>d d'. (m(k \<mapsto> c')) j = Some d \<and> conn_handleEvent (env j) (revents j) t d = Inr d'" if "j \<in> set ks" for j
    using that new(2) Cons.prems(2) [of j] by (cases "j = k") auto
  obtain m' where m': "dispatch (loop_callbacks env) loop_handling revents t ks (m(k \<mapsto> c')) = Inr m'"
    "\<forall>j \<in> set ks. \<exists>d. m' j = Some d \<and> conn_handleEvent (env j) (revents j) t (the ((m(k \<mapsto> c')) j)) = Inr d"
    "\<forall>j. j \<notin> set ks \<longrightarrow> m' j = (m(k \<mapsto> c')) j"
    using Cons.IH [where m = "m(k \<mapsto> c')", OF new(1) rest] by blast
  have "dispatch (loop_callbacks env) loop_handling revents t (k # ks) m = Inr m'"
    using m'(1) c by (simp add: handleEvent_on_conn)
  moreover have "\<exists>d. m' j = Some d \<and> conn_handleEvent (env j) (revents j) t (the (m j)) = Inr d" if "j \<in> set (k # ks)" for j
    using that m'(2,3) c new(2) by (cases "j = k") auto
  moreover have "m' j = m j" if "j \<notin> set (k # ks)" for j
    using that m'(3) by simp
  ultimately show ?case by blast
qed



end
