(* ===== verification/Exceptions.thy ===== *)
theory Exceptions
  imports Prelude
begin

text \<open>
  base/Exception.h and base/Exception.cc, and the two casts of base/Types.h. What backtrace and backtrace\_symbols of the
  C library answer is an argument: from the room in the array of addresses, the text of each frame,
  or \<open>None\<close> when there is no memory for them.
\<close>

section \<open>Exception\<close>

record exception_c =
  ex_message :: "char list"
  ex_stack :: "char list"

definition kStackFrames :: nat where
  "kStackFrames = 200"

primrec stack_loop :: "char list list \<Rightarrow> char list \<Rightarrow> char list" where
  "stack_loop [] stack = stack"
| "stack_loop (s # strings) stack = stack_loop strings ((stack @ c_str s) @ [CHR 0x0A])"

definition fillStackTrace :: "(nat \<Rightarrow> char list list option) \<Rightarrow> exception_c \<Rightarrow> exception_c" where
  "fillStackTrace backtrace e =
     (case backtrace kStackFrames of
        None \<Rightarrow> e
      | Some strings \<Rightarrow> e\<lparr>ex_stack := stack_loop strings (ex_stack e)\<rparr>)"

definition new_exception_literal :: "(nat \<Rightarrow> char list list option) \<Rightarrow> char list \<Rightarrow> exception_c" where
  "new_exception_literal backtrace msg = fillStackTrace backtrace \<lparr>ex_message = c_str msg, ex_stack = []\<rparr>"

definition new_exception :: "(nat \<Rightarrow> char list list option) \<Rightarrow> char list \<Rightarrow> exception_c" where
  "new_exception backtrace msg = fillStackTrace backtrace \<lparr>ex_message = msg, ex_stack = []\<rparr>"

definition ex_what :: "exception_c \<Rightarrow> char list" where
  "ex_what e = c_str (ex_message e)"

definition stackTrace :: "exception_c \<Rightarrow> char list" where
  "stackTrace e = c_str (ex_stack e)"

text \<open>Reading the trace back: its lines are the frames, innermost first.\<close>

primrec lines_of :: "char list \<Rightarrow> char list list" where
  "lines_of [] = []"
| "lines_of (c # cs) =
     (if c = CHR 0x0A then [] # lines_of cs
      else case lines_of cs of [] \<Rightarrow> [[c]] | l # ls \<Rightarrow> (c # l) # ls)"

lemma stack_loop_lines: "stack_loop strings stack = stack @ concat (map (\<lambda>s. c_str s @ [CHR 0x0A]) strings)"
  by (induction strings arbitrary: stack) simp_all

lemma lines_of_line: "CHR 0x0A \<notin> set l \<Longrightarrow> lines_of (l @ CHR 0x0A # cs) = l # lines_of cs"
  by (induction l) auto

theorem stack_trace_shows_frames:
  assumes "backtrace kStackFrames = Some strings" "\<And>s. s \<in> set strings \<Longrightarrow> CHR 0x0A \<notin> set s"
  shows "lines_of (stackTrace (new_exception backtrace msg)) = map c_str strings"
    and "ex_what (new_exception backtrace msg) = c_str msg"
proof -
  have st: "ex_stack (new_exception backtrace msg) = concat (map (\<lambda>s. c_str s @ [CHR 0x0A]) strings)"
    using assms(1) by (simp add: new_exception_def fillStackTrace_def stack_loop_lines)
  have "CHR 0x00 \<notin> set (concat (map (\<lambda>s. c_str s @ [CHR 0x0A]) strings))" using c_str_no_nul by auto
  then have "stackTrace (new_exception backtrace msg) = concat (map (\<lambda>s. c_str s @ [CHR 0x0A]) strings)"
    by (simp add: stackTrace_def st c_str_id)
  moreover have "lines_of (concat (map (\<lambda>s. c_str s @ [CHR 0x0A]) strings)) = map c_str strings"
    using assms(2)
  proof (induction strings)
    case (Cons s ss)
    have "CHR 0x0A \<notin> set (c_str s)" using Cons.prems [of s] by (auto simp: c_str_def dest: set_takeWhileD)
    then show ?case using Cons by (simp add: lines_of_line)
  qed simp
  ultimately show "lines_of (stackTrace (new_exception backtrace msg)) = map c_str strings" by simp
  show "ex_what (new_exception backtrace msg) = c_str msg"
    using assms(1) by (simp add: ex_what_def new_exception_def fillStackTrace_def)
qed

section \<open>Casts\<close>

definition implicit_cast :: "'a \<Rightarrow> 'a" where
  "implicit_cast f = f"

text \<open>A pointer is an object or NULL; whether the object is of the class cast to is an argument.\<close>

definition down_cast :: "(nat \<Rightarrow> bool) \<Rightarrow> nat option \<Rightarrow> nat option res" where
  "down_cast is_To f = assert_c (f = None \<or> (case f of Some obj \<Rightarrow> is_To obj | None \<Rightarrow> False)) (Inr f)"

lemma down_cast_upcast: "down_cast is_To f = Inr g \<Longrightarrow> implicit_cast g = f \<and> (\<forall>obj. g = Some obj \<longrightarrow> is_To obj)"
  by (auto simp: down_cast_def implicit_cast_def assert_c_def split: if_splits)

end
