(* ===== verification/RequestTypes.thy ===== *)
theory RequestTypes
  imports HttpContext
begin

text \<open>
  What the rest of the program may take for granted about a request that the parser has completed: a
  well-formedness condition on the context of a connection that every call of \<open>parseRequest\<close> keeps.
\<close>

section \<open>Well-formed requests\<close>

definition request_complete :: "http_request \<Rightarrow> bool" where
  "request_complete r \<longleftrightarrow>
     rq_method r \<noteq> kInvalid \<and> rq_version r \<noteq> kUnknown \<and>
     CHR '' '' \<notin> set (rq_path r) \<and> CHR ''?'' \<notin> set (rq_path r) \<and>
     CHR '' '' \<notin> set (rq_query r) \<and> (rq_query r = [] \<or> hd (rq_query r) = CHR ''?'') \<and>
     map_inv (rq_headers r) \<and> (\<forall>(field, value) \<in> set (rq_headers r). CHR '':'' \<notin> set field \<and> trimmed value)"

text \<open>The body is as long as the header \<open>Content-Length\<close> says, and empty without one.\<close>

definition body_complete :: "http_request \<Rightarrow> bool" where
  "body_complete r \<longleftrightarrow>
     (if getHeader ''Content-Length'' r = [] then rq_body r = []
      else \<exists>n. stoi (getHeader ''Content-Length'' r) = Inr n \<and> length (rq_body r) = size_t_of_int n)"

fun typed_in :: "parse_state \<Rightarrow> http_request \<Rightarrow> bool" where
  "typed_in kExpectRequestLine r \<longleftrightarrow> rq_headers r = [] \<and> rq_body r = [] \<and> (rq_method r = kInvalid \<longrightarrow> rq_query r = [])"
| "typed_in kExpectHeaders r \<longleftrightarrow> request_complete r \<and> rq_body r = []"
| "typed_in kExpectBody r \<longleftrightarrow> request_complete r \<and> rq_body r = [] \<and> getHeader ''Content-Length'' r \<noteq> []"
| "typed_in kGotAll r \<longleftrightarrow> request_complete r \<and> body_complete r"

definition context_typed :: "http_context \<Rightarrow> bool" where
  "context_typed c = typed_in (cx_state c) (cx_request c)"

text \<open>Inside the loop the local variable agrees with the header.\<close>

definition vars_typed :: "http_context \<Rightarrow> int option \<Rightarrow> bool" where
  "vars_typed c len \<longleftrightarrow> context_typed c \<and>
     (cx_state c = kExpectBody \<longrightarrow> (\<forall>n. len = Some n \<longrightarrow> stoi (getHeader ''Content-Length'' (cx_request c)) = Inr n))"

lemma new_context_typed: "context_typed new_context"
  by (simp add: context_typed_def new_context_def new_request_def)

lemma reset_typed: "context_typed (ctx_reset c)"
  by (simp add: context_typed_def ctx_reset_def request_swap_def new_request_def Let_def)

section \<open>The request line\<close>

lemma take_std_find_absent: "c \<notin> set (take (std_find c xs) xs)"
  unfolding take_std_find by (auto dest: set_takeWhileD)

lemma in_take_std_find: "d \<in> set (take (std_find c xs) xs) \<Longrightarrow> d \<in> set xs"
  by (rule in_set_takeD)

text \<open>The target, and what follows the method and its blank.\<close>

definition with_target :: "char list \<Rightarrow> http_request \<Rightarrow> http_request" where
  "with_target target r =
     (let question = std_find (CHR ''?'') target
      in if question \<noteq> length target then setQuery (drop question target) (setPath (take question target) r) else setPath target r)"

definition target_part :: "char list \<Rightarrow> http_request \<Rightarrow> bool \<times> http_request" where
  "target_part rest r =
     (let space = std_find (CHR '' '') rest
      in if space \<noteq> length rest
         then (let r = with_target (take space rest) r;
                   version = drop (space + 1) rest
               in if length version = 8 \<and> take 7 version = ''HTTP/1.''
                  then (if version ! 7 = CHR ''1'' then (True, setVersion kHttp11 r)
                        else if version ! 7 = CHR ''0'' then (True, setVersion kHttp10 r)
                        else (False, r))
                  else (False, r))
         else (False, r))"

lemma processRequestLine_split:
  "processRequestLine line r =
     (let space = std_find (CHR '' '') line
      in if space \<noteq> length line
         then rbind (setMethod (take space line) r) (\<lambda>(known, r). Inr (if known then target_part (drop (space + 1) line) r else (False, r)))
         else Inr (False, r))"
  by (cases "setMethod (take (std_find (CHR '' '') line) line) r") (auto simp: processRequestLine_def target_part_def with_target_def Let_def)

lemma set_path_query:
  "rq_query r = [] \<Longrightarrow> CHR '' '' \<notin> set target \<Longrightarrow>
    CHR '' '' \<notin> set (rq_path (with_target target r)) \<and> CHR ''?'' \<notin> set (rq_path (with_target target r)) \<and>
    CHR '' '' \<notin> set (rq_query (with_target target r)) \<and>
    (rq_query (with_target target r) = [] \<or> hd (rq_query (with_target target r)) = CHR ''?'')"
proof (cases "std_find (CHR ''?'') target = length target")
  case True
  then have "CHR ''?'' \<notin> set target" by (simp add: std_find_eq_length_iff)
  moreover assume "rq_query r = []" "CHR '' '' \<notin> set target"
  ultimately show ?thesis using True by (simp add: with_target_def setPath_def Let_def)
next
  case False
  then obtain ys zs where t: "target = ys @ CHR ''?'' # zs" "CHR ''?'' \<notin> set ys" "std_find (CHR ''?'') target = length ys"
    by (rule std_find_split)
  moreover assume "rq_query r = []" "CHR '' '' \<notin> set target"
  ultimately show ?thesis by (simp add: with_target_def setPath_def setQuery_def Let_def)
qed

lemma target_part_typed:
  assumes "rq_query r = []" "target_part rest r = (ok, r')"
  shows "rq_headers r' = rq_headers r \<and> rq_body r' = rq_body r \<and> rq_method r' = rq_method r"
    and "ok \<Longrightarrow> rq_version r' \<noteq> kUnknown \<and> CHR '' '' \<notin> set (rq_path r') \<and> CHR ''?'' \<notin> set (rq_path r') \<and>
      CHR '' '' \<notin> set (rq_query r') \<and> (rq_query r' = [] \<or> hd (rq_query r') = CHR ''?'')"
proof -
  let ?r = "with_target (take (std_find (CHR '' '') rest) rest) r"
  have same: "rq_headers ?r = rq_headers r \<and> rq_body ?r = rq_body r \<and> rq_method ?r = rq_method r"
    by (simp add: with_target_def setQuery_def setPath_def Let_def)
  then show "rq_headers r' = rq_headers r \<and> rq_body r' = rq_body r \<and> rq_method r' = rq_method r"
    using assms(2) by (auto simp: target_part_def Let_def setVersion_def split: if_splits)
  assume ok
  then obtain v where "v \<noteq> kUnknown" "r' = setVersion v ?r"
    using assms(2) by (auto simp: target_part_def Let_def split: if_splits)
  then show "rq_version r' \<noteq> kUnknown \<and> CHR '' '' \<notin> set (rq_path r') \<and> CHR ''?'' \<notin> set (rq_path r') \<and>
      CHR '' '' \<notin> set (rq_query r') \<and> (rq_query r' = [] \<or> hd (rq_query r') = CHR ''?'')"
    using set_path_query [OF assms(1) take_std_find_absent [of "CHR '' ''" rest]] by (simp add: setVersion_def)
qed

lemma request_line_typed:
  assumes "rq_headers r = []" "rq_body r = []" "rq_method r = kInvalid \<longrightarrow> rq_query r = []"
    and p: "processRequestLine line r = Inr (ok, r')"
  shows "rq_headers r' = [] \<and> rq_body r' = [] \<and> (rq_method r' = kInvalid \<longrightarrow> rq_query r' = [])" and "ok \<Longrightarrow> request_complete r'"
proof -
  let ?m = "method_of_string (take (std_find (CHR '' '') line) line)"
  have "(rq_headers r' = [] \<and> rq_body r' = [] \<and> (rq_method r' = kInvalid \<longrightarrow> rq_query r' = [])) \<and> (ok \<longrightarrow> request_complete r')"
  proof (cases "std_find (CHR '' '') line = length line")
    case True
    with p assms(1-3) show ?thesis by (simp add: processRequestLine_split)
  next
    case False
    with p have m: "rq_method r = kInvalid"
      "(ok, r') = (if ?m \<noteq> kInvalid then target_part (drop (std_find (CHR '' '') line + 1) line) (r\<lparr>rq_method := ?m\<rparr>) else (False, r\<lparr>rq_method := ?m\<rparr>))"
      by (auto simp: processRequestLine_split setMethod_def rbind_Inr_iff assert_c_def Let_def split: if_splits)
    show ?thesis
    proof (cases "?m = kInvalid")
      case True
      with m assms(1-3) show ?thesis by simp
    next
      case False
      with m have t: "target_part (drop (std_find (CHR '' '') line + 1) line) (r\<lparr>rq_method := ?m\<rparr>) = (ok, r')" by simp
      have "rq_query (r\<lparr>rq_method := ?m\<rparr>) = []" using m(1) assms(3) by simp
      note ty = target_part_typed [OF this t]
      show ?thesis using ty False assms(1,2) by (auto simp: request_complete_def)
    qed
  qed
  then show "rq_headers r' = [] \<and> rq_body r' = [] \<and> (rq_method r' = kInvalid \<longrightarrow> rq_query r' = [])" "ok \<Longrightarrow> request_complete r'" by simp_all
qed

section \<open>The header lines\<close>

lemma header_value_trimmed: "trimmed (header_value s)"
proof (cases "header_value s = []")
  case False
  let ?d = "dropWhile isspace s"
  have ne: "dropWhile isspace (rev ?d) \<noteq> []" using False by (simp add: header_value_def drop_trailing_space_eq)
  have split: "?d = header_value s @ rev (takeWhile isspace (rev ?d))"
    unfolding header_value_def drop_trailing_space_eq by (metis rev_append rev_rev_ident takeWhile_dropWhile_id)
  then have "hd ?d = hd (header_value s)" using False by (metis hd_append2)
  moreover have "?d \<noteq> []" using split False by (metis append_is_Nil_conv)
  ultimately have "\<not> isspace (hd (header_value s))" by (metis hd_dropWhile)
  moreover have "\<not> isspace (last (header_value s))"
    using hd_rev_dropWhile_last [OF ne] by (simp add: header_value_def drop_trailing_space_eq)
  ultimately show ?thesis by (simp add: trimmed_def)
qed (simp add: trimmed_def)

lemma map_put_items: "set (map_put k v m) \<subseteq> insert (k, v) (set m)"
  by (induction k v m rule: map_put.induct) auto

lemma addHeader_typed:
  assumes "request_complete r"
  shows "request_complete (addHeader line (std_find (CHR '':'') line) r)"
proof -
  let ?f = "take (std_find (CHR '':'') line) line" and ?v = "header_value (drop (std_find (CHR '':'') line + 1) line)"
  have "\<forall>(field, value) \<in> set (map_put ?f ?v (rq_headers r)). CHR '':'' \<notin> set field \<and> trimmed value"
    using assms map_put_items [of ?f ?v "rq_headers r"] take_std_find_absent [of "CHR '':''" line] header_value_trimmed
    unfolding request_complete_def by blast
  with assms show ?thesis by (auto simp: request_complete_def addHeader_def Let_def)
qed

lemma addHeader_body: "rq_body (addHeader line colon r) = rq_body r"
  by (simp add: addHeader_def Let_def)

section \<open>Every round keeps the type\<close>

lemma text_round_typed:
  assumes "vars_typed c len" "text_round t (c, cs, len) = Inr (go_on, ok, c', cs', len')"
  shows "vars_typed c' len'"
proof (cases "cx_state c")
  case kExpectRequestLine
  with assms(1) have r: "rq_headers (cx_request c) = []" "rq_body (cx_request c) = []" "rq_method (cx_request c) = kInvalid \<longrightarrow> rq_query (cx_request c) = []"
    by (auto simp: vars_typed_def context_typed_def)
  show ?thesis
  proof (cases "std_search kCRLF cs")
    case None
    with kExpectRequestLine assms show ?thesis by (simp add: text_round_def text_request_line_def)
  next
    case (Some i)
    with kExpectRequestLine assms(2) obtain okl rl where p: "processRequestLine (take i cs) (cx_request c) = Inr (okl, rl)"
      and c': "c' = (if okl then c\<lparr>cx_request := setReceiveTime t rl, cx_state := kExpectHeaders\<rparr> else c\<lparr>cx_request := rl\<rparr>)"
      by (auto simp: text_round_def text_request_line_def rbind_Inr_iff split: if_splits)
    from request_line_typed [OF r p] kExpectRequestLine show ?thesis
      by (cases okl) (auto simp: c' vars_typed_def context_typed_def request_complete_def setReceiveTime_def)
  qed
next
  case kExpectHeaders
  with assms(1) have r: "request_complete (cx_request c)" "rq_body (cx_request c) = []"
    by (auto simp: vars_typed_def context_typed_def)
  show ?thesis
  proof (cases "std_search kCRLF cs")
    case None
    with kExpectHeaders assms show ?thesis by (simp add: text_round_def text_header_line_def)
  next
    case (Some i)
    show ?thesis
    proof (cases "std_find (CHR '':'') (take i cs) = length (take i cs)")
      case False
      with kExpectHeaders assms(2) Some have "c' = c\<lparr>cx_request := addHeader (take i cs) (std_find (CHR '':'') (take i cs)) (cx_request c)\<rparr>"
        by (auto simp: text_round_def text_header_line_def Let_def)
      with kExpectHeaders addHeader_typed [OF r(1), of "take i cs"] r(2) show ?thesis
        by (simp add: vars_typed_def context_typed_def addHeader_body)
    next
      case True
      with kExpectHeaders assms(2) Some r show ?thesis
        by (auto simp: text_round_def text_header_line_def Let_def rbind_Inr_iff vars_typed_def context_typed_def body_complete_def
            split: if_splits)
    qed
  qed
next
  case kExpectBody
  with assms(1) have r: "request_complete (cx_request c)" "getHeader ''Content-Length'' (cx_request c) \<noteq> []"
    by (auto simp: vars_typed_def context_typed_def)
  from kExpectBody assms(2) obtain n where n: "len = Some n" by (cases len) (auto simp: text_round_def text_body_def)
  show ?thesis
  proof (cases "size_t_of_int n \<le> length cs")
    case False
    with kExpectBody assms n show ?thesis by (simp add: text_round_def text_body_def)
  next
    case True
    have "stoi (getHeader ''Content-Length'' (cx_request c)) = Inr n" using assms(1) kExpectBody n by (simp add: vars_typed_def)
    moreover have "getHeader f (setBody b r) = getHeader f r" for f b r by (simp add: getHeader_def setBody_def)
    ultimately show ?thesis
      using True kExpectBody assms(2) n r
      by (auto simp: text_round_def text_body_def vars_typed_def context_typed_def body_complete_def request_complete_def setBody_def min_def getHeader_def)
  qed
next
  case kGotAll
  with assms show ?thesis by (simp add: text_round_def)
qed

lemma text_loop_typed:
  "vars_typed c len \<Longrightarrow> text_loop t (c, cs, len) = Some (Inr (ok, c', cs')) \<Longrightarrow> context_typed c'"
proof (induction "length cs" arbitrary: c cs len rule: less_induct)
  case less
  from less.prems(2) have st: "cx_state c \<noteq> kGotAll" by (auto simp: text_loop.simps [of t c])
  with less.prems(2) obtain go_on okr cr csr lenr where round: "text_round t (c, cs, len) = Inr (go_on, okr, cr, csr, lenr)"
    and rest: "(if go_on then text_loop t (cr, csr, lenr) else Some (Inr (okr, cr, csr))) = Some (Inr (ok, c', cs'))"
    by (auto simp: text_loop.simps [of t c] split: sum.splits)
  note ty = text_round_typed [OF less.prems(1) round]
  show ?case
  proof (cases go_on)
    case True
    with text_round_consumes [of t c cs len okr cr csr lenr] round st have "length csr < length cs" by simp
    from less.hyps [OF this ty] True rest show ?thesis by simp
  next
    case False
    with rest ty show ?thesis by (simp add: vars_typed_def)
  qed
qed

text \<open>C40: \<open>parseRequest\<close> keeps the context of a connection well-formed, from a new or a reset context on; so a
  completed request has one of the five methods and one of the two versions, a path without blank and
  question mark, an empty query or one that begins with a question mark, an ordered table of headers
  whose names hold no colon and whose values are trimmed, and a body of the announced length.
\<close>

theorem parser_is_type_sound:
  assumes "context_typed c" "buffer_inv b" "parseRequest t c b = Some (Inr (ok, c', b'))"
  shows "context_typed c' \<and> context_typed (ctx_reset c') \<and> (gotAll c' \<longrightarrow> request_complete (cx_request c') \<and> body_complete (cx_request c'))"
proof -
  have "text_loop t (c, contents b, None) = Some (Inr (ok, c', contents b'))"
    using parseRequest_sim [OF assms(2), of t c] assms(3) by (simp add: text_parse_def)
  moreover have "vars_typed c None" using assms(1) by (simp add: vars_typed_def)
  ultimately have "context_typed c'" by (intro text_loop_typed)
  then show ?thesis using reset_typed [of c'] by (auto simp: context_typed_def gotAll_def)
qed

theorem parser_is_type_sound_witness:
  "\<exists>c' b'. parseRequest (Timestamp 5) new_context
       (appended (render_head kGet ''/a?x=1'' (CHR ''1'') [(''Host'', ''h'')]) (new_buffer 1024)) = Some (Inr (True, c', b')) \<and>
     gotAll c' \<and> request_complete (cx_request c') \<and> body_complete (cx_request c')"
proof -
  have ok: "head_ok kGet ''/a?x=1'' (CHR ''1'') [(''Host'', ''h'')]"
    by (simp add: head_ok_def headers_ok_def trimmed_def isspace_def)
  have inv: "buffer_inv (appended (render_head kGet ''/a?x=1'' (CHR ''1'') [(''Host'', ''h'')]) (new_buffer 1024))"
    by (rule appended_inv [OF new_buffer_inv])
  have cs: "contents (appended (render_head kGet ''/a?x=1'' (CHR ''1'') [(''Host'', ''h'')]) (new_buffer 1024))
      = render_head kGet ''/a?x=1'' (CHR ''1'') [(''Host'', ''h'')] @ []"
    by simp
  obtain c' b' where p: "parseRequest (Timestamp 5) new_context
       (appended (render_head kGet ''/a?x=1'' (CHR ''1'') [(''Host'', ''h'')]) (new_buffer 1024)) = Some (Inr (True, c', b'))"
    "gotAll c'"
    using parse_head_done [OF inv cs ok, of new_context "Timestamp 5"] by (auto simp: gotAll_def new_context_def)
  from parser_is_type_sound [OF new_context_typed inv p(1)] p show ?thesis by blast
qed

end
