(* ===== verification/LogFile.thy ===== *)
theory LogFile
  imports Logging
begin

text \<open>
  base/LogFile.h, base/LogFile.cc and the \<open>AppendFile\<close> of base/FileUtil.cc, and \<open>toFormattedString\<close> of
  base/Timestamp.cc. The times that time(NULL) returns and the numbers of bytes that the calls of
  fwrite accept are arguments; a \<open>LogFile\<close> remembers the files it has closed. The mutex of a thread-safe
  \<open>LogFile\<close> makes each operation one step.
\<close>

section \<open>AppendFile\<close>

record append_file =
  af_name :: "char list"
  af_disk :: "char list"
  af_buffer :: "char list"
  af_written :: nat

definition new_append_file :: "char list \<Rightarrow> append_file" where
  "new_append_file filename = \<lparr>af_name = filename, af_disk = [], af_buffer = [], af_written = 0\<rparr>"

text \<open>The answers \<open>ws\<close> of the next calls of fwrite; a call without an answer accepts everything.\<close>

definition af_write :: "nat list \<Rightarrow> char list \<Rightarrow> append_file \<Rightarrow> nat \<times> append_file" where
  "af_write ws logline f =
     (let n = (case ws of [] \<Rightarrow> length logline | w # _ \<Rightarrow> min w (length logline))
      in (n, f\<lparr>af_buffer := af_buffer f @ take n logline\<rparr>))"

function append_loop :: "nat list \<Rightarrow> char list \<Rightarrow> append_file \<Rightarrow> append_file" where
  "append_loop ws rest f =
     (if 0 < length rest then
        let (x, f') = af_write ws rest f in if x = 0 then f' else append_loop (tl ws) (drop x rest) f'
      else f)"
  by auto
termination
  by (relation "measure (\<lambda>(ws, rest, f). length rest)") auto

declare append_loop.simps [simp del]

definition af_append :: "nat list \<Rightarrow> char list \<Rightarrow> append_file \<Rightarrow> append_file" where
  "af_append ws logline f =
     (let (n, f) = af_write ws logline f; f = append_loop (tl ws) (drop n logline) f
      in f\<lparr>af_written := af_written f + length logline\<rparr>)"

definition af_flush :: "append_file \<Rightarrow> append_file" where
  "af_flush f = f\<lparr>af_disk := af_disk f @ af_buffer f, af_buffer := []\<rparr>"

definition af_bytes :: "append_file \<Rightarrow> char list" where
  "af_bytes f = af_disk f @ af_buffer f"

lemma append_loop_writes_all:
  "\<forall>w \<in> set ws. 0 < w \<Longrightarrow> af_bytes (append_loop ws rest f) = af_bytes f @ rest \<and> af_written (append_loop ws rest f) = af_written f"
proof (induction ws rest f rule: append_loop.induct)
  case (1 ws rest f)
  show ?case
  proof (cases "rest = []")
    case True
    then show ?thesis by (subst (1 2) append_loop.simps) simp
  next
    case False
    let ?n = "fst (af_write ws rest f)" and ?f = "snd (af_write ws rest f)"
    have n: "?n \<noteq> 0" "?n \<le> length rest" and f: "af_bytes ?f = af_bytes f @ take ?n rest" "af_written ?f = af_written f"
      using False "1.prems" by (auto simp: af_write_def Let_def af_bytes_def split: list.splits)
    have "\<forall>w \<in> set (tl ws). 0 < w" using "1.prems" by (cases ws) auto
    then have "af_bytes (append_loop (tl ws) (drop ?n rest) ?f) = af_bytes ?f @ drop ?n rest \<and>
        af_written (append_loop (tl ws) (drop ?n rest) ?f) = af_written ?f"
      using "1.IH" [of "af_write ws rest f" ?n ?f] False n by simp
    with False n f show ?thesis by (subst (1 2) append_loop.simps) (simp add: case_prod_beta Let_def)
  qed
qed

text \<open>When every call writes something the whole line is written; the count grows by its length in any case.\<close>

lemma af_append_writes_all:
  assumes "\<forall>w \<in> set ws. 0 < w"
  shows "af_bytes (af_append ws line f) = af_bytes f @ line" and "af_written (af_append ws line f) = af_written f + length line"
proof -
  let ?n = "fst (af_write ws line f)" and ?f = "snd (af_write ws line f)"
  have f: "af_bytes ?f @ drop ?n line = af_bytes f @ line" "af_written ?f = af_written f"
    by (simp_all add: af_write_def Let_def af_bytes_def)
  have "\<forall>w \<in> set (tl ws). 0 < w" using assms by (cases ws) auto
  from append_loop_writes_all [OF this, of "drop ?n line" ?f] f
  show "af_bytes (af_append ws line f) = af_bytes f @ line" "af_written (af_append ws line f) = af_written f + length line"
    by (simp_all add: af_append_def case_prod_beta Let_def af_bytes_def)
qed

lemma failed_write_is_counted:
  "af_append [0, 0] line f = f\<lparr>af_written := af_written f + length line\<rparr>"
  by (cases line) (simp_all add: af_append_def af_write_def append_loop.simps)

lemma af_flush_bytes [simp]: "af_bytes (af_flush f) = af_bytes f"
  by (simp add: af_flush_def af_bytes_def)

section \<open>LogFile\<close>

definition kRollPerSeconds :: int where "kRollPerSeconds = 60 * 60 * 24"

record log_file =
  lf_basename :: "char list"
  lf_rollSize :: nat
  lf_flushInterval :: int
  lf_checkEveryN :: int
  lf_count :: int
  lf_startOfPeriod :: int
  lf_lastRoll :: int
  lf_lastFlush :: int
  lf_file :: "append_file option"
  lf_closed :: "append_file list"

record process_info =
  pi_hostname :: "char list"
  pi_pid :: int

definition strftime_text :: "tm \<Rightarrow> char list" where
  "strftime_text t =
     ''.'' @ dec_int (tm_year t + 1900) @ fmt_zero 2 (tm_mon t + 1) @ fmt_zero 2 (tm_mday t) @ ''-'' @
     fmt_zero 2 (tm_hour t) @ fmt_zero 2 (tm_min t) @ fmt_zero 2 (tm_sec t) @ ''.''"

definition getLogFileName :: "process_info \<Rightarrow> char list \<Rightarrow> int \<Rightarrow> char list" where
  "getLogFileName p basename now =
     basename @ strftime_text (gmtime_r now) @ pi_hostname p @ snprintf 32 (''.'' @ dec_int (pi_pid p)) @ ''.log''"

definition rollFile :: "process_info \<Rightarrow> int \<Rightarrow> log_file \<Rightarrow> bool \<times> log_file" where
  "rollFile p now f =
     (let filename = getLogFileName p (lf_basename f) now;
          start = now sdiv kRollPerSeconds * kRollPerSeconds
      in if lf_lastRoll f < now then
           (True, f\<lparr>lf_lastRoll := now, lf_lastFlush := now, lf_startOfPeriod := start,
                    lf_file := Some (new_append_file filename),
                    lf_closed := lf_closed f @ (case lf_file f of Some old \<Rightarrow> [af_flush old] | None \<Rightarrow> [])\<rparr>)
         else (False, f))"

definition new_log_file :: "process_info \<Rightarrow> int \<Rightarrow> char list \<Rightarrow> nat \<Rightarrow> int \<Rightarrow> int \<Rightarrow> log_file res" where
  "new_log_file p now basename rollSize flushInterval checkEveryN =
     assert_c (CHR ''/'' \<notin> set basename)
       (Inr (snd (rollFile p now \<lparr>lf_basename = basename, lf_rollSize = rollSize, lf_flushInterval = flushInterval,
          lf_checkEveryN = checkEveryN, lf_count = 0, lf_startOfPeriod = 0, lf_lastRoll = 0, lf_lastFlush = 0,
          lf_file = None, lf_closed = []\<rparr>)))"

definition lf_flush :: "log_file \<Rightarrow> log_file res" where
  "lf_flush f = (case lf_file f of Some a \<Rightarrow> Inr (f\<lparr>lf_file := Some (af_flush a)\<rparr>) | None \<Rightarrow> Inl Null_pointer)"

text \<open>\<open>t1\<close> and \<open>t2\<close> are what the first and the second call of time(NULL) return.\<close>

definition append_unlocked :: "process_info \<Rightarrow> int \<Rightarrow> int \<Rightarrow> nat list \<Rightarrow> char list \<Rightarrow> log_file \<Rightarrow> log_file res" where
  "append_unlocked p t1 t2 ws logline f =
     (case lf_file f of
       None \<Rightarrow> Inl Null_pointer
     | Some a \<Rightarrow>
         let a = af_append ws logline a; f = f\<lparr>lf_file := Some a\<rparr> in
         if lf_rollSize f < af_written a then Inr (snd (rollFile p t1 f))
         else
           let f = f\<lparr>lf_count := lf_count f + 1\<rparr> in
           if lf_checkEveryN f \<le> lf_count f then
             let f = f\<lparr>lf_count := 0\<rparr>; now = t1;
                 thisPeriod = now sdiv kRollPerSeconds * kRollPerSeconds
             in if thisPeriod \<noteq> lf_startOfPeriod f then Inr (snd (rollFile p t2 f))
                else if lf_flushInterval f < now - lf_lastFlush f then lf_flush (f\<lparr>lf_lastFlush := now\<rparr>)
                else Inr f
           else Inr f)"

definition lf_bytes :: "log_file \<Rightarrow> char list" where
  "lf_bytes f = concat (map af_bytes (lf_closed f)) @ (case lf_file f of Some a \<Rightarrow> af_bytes a | None \<Rightarrow> [])"

lemma rollFile_keeps [simp]:
  "lf_bytes (snd (rollFile p now f)) = lf_bytes f" "lf_file f \<noteq> None \<Longrightarrow> lf_file (snd (rollFile p now f)) \<noteq> None"
  by (auto simp: rollFile_def Let_def lf_bytes_def new_append_file_def af_bytes_def af_flush_def split: option.splits)

lemma rollFile_Some [simp]: "lf_file f = Some a \<Longrightarrow> \<exists>b. lf_file (snd (rollFile p now f)) = Some b"
  by (simp add: rollFile_def Let_def)

lemma lf_bytes_fields [simp]:
  "lf_bytes (f\<lparr>lf_count := c\<rparr>) = lf_bytes f" "lf_bytes (f\<lparr>lf_lastFlush := t\<rparr>) = lf_bytes f"
  by (simp_all add: lf_bytes_def)

lemma lf_bytes_file:
  "lf_file f = Some a \<Longrightarrow> af_bytes b = af_bytes a @ line \<Longrightarrow> lf_bytes (f\<lparr>lf_file := Some b\<rparr>) = lf_bytes f @ line"
  by (simp add: lf_bytes_def)

text \<open>The files, one after the other, hold the lines in their order, however often the log is rolled.\<close>

lemma append_unlocked_bytes:
  assumes "lf_file f \<noteq> None" "\<forall>w \<in> set ws. 0 < w"
  obtains f' where "append_unlocked p t1 t2 ws line f = Inr f'" "lf_bytes f' = lf_bytes f @ line" "lf_file f' \<noteq> None"
proof -
  obtain a where a: "lf_file f = Some a" using assms(1) by auto
  let ?a = "af_append ws line a"
  have b: "af_bytes ?a = af_bytes a @ line" by (rule af_append_writes_all [OF assms(2)])
  have flush: "\<exists>f'. lf_flush g = Inr f' \<and> lf_bytes f' = lf_bytes g \<and> (\<exists>b. lf_file f' = Some b)" if "lf_file g = Some ?a" for g
    using that by (simp add: lf_flush_def lf_bytes_def)
  have "\<exists>f'. append_unlocked p t1 t2 ws line f = Inr f' \<and> lf_bytes f' = lf_bytes f @ line \<and> (\<exists>b. lf_file f' = Some b)"
    using lf_bytes_file [OF a b] flush [of "f\<lparr>lf_file := Some ?a, lf_count := 0, lf_lastFlush := t1\<rparr>"]
    by (simp add: append_unlocked_def a Let_def)
  with that show ?thesis by blast
qed

text \<open>A second roll in the same second is refused: the file grows beyond the roll size.\<close>

lemma no_second_roll_in_a_second: "now \<le> lf_lastRoll f \<Longrightarrow> rollFile p now f = (False, f)"
  by (simp add: rollFile_def Let_def)

section \<open>Timestamp::toFormattedString\<close>

definition toFormattedString :: "int \<Rightarrow> bool \<Rightarrow> char list" where
  "toFormattedString microSecondsSinceEpoch showMicroseconds =
     (let tm_time = gmtime_r (microSecondsSinceEpoch sdiv 1000000) in
      if showMicroseconds then
        let microseconds = cast_int (microSecondsSinceEpoch smod 1000000)
        in snprintf 32 (time_text tm_time @ ''.'' @ fmt_zero 6 microseconds)
      else snprintf 32 (time_text tm_time))"

end
