(* ===== verification/AsyncLogging.thy ===== *)
theory AsyncLogging
  imports LogFile Containers
begin

text \<open>
  base/AsyncLogging.h and base/AsyncLogging.cc: the threads that log fill buffers under a mutex, the
  logging thread collects the full ones and writes them to a \<open>LogFile\<close>. What a thread does while it holds
  the mutex is one step. The wait of the logging thread releases the mutex and may end at any time (it
  has a timeout), so its collecting is one step that other steps may precede.
\<close>

section \<open>The state\<close>

text \<open>Where the logging thread is: before its first assertion, after the latch, at the head of its loop, after collecting.\<close>

datatype backend = Not_started | Starting | Counted_down | Loop_head | Collected | Finished

text \<open>\<open>al_text\<close> and \<open>al_lost\<close> are not in the code: the messages that fit into a buffer, and whether buffers were dropped.\<close>

record async_logging =
  al_flushInterval :: int
  al_running :: bool
  al_basename :: "char list"
  al_rollSize :: nat
  al_currentBuffer :: fixed_buffer
  al_nextBuffer :: "fixed_buffer option"
  al_buffers :: "fixed_buffer list"
  al_backend :: backend
  al_output :: "log_file option"
  al_newBuffer1 :: "fixed_buffer option"
  al_newBuffer2 :: "fixed_buffer option"
  al_buffersToWrite :: "fixed_buffer list"
  al_text :: "char list"
  al_lost :: bool

definition new_large_buffer :: fixed_buffer where
  "new_large_buffer = fb_bzero (new_fixed_buffer (replicate kLargeBuffer (CHR 0x00)))"

definition new_async_logging :: "char list \<Rightarrow> nat \<Rightarrow> int \<Rightarrow> async_logging" where
  "new_async_logging basename rollSize flushInterval =
     \<lparr>al_flushInterval = flushInterval, al_running = False, al_basename = basename, al_rollSize = rollSize,
      al_currentBuffer = new_large_buffer, al_nextBuffer = Some new_large_buffer, al_buffers = [], al_backend = Not_started,
      al_output = None, al_newBuffer1 = None, al_newBuffer2 = None, al_buffersToWrite = [], al_text = [], al_lost = False\<rparr>"

section \<open>The threads that log\<close>

text \<open>\<open>fresh\<close> is what the array of a new buffer happens to hold.\<close>

definition al_append :: "char list \<Rightarrow> char list \<Rightarrow> async_logging \<Rightarrow> async_logging res" where
  "al_append fresh logline s =
     (let s' = s\<lparr>al_text := al_text s @ (if length logline < kLargeBuffer then logline else [])\<rparr> in
      if int (length logline) < fb_avail (al_currentBuffer s) then
        rbind (fb_append (al_currentBuffer s) logline) (\<lambda>b. Inr (s'\<lparr>al_currentBuffer := b\<rparr>))
      else
        let s' = s'\<lparr>al_buffers := al_buffers s @ [al_currentBuffer s]\<rparr>;
            (current, next) = (case al_nextBuffer s of Some b \<Rightarrow> (b, None) | None \<Rightarrow> (new_fixed_buffer fresh, None))
        in rbind (fb_append current logline) (\<lambda>b. Inr (s'\<lparr>al_currentBuffer := b, al_nextBuffer := next\<rparr>)))"

definition al_start :: "async_logging \<Rightarrow> async_logging res" where
  "al_start s = assert_c (al_backend s = Not_started) (Inr (s\<lparr>al_running := True, al_backend := Starting\<rparr>))"

definition al_stop :: "async_logging \<Rightarrow> async_logging" where
  "al_stop s = s\<lparr>al_running := False\<rparr>"

section \<open>The logging thread\<close>

definition al_enter :: "async_logging \<Rightarrow> async_logging res" where
  "al_enter s = assert_c (al_running s) (Inr (s\<lparr>al_backend := Counted_down\<rparr>))"

definition al_open :: "process_info \<Rightarrow> int \<Rightarrow> async_logging \<Rightarrow> async_logging res" where
  "al_open p now s =
     rbind (new_log_file p now (al_basename s) (al_rollSize s) 3 1024) (\<lambda>output.
       Inr (s\<lparr>al_output := Some output, al_newBuffer1 := Some new_large_buffer, al_newBuffer2 := Some new_large_buffer,
              al_buffersToWrite := [], al_backend := Loop_head\<rparr>))"

definition is_empty_buffer :: "fixed_buffer option \<Rightarrow> bool" where
  "is_empty_buffer b = (case b of Some b \<Rightarrow> fb_length b = 0 | None \<Rightarrow> False)"

definition al_collect :: "async_logging \<Rightarrow> async_logging res" where
  "al_collect s =
     assert_c (is_empty_buffer (al_newBuffer1 s)) (
     assert_c (is_empty_buffer (al_newBuffer2 s)) (
     assert_c (al_buffersToWrite s = []) (
       case al_newBuffer1 s of
         None \<Rightarrow> Inl Null_pointer
       | Some b \<Rightarrow>
           let s' = s\<lparr>al_currentBuffer := b, al_newBuffer1 := None, al_buffersToWrite := al_buffers s @ [al_currentBuffer s],
                      al_buffers := [], al_backend := Collected\<rparr>
           in Inr (if al_nextBuffer s = None then s'\<lparr>al_nextBuffer := al_newBuffer2 s, al_newBuffer2 := None\<rparr> else s'))))"

text \<open>The times and the answers of fwrite for the successive appends to the log file.\<close>

type_synonym file_io = "(int \<times> int \<times> nat list) list"

definition next_io :: "file_io \<Rightarrow> int \<times> int \<times> nat list" where
  "next_io io = (case io of [] \<Rightarrow> (0, 0, []) | x # _ \<Rightarrow> x)"

fun write_buffers :: "process_info \<Rightarrow> file_io \<Rightarrow> char list list \<Rightarrow> log_file \<Rightarrow> log_file res" where
  "write_buffers p io [] output = Inr output"
| "write_buffers p io (b # bs) output =
     (let (t1, t2, ws) = next_io io
      in rbind (append_unlocked p t1 t2 ws b output) (\<lambda>output. write_buffers p (tl io) bs output))"

definition drop_message :: "int \<Rightarrow> nat \<Rightarrow> char list" where
  "drop_message now n =
     snprintf 256 (''Dropped log messages at '' @ toFormattedString now True @ '', '' @ dec_nat (n - 2) @ '' larger buffers'' @ [CHR 0x0A])"

text \<open>A null \<open>newBuffer\<close> is refilled from the written buffers.\<close>

definition recycle :: "fixed_buffer option \<Rightarrow> fixed_buffer list \<Rightarrow> (fixed_buffer option \<times> fixed_buffer list) res" where
  "recycle b bs =
     (if b = None then assert_c (bs \<noteq> []) (Inr (Some (fb_reset (last bs)), butlast bs)) else Inr (b, bs))"

definition al_write :: "process_info \<Rightarrow> file_io \<Rightarrow> int \<Rightarrow> async_logging \<Rightarrow> async_logging res" where
  "al_write p io now s =
     assert_c (al_buffersToWrite s \<noteq> []) (
     case al_output s of
       None \<Rightarrow> Inl Null_pointer
     | Some output \<Rightarrow>
         let n = length (al_buffersToWrite s); dropping = 25 < n;
             bs = (if dropping then take 2 (al_buffersToWrite s) else al_buffersToWrite s)
         in rbind (write_buffers p io ((if dropping then [drop_message now n] else []) @ map fb_toString bs) output) (\<lambda>output.
            rbind (recycle (al_newBuffer1 s) (take 2 bs)) (\<lambda>(b1, bs).
            rbind (recycle (al_newBuffer2 s) bs) (\<lambda>(b2, bs).
            rbind (lf_flush output) (\<lambda>output.
            Inr (s\<lparr>al_newBuffer1 := b1, al_newBuffer2 := b2, al_buffersToWrite := [], al_output := Some output,
                   al_backend := Loop_head, al_lost := al_lost s \<or> dropping\<rparr>))))))"

definition al_finish :: "async_logging \<Rightarrow> async_logging res" where
  "al_finish s =
     (case al_output s of
       None \<Rightarrow> Inl Null_pointer
     | Some output \<Rightarrow> rbind (lf_flush output) (\<lambda>output. Inr (s\<lparr>al_output := Some output, al_backend := Finished\<rparr>)))"

datatype al_event =
    Append "char list" "char list"
  | Start
  | Stop
  | Enter
  | Open process_info int
  | Collect
  | Write process_info file_io int
  | Finish

text \<open>
  When a step can happen. \<open>stop\<close> waits for the thread it stops, so the thread has been started, and the
  program calls it after \<open>start\<close> has returned; the clock shows a time after 1970, the name of the log has no
  slash, and the disk takes at least one byte in every call.
\<close>

definition al_enabled :: "al_event \<Rightarrow> async_logging \<Rightarrow> bool" where
  "al_enabled e s =
     (case e of
       Append fresh logline \<Rightarrow> length fresh = kLargeBuffer
     | Start \<Rightarrow> al_backend s = Not_started
     | Stop \<Rightarrow> al_running s \<and> al_backend s \<notin> {Not_started, Starting}
     | Enter \<Rightarrow> al_backend s = Starting
     | Open p now \<Rightarrow> al_backend s = Counted_down \<and> 0 < now \<and> CHR ''/'' \<notin> set (al_basename s)
     | Collect \<Rightarrow> al_backend s = Loop_head \<and> al_running s
     | Write p io now \<Rightarrow> al_backend s = Collected \<and> (\<forall>(t1, t2, ws) \<in> set io. \<forall>w \<in> set ws. 0 < w)
     | Finish \<Rightarrow> al_backend s = Loop_head \<and> \<not> al_running s)"

definition al_do :: "al_event \<Rightarrow> async_logging \<Rightarrow> async_logging res" where
  "al_do e s =
     (case e of
       Append fresh logline \<Rightarrow> al_append fresh logline s
     | Start \<Rightarrow> al_start s
     | Stop \<Rightarrow> Inr (al_stop s)
     | Enter \<Rightarrow> al_enter s
     | Open p now \<Rightarrow> al_open p now s
     | Collect \<Rightarrow> al_collect s
     | Write p io now \<Rightarrow> al_write p io now s
     | Finish \<Rightarrow> al_finish s)"

definition al_init :: "async_logging \<Rightarrow> bool" where
  "al_init s \<longleftrightarrow> (\<exists>basename rollSize flushInterval. s = new_async_logging basename rollSize flushInterval)"

definition al_step :: "async_logging \<Rightarrow> async_logging \<Rightarrow> bool" where
  "al_step s s' \<longleftrightarrow> (\<exists>e. al_enabled e s \<and> al_do e s = Inr s')"

section \<open>The invariant\<close>

definition al_spare :: "async_logging \<Rightarrow> fixed_buffer set" where
  "al_spare s = set_option (al_nextBuffer s) \<union> set_option (al_newBuffer1 s) \<union> set_option (al_newBuffer2 s)"

definition al_buffers_inv :: "async_logging \<Rightarrow> bool" where
  "al_buffers_inv s \<longleftrightarrow>
     (\<forall>b \<in> set (al_buffersToWrite s) \<union> set (al_buffers s) \<union> {al_currentBuffer s}. fb_inv kLargeBuffer b) \<and>
     (\<forall>b \<in> al_spare s. fb_inv kLargeBuffer b \<and> fb_cur b = 0) \<and>
     (al_nextBuffer s = None \<longrightarrow> al_buffers s \<noteq> [])"

definition al_file_open :: "async_logging \<Rightarrow> bool" where
  "al_file_open s \<longleftrightarrow> (\<exists>f a. al_output s = Some f \<and> lf_file f = Some a)"

definition al_backend_inv :: "async_logging \<Rightarrow> bool" where
  "al_backend_inv s =
     (case al_backend s of
       Not_started \<Rightarrow> al_output s = None \<and> al_buffersToWrite s = []
     | Starting \<Rightarrow> al_output s = None \<and> al_buffersToWrite s = [] \<and> al_running s
     | Counted_down \<Rightarrow> al_output s = None \<and> al_buffersToWrite s = []
     | Loop_head \<Rightarrow> al_file_open s \<and> al_newBuffer1 s \<noteq> None \<and> al_newBuffer2 s \<noteq> None \<and> al_buffersToWrite s = []
     | Collected \<Rightarrow> al_file_open s \<and> al_buffersToWrite s \<noteq> [] \<and> (al_newBuffer2 s = None \<longrightarrow> 2 \<le> length (al_buffersToWrite s)) \<and> al_newBuffer1 s = None
     | Finished \<Rightarrow> al_file_open s)"

definition al_bytes :: "async_logging \<Rightarrow> char list" where
  "al_bytes s = (case al_output s of Some f \<Rightarrow> lf_bytes f | None \<Rightarrow> [])"

definition al_pending :: "async_logging \<Rightarrow> char list" where
  "al_pending s = concat (map fb_toString (al_buffersToWrite s @ al_buffers s @ [al_currentBuffer s]))"

text \<open>What the logging threads have appended and the logging thread has not collected.\<close>

definition al_front :: "async_logging \<Rightarrow> char list" where
  "al_front s = concat (map fb_toString (al_buffers s @ [al_currentBuffer s]))"

definition al_inv :: "async_logging \<Rightarrow> bool" where
  "al_inv s \<longleftrightarrow> al_buffers_inv s \<and> al_backend_inv s \<and> (\<not> al_lost s \<longrightarrow> al_bytes s @ al_pending s = al_text s)"

lemmas al_inv_defs = al_inv_def al_buffers_inv_def al_backend_inv_def al_spare_def al_file_open_def

lemma kLargeBuffer_pos [simp]: "0 < kLargeBuffer"
  by (simp add: kLargeBuffer_def)

lemma new_large_buffer_inv [simp]: "fb_inv kLargeBuffer new_large_buffer" "fb_cur new_large_buffer = 0" "fb_toString new_large_buffer = []"
  by (simp_all add: new_large_buffer_def fb_inv_def fb_bzero_def new_fixed_buffer_def fb_toString_def)

lemma al_inv_init: "al_init s \<Longrightarrow> al_inv s"
  by (auto simp: al_init_def new_async_logging_def al_inv_defs al_bytes_def al_pending_def)

text \<open>Appending to a buffer of the large size.\<close>

lemma large_append:
  assumes "fb_inv kLargeBuffer b"
  obtains b' where "fb_append b xs = Inr b'" "fb_inv kLargeBuffer b'"
    "fb_toString b' = (if int (length xs) < fb_avail b then fb_toString b @ xs else fb_toString b)"
proof -
  have "fb_cur b + (length xs + 1) \<le> kLargeBuffer \<longleftrightarrow> int (length xs) < fb_avail b"
    using assms by (auto simp: fb_avail_def fb_inv_def)
  with fb_append_prints [OF assms, of xs] that show ?thesis by (auto simp: prints_def)
qed

lemma empty_avail: "fb_inv kLargeBuffer b \<Longrightarrow> fb_cur b = 0 \<Longrightarrow> fb_toString b = [] \<and> fb_avail b = int kLargeBuffer"
  by (simp add: fb_inv_def fb_avail_def fb_toString_def)

lemma al_append_inv:
  assumes inv: "al_inv s" and fresh: "length fresh = kLargeBuffer"
  shows "\<exists>s'. al_append fresh line s = Inr s' \<and> al_inv s' \<and> al_backend s' = al_backend s \<and> al_running s' = al_running s \<and>
    al_lost s' = al_lost s \<and> al_front s' = al_front s @ (if length line < kLargeBuffer then line else [])"
proof (cases "int (length line) < fb_avail (al_currentBuffer s)")
  case True
  obtain b where b: "fb_append (al_currentBuffer s) line = Inr b" "fb_inv kLargeBuffer b" "fb_toString b = fb_toString (al_currentBuffer s) @ line"
    using large_append [of "al_currentBuffer s" line] inv True by (auto simp: al_inv_defs)
  have "length line < kLargeBuffer" using True inv by (auto simp: al_inv_defs fb_inv_def fb_avail_def)
  with b True inv show ?thesis
    by (auto simp: al_append_def Let_def al_inv_defs al_bytes_def al_pending_def al_front_def split: backend.splits)
next
  case False
  define cur where "cur = (case al_nextBuffer s of Some b \<Rightarrow> b | None \<Rightarrow> new_fixed_buffer fresh)"
  have cur: "fb_inv kLargeBuffer cur" "fb_cur cur = 0"
  proof -
    have new: "fb_inv kLargeBuffer (new_fixed_buffer fresh)" "fb_cur (new_fixed_buffer fresh) = 0"
      using fresh by (simp_all add: fb_inv_def new_fixed_buffer_def)
    have "\<forall>b \<in> set_option (al_nextBuffer s). fb_inv kLargeBuffer b \<and> fb_cur b = 0"
      using inv by (auto simp: al_inv_def al_buffers_inv_def al_spare_def)
    with new show "fb_inv kLargeBuffer cur" "fb_cur cur = 0" by (cases "al_nextBuffer s"; simp add: cur_def)+
  qed
  obtain b where b: "fb_append cur line = Inr b" "fb_inv kLargeBuffer b"
    "fb_toString b = (if int (length line) < fb_avail cur then fb_toString cur @ line else fb_toString cur)"
    by (rule large_append [OF cur(1)])
  have printed: "fb_toString b = (if length line < kLargeBuffer then line else [])" using b(3) empty_avail [OF cur] by simp
  have "al_append fresh line s =
      Inr (s\<lparr>al_text := al_text s @ (if length line < kLargeBuffer then line else []), al_buffers := al_buffers s @ [al_currentBuffer s],
             al_currentBuffer := b, al_nextBuffer := None\<rparr>)"
    using False b(1) by (auto simp: al_append_def Let_def cur_def split: option.splits)
  with b(2) printed inv show ?thesis
    by (auto simp: al_inv_defs al_bytes_def al_pending_def al_front_def split: backend.splits)
qed

lemma al_collect_inv:
  assumes "al_inv s" "al_backend s = Loop_head"
  shows "\<exists>s'. al_collect s = Inr s' \<and> al_inv s'"
proof -
  obtain b1 b2 where b: "al_newBuffer1 s = Some b1" "al_newBuffer2 s = Some b2" "al_buffersToWrite s = []"
    using assms by (auto simp: al_inv_defs)
  have c: "fb_cur b1 = 0" "fb_cur b2 = 0" "fb_inv kLargeBuffer b1" "fb_inv kLargeBuffer b2" using assms(1) b by (auto simp: al_inv_defs)
  show ?thesis
    using assms b c empty_avail [OF c(3,1)]
    by (cases "al_nextBuffer s")
      (auto simp: al_collect_def assert_c_def is_empty_buffer_def fb_length_def Let_def al_inv_defs al_bytes_def al_pending_def Suc_le_eq)
qed

lemma write_buffers_bytes:
  assumes "lf_file f \<noteq> None" "\<forall>(t1, t2, ws) \<in> set io. \<forall>w \<in> set ws. 0 < w"
  shows "\<exists>f'. write_buffers p io bs f = Inr f' \<and> lf_bytes f' = lf_bytes f @ concat bs \<and> lf_file f' \<noteq> None"
  using assms
proof (induction bs arbitrary: f io)
  case (Cons b bs)
  obtain t1 t2 ws where io: "next_io io = (t1, t2, ws)" by (cases "next_io io")
  have "\<forall>w \<in> set ws. 0 < w" using io Cons.prems(2) by (cases io) (auto simp: next_io_def)
  then obtain f1 where f1: "append_unlocked p t1 t2 ws b f = Inr f1" "lf_bytes f1 = lf_bytes f @ b" "lf_file f1 \<noteq> None"
    using append_unlocked_bytes [OF Cons.prems(1)] by metis
  have "\<forall>(t1, t2, ws) \<in> set (tl io). \<forall>w \<in> set ws. 0 < w" using Cons.prems(2) by (cases io) auto
  from Cons.IH [OF f1(3) this] f1(1,2) io show ?case by auto
qed simp

lemma recycle_spec:
  assumes "b = None \<Longrightarrow> bs \<noteq> []" "\<forall>x \<in> set bs. fb_inv kLargeBuffer x" "\<forall>x \<in> set_option b. fb_inv kLargeBuffer x \<and> fb_cur x = 0"
  obtains b' bs' where "recycle b bs = Inr (Some b', bs')" "fb_inv kLargeBuffer b'" "fb_cur b' = 0"
    "\<forall>x \<in> set bs'. fb_inv kLargeBuffer x" "bs' = (if b = None then butlast bs else bs)"
proof (cases b)
  case None
  have "fb_inv kLargeBuffer (fb_reset (last bs))" "fb_cur (fb_reset (last bs)) = 0"
    using assms(1,2) None last_in_set [of bs] by (auto simp: fb_reset_def fb_inv_def)
  moreover have "\<forall>x \<in> set (butlast bs). fb_inv kLargeBuffer x" using assms(2) by (meson in_set_butlastD)
  ultimately show ?thesis using that assms(1) None by (auto simp: recycle_def assert_c_def)
next
  case (Some x)
  with assms that show ?thesis by (auto simp: recycle_def)
qed

lemma lf_flush_open:
  assumes "lf_file f \<noteq> None"
  obtains f' a where "lf_flush f = Inr f'" "lf_bytes f' = lf_bytes f" "lf_file f' = Some a"
proof -
  from assms obtain a where "lf_file f = Some a" by auto
  then show ?thesis using that [of "f\<lparr>lf_file := Some (af_flush a)\<rparr>" "af_flush a"] by (simp add: lf_flush_def lf_bytes_def)
qed

lemma al_write_inv:
  assumes inv: "al_inv s" and pc: "al_backend s = Collected" and io: "\<forall>(t1, t2, ws) \<in> set io. \<forall>w \<in> set ws. 0 < w"
  shows "\<exists>s'. al_write p io now s = Inr s' \<and> al_inv s' \<and> al_backend s' = Loop_head \<and> al_running s' = al_running s \<and> al_front s' = al_front s"
proof -
  let ?w = "al_buffersToWrite s"
  define dropping where "dropping = (25 < length ?w)"
  define bs where "bs = (if dropping then take 2 ?w else ?w)"
  define msg where "msg = (if dropping then [drop_message now (length ?w)] else [])"
  obtain f where f: "al_output s = Some f" "lf_file f \<noteq> None" and w: "?w \<noteq> []" "al_newBuffer2 s = None \<Longrightarrow> 2 \<le> length ?w"
    and n1: "al_newBuffer1 s = None"
    using inv pc by (auto simp: al_inv_defs)
  have ok: "\<forall>x \<in> set bs. fb_inv kLargeBuffer x" "\<forall>x \<in> set_option (al_newBuffer2 s). fb_inv kLargeBuffer x \<and> fb_cur x = 0"
    using inv by (auto simp: al_inv_defs bs_def dest: in_set_takeD)
  obtain f1 where f1: "write_buffers p io (msg @ map fb_toString bs) f = Inr f1" "lf_bytes f1 = lf_bytes f @ concat (msg @ map fb_toString bs)" "lf_file f1 \<noteq> None"
    using write_buffers_bytes [OF f(2) io] by blast
  obtain f2 a where f2: "lf_flush f1 = Inr f2" "lf_bytes f2 = lf_bytes f1" "lf_file f2 = Some a" by (rule lf_flush_open [OF f1(3)])
  have t2: "take 2 bs \<noteq> []" "\<forall>x \<in> set (take 2 bs). fb_inv kLargeBuffer x" "al_newBuffer2 s = None \<Longrightarrow> 2 \<le> length (take 2 bs)"
    using w ok(1) by (auto simp: bs_def dest: in_set_takeD)
  obtain b1 bs1 where b1: "recycle (al_newBuffer1 s) (take 2 bs) = Inr (Some b1, bs1)" "fb_inv kLargeBuffer b1" "fb_cur b1 = 0"
    "\<forall>x \<in> set bs1. fb_inv kLargeBuffer x" "bs1 = butlast (take 2 bs)"
    using recycle_spec [of "al_newBuffer1 s" "take 2 bs"] t2(1,2) n1 by auto
  have n2: "al_newBuffer2 s = None \<Longrightarrow> bs1 \<noteq> []"
  proof -
    assume "al_newBuffer2 s = None"
    then have "0 < length bs1" using t2(3) by (simp add: b1(5))
    then show "bs1 \<noteq> []" by simp
  qed
  obtain b2 bs2 where b2: "recycle (al_newBuffer2 s) bs1 = Inr (Some b2, bs2)" "fb_inv kLargeBuffer b2" "fb_cur b2 = 0"
    by (rule recycle_spec [OF _ b1(4) ok(2)]) (use n2 in blast)+
  let ?s = "s\<lparr>al_newBuffer1 := Some b1, al_newBuffer2 := Some b2, al_buffersToWrite := [], al_output := Some f2, al_backend := Loop_head,
      al_lost := al_lost s \<or> dropping\<rparr>"
  have "al_write p io now s = Inr ?s"
    using w(1) f(1) f1(1) b1(1) b2(1) f2(1)
    by (simp add: al_write_def assert_c_def Let_def bs_def [symmetric] dropping_def [symmetric] msg_def [symmetric] n1)
  moreover have "al_buffers_inv ?s" using inv b1(2,3) b2(2,3) by (auto simp: al_inv_defs)
  moreover have "al_backend_inv ?s" using f2(3) by (simp add: al_backend_inv_def al_file_open_def)
  moreover have "al_bytes ?s @ al_pending ?s = al_text ?s" if "\<not> al_lost ?s"
  proof -
    have "\<not> al_lost s" "msg = []" "bs = ?w" using that by (simp_all add: msg_def bs_def)
    then show ?thesis using inv f(1) f1(2) f2(2) by (simp add: al_inv_def al_bytes_def al_pending_def)
  qed
  ultimately show ?thesis by (auto simp: al_inv_def al_front_def)
qed

lemma al_open_inv:
  assumes inv: "al_inv s" "al_backend s = Counted_down" and "0 < now" "CHR ''/'' \<notin> set (al_basename s)"
  shows "\<exists>s'. al_open p now s = Inr s' \<and> al_inv s'"
proof -
  obtain f a where f: "new_log_file p now (al_basename s) (al_rollSize s) 3 1024 = Inr f" "lf_file f = Some a" "lf_bytes f = []"
    using assms(3,4) by (auto simp: new_log_file_def assert_c_def rollFile_def Let_def lf_bytes_def new_append_file_def af_bytes_def)
  then show ?thesis
    using inv by (auto simp: al_open_def al_inv_defs al_bytes_def al_pending_def)
qed

lemma al_finish_inv:
  assumes "al_inv s" "al_backend s = Loop_head"
  shows "\<exists>s'. al_finish s = Inr s' \<and> al_inv s' \<and> al_backend s' = Finished \<and> al_front s' = al_front s"
proof -
  obtain f where f: "al_output s = Some f" "lf_file f \<noteq> None" using assms by (auto simp: al_inv_defs)
  obtain f' a where f': "lf_flush f = Inr f'" "lf_bytes f' = lf_bytes f" "lf_file f' = Some a" by (rule lf_flush_open [OF f(2)])
  then show ?thesis using assms f by (auto simp: al_finish_def al_inv_defs al_bytes_def al_pending_def al_front_def)
qed

lemma al_control_inv:
  assumes "al_inv s"
  shows "al_backend s = Not_started \<Longrightarrow> \<exists>s'. al_start s = Inr s' \<and> al_inv s'"
    and "al_backend s = Starting \<Longrightarrow> \<exists>s'. al_enter s = Inr s' \<and> al_inv s'"
    and "al_backend s \<noteq> Starting \<Longrightarrow> al_inv (al_stop s)"
  using assms
  by (auto simp: al_start_def al_enter_def al_stop_def assert_c_def al_inv_defs al_bytes_def al_pending_def split: backend.splits)

lemma al_event_inv:
  assumes inv: "al_inv s" and en: "al_enabled e s"
  shows "\<exists>s'. al_do e s = Inr s' \<and> al_inv s'"
proof (cases e)
  case (Append fresh line)
  with en have "length fresh = kLargeBuffer" by (simp add: al_enabled_def)
  from al_append_inv [OF inv this, of line] Append show ?thesis by (auto simp: al_do_def)
next
  case Start
  with en al_control_inv(1) [OF inv] show ?thesis by (simp add: al_do_def al_enabled_def)
next
  case Stop
  with en al_control_inv(3) [OF inv] show ?thesis by (simp add: al_do_def al_enabled_def)
next
  case Enter
  with en al_control_inv(2) [OF inv] show ?thesis by (simp add: al_do_def al_enabled_def)
next
  case (Open p now)
  with en al_open_inv [OF inv] show ?thesis by (simp add: al_do_def al_enabled_def)
next
  case Collect
  with en al_collect_inv [OF inv] show ?thesis by (simp add: al_do_def al_enabled_def)
next
  case (Write p io now)
  then have "al_backend s = Collected" "\<forall>(t1, t2, ws) \<in> set io. \<forall>w \<in> set ws. 0 < w" using en by (simp_all add: al_enabled_def)
  from al_write_inv [OF inv this] Write show ?thesis by (auto simp: al_do_def)
next
  case Finish
  with en have "al_backend s = Loop_head" by (simp add: al_enabled_def)
  from al_finish_inv [OF inv this] Finish show ?thesis by (auto simp: al_do_def)
qed

interpretation async_logging: invariant_system al_init al_step al_inv
  by unfold_locales (auto simp: al_inv_init al_step_def dest: al_event_inv)


lemma reach_al_do: "reach al_init al_step s \<Longrightarrow> al_enabled e s \<Longrightarrow> al_do e s = Inr s' \<Longrightarrow> reach al_init al_step s'"
  by (rule reach_step) (auto simp: al_step_def)

lemma reach_new: "reach al_init al_step (new_async_logging basename rollSize flushInterval)"
  by (rule reach_init) (auto simp: al_init_def)


text \<open>
  A message appended while the logging thread writes, just before \<open>stop\<close>, is never written: the thread
  leaves its loop without another look at the buffers.
\<close>

lemma stop_loses_messages:
  assumes inv: "al_inv s" "al_backend s = Collected" "al_running s" and line: "line \<noteq> []" "length line < kLargeBuffer"
    and fresh: "length fresh = kLargeBuffer"
  shows "\<exists>s1 s2 s3. al_append fresh line s = Inr s1 \<and> al_write p [] now (al_stop s1) = Inr s2 \<and> al_finish s2 = Inr s3 \<and>
    al_backend s3 = Finished \<and> al_front s3 = al_front s @ line \<and> al_front s3 \<noteq> []"
proof -
  obtain s1 where s1: "al_append fresh line s = Inr s1" "al_inv s1" "al_backend s1 = Collected" "al_front s1 = al_front s @ line"
    using al_append_inv [OF inv(1) fresh, of line] inv(2) line(2) by auto
  have stop: "al_inv (al_stop s1)" "al_backend (al_stop s1) = Collected" "al_front (al_stop s1) = al_front s1"
    using al_control_inv(3) [OF s1(2)] s1(3) by (simp_all add: al_stop_def al_front_def)
  obtain s2 where s2: "al_write p [] now (al_stop s1) = Inr s2" "al_inv s2" "al_backend s2 = Loop_head" "al_front s2 = al_front s1"
    using al_write_inv [OF stop(1,2), of "[]"] stop(3) by auto
  obtain s3 where "al_finish s2 = Inr s3" "al_backend s3 = Finished" "al_front s3 = al_front s2"
    using al_finish_inv [OF s2(2,3)] by auto
  with s1 s2 line(1) show ?thesis by auto
qed

end
