(* ===== verification/Mutex.thy ===== *)
theory Mutex
  imports Containers Timestamps
begin

text \<open>
  base/Mutex.h and base/Condition.h: the mutex of the kernel library with the field \<open>holder_\<close> the code
  keeps beside it, statement by statement, for any number of threads. The other theories take what a
  thread does while it holds a mutex as one step; the exclusion proved here is why they may.
  \<open>tid t\<close> is the number of the thread \<open>t\<close>, never 0.
\<close>

section \<open>The state\<close>

text \<open>
  Where a thread is: outside; in \<open>lock\<close> after pthread_mutex\_lock; in the section; in \<open>unlock\<close> after
  \<open>unassignHolder\<close>; in \<open>Condition::wait\<close> before pthread_cond\_wait, inside it, and after it.
\<close>

datatype position = Outside | Locked | In_section | Unlocking | Before_wait | In_wait | After_wait

record mutex =
  mx_owner :: "nat option"
  mx_holder :: int
  mx_positions :: "nat \<Rightarrow> position"

definition new_mutex :: mutex where
  "new_mutex = \<lparr>mx_owner = None, mx_holder = 0, mx_positions = (\<lambda>_. Outside)\<rparr>"

definition unassignHolder :: "mutex \<Rightarrow> mutex" where
  "unassignHolder m = m\<lparr>mx_holder := 0\<rparr>"

definition assignHolder :: "int \<Rightarrow> mutex \<Rightarrow> mutex" where
  "assignHolder tid m = m\<lparr>mx_holder := tid\<rparr>"

definition isLockedByThisThread :: "int \<Rightarrow> mutex \<Rightarrow> bool" where
  "isLockedByThisThread tid m \<longleftrightarrow> mx_holder m = tid"

definition assertLocked :: "int \<Rightarrow> mutex \<Rightarrow> unit res" where
  "assertLocked tid m = assert_c (isLockedByThisThread tid m) (Inr ())"

definition mutex_dtor :: "mutex \<Rightarrow> unit res" where
  "mutex_dtor m = assert_c (mx_holder m = 0) (Inr ())"

definition goes :: "nat \<Rightarrow> position \<Rightarrow> mutex \<Rightarrow> mutex" where
  "goes t p m = m\<lparr>mx_positions := (mx_positions m)(t := p)\<rparr>"

section \<open>The steps of a thread\<close>

text \<open>
  pthread_mutex\_lock returns to a thread when no thread owns the mutex; pthread_cond\_wait gives the mutex
  up and takes it again before it returns.
\<close>

inductive mx_step :: "(nat \<Rightarrow> int) \<Rightarrow> nat \<Rightarrow> mutex \<Rightarrow> mutex \<Rightarrow> bool" for tid :: "nat \<Rightarrow> int" and t :: nat where
  pthread_lock: "mx_positions m t = Outside \<Longrightarrow> mx_owner m = None \<Longrightarrow> mx_step tid t m (goes t Locked (m\<lparr>mx_owner := Some t\<rparr>))"
| lock_assigns: "mx_positions m t = Locked \<Longrightarrow> mx_step tid t m (goes t In_section (assignHolder (tid t) m))"
| unlock_unassigns: "mx_positions m t = In_section \<Longrightarrow> mx_step tid t m (goes t Unlocking (unassignHolder m))"
| pthread_unlock: "mx_positions m t = Unlocking \<Longrightarrow> mx_step tid t m (goes t Outside (m\<lparr>mx_owner := None\<rparr>))"
| wait_unassigns: "mx_positions m t = In_section \<Longrightarrow> mx_step tid t m (goes t Before_wait (unassignHolder m))"
| cond_wait_releases: "mx_positions m t = Before_wait \<Longrightarrow> mx_step tid t m (goes t In_wait (m\<lparr>mx_owner := None\<rparr>))"
| cond_wait_returns: "mx_positions m t = In_wait \<Longrightarrow> mx_owner m = None \<Longrightarrow> mx_step tid t m (goes t After_wait (m\<lparr>mx_owner := Some t\<rparr>))"
| wait_assigns: "mx_positions m t = After_wait \<Longrightarrow> mx_step tid t m (goes t In_section (assignHolder (tid t) m))"

inductive_cases mx_stepE: "mx_step tid t m m'"

definition mx_any_step :: "(nat \<Rightarrow> int) \<Rightarrow> mutex \<Rightarrow> mutex \<Rightarrow> bool" where
  "mx_any_step tid m m' \<longleftrightarrow> (\<exists>t. mx_step tid t m m')"

fun owns :: "position \<Rightarrow> bool" where
  "owns Outside = False" | "owns In_wait = False" | "owns _ = True"

text \<open>The mutex belongs to the one thread that is past its acquisition, and \<open>holder_\<close> names it exactly in its section.\<close>

definition mx_inv :: "(nat \<Rightarrow> int) \<Rightarrow> mutex \<Rightarrow> bool" where
  "mx_inv tid m \<longleftrightarrow>
     (\<forall>t. owns (mx_positions m t) \<longleftrightarrow> mx_owner m = Some t) \<and>
     mx_holder m = (case mx_owner m of Some t \<Rightarrow> if mx_positions m t = In_section then tid t else 0 | None \<Rightarrow> 0)"

lemma mx_inv_init: "mx_inv tid new_mutex"
  by (simp add: mx_inv_def new_mutex_def)

lemma mx_inv_owner: "mx_inv tid m \<Longrightarrow> owns (mx_positions m t) \<longleftrightarrow> mx_owner m = Some t"
  by (simp add: mx_inv_def)

lemma mx_inv_holder:
  "mx_inv tid m \<Longrightarrow> mx_holder m = (case mx_owner m of Some t \<Rightarrow> if mx_positions m t = In_section then tid t else 0 | None \<Rightarrow> 0)"
  by (simp add: mx_inv_def)

lemma goes_inv:
  assumes inv: "mx_inv tid m" and own: "mx_owner m = None \<or> mx_owner m = Some t"
    and pos: "mx_positions m' = (mx_positions m)(t := p)"
    and owner: "mx_owner m' = (if owns p then Some t else None)"
    and holder: "mx_holder m' = (if p = In_section then tid t else 0)"
  shows "mx_inv tid m'"
  unfolding mx_inv_def
proof (intro conjI allI)
  fix u
  have "\<not> owns (mx_positions m u)" if "u \<noteq> t"
    using mx_inv_owner [OF inv, of u] own that by auto
  then show "owns (mx_positions m' u) \<longleftrightarrow> mx_owner m' = Some u"
    by (cases "u = t") (simp_all add: pos owner)
qed (cases p; simp add: pos owner holder)

text \<open>Each step is of that form: the mutex is free or the thread's own, and owner and \<open>holder_\<close> follow the new position.\<close>

lemma mx_inv_step:
  assumes inv: "mx_inv tid m" and step: "mx_step tid t m m'"
  shows "mx_inv tid m'"
proof -
  have own: "mx_owner m = Some t" if "owns (mx_positions m t)" using that mx_inv_owner [OF inv] by simp
  have hol: "mx_holder m = 0" if "mx_positions m t \<noteq> In_section" "mx_owner m = None \<or> mx_owner m = Some t"
    using that mx_inv_holder [OF inv] by auto
  note upd = goes_inv [OF inv, of t m']
  note defs = goes_def assignHolder_def unassignHolder_def
  from step show ?thesis
  proof cases
    case pthread_lock
    with own hol show ?thesis by (intro upd [of Locked]) (simp_all add: defs)
  next
    case lock_assigns
    with own hol show ?thesis by (intro upd [of In_section]) (simp_all add: defs)
  next
    case unlock_unassigns
    with own hol show ?thesis by (intro upd [of Unlocking]) (simp_all add: defs)
  next
    case pthread_unlock
    with own hol show ?thesis by (intro upd [of Outside]) (simp_all add: defs)
  next
    case wait_unassigns
    with own hol show ?thesis by (intro upd [of Before_wait]) (simp_all add: defs)
  next
    case cond_wait_releases
    with own hol show ?thesis by (intro upd [of In_wait]) (simp_all add: defs)
  next
    case cond_wait_returns
    with own hol show ?thesis by (intro upd [of After_wait]) (simp_all add: defs)
  next
    case wait_assigns
    with own hol show ?thesis by (intro upd [of In_section]) (simp_all add: defs)
  qed
qed

interpretation mutex: invariant_system "\<lambda>m. m = new_mutex" "mx_any_step tid" "mx_inv tid" for tid
  by unfold_locales (auto simp: mx_inv_init mx_any_step_def intro: mx_inv_step)

text \<open>No two threads are in the section at once.\<close>

lemma mutual_exclusion:
  assumes "reach (\<lambda>m. m = new_mutex) (mx_any_step tid) m" "mx_positions m t = In_section" "mx_positions m u = In_section"
  shows "t = u"
proof -
  have "owns (mx_positions m t)" "owns (mx_positions m u)" using assms(2,3) by simp_all
  with mutex.reachable_inv [OF assms(1)] have "mx_owner m = Some t" "mx_owner m = Some u" by (simp_all add: mx_inv_def)
  then show ?thesis by simp
qed

text \<open>\<open>assertLocked\<close> succeeds for a thread exactly in its section, and a free mutex can be destroyed.\<close>

lemma assertLocked_iff:
  assumes "reach (\<lambda>m. m = new_mutex) (mx_any_step tid) m" "inj tid" "\<forall>t. tid t \<noteq> 0"
  shows "assertLocked (tid t) m = Inr () \<longleftrightarrow> mx_positions m t = In_section"
proof -
  have inv: "mx_inv tid m" by (rule mutex.reachable_inv [OF assms(1)])
  have "mx_holder m = tid t \<longleftrightarrow> mx_positions m t = In_section"
  proof (cases "mx_owner m")
    case None
    then have "mx_positions m t \<noteq> In_section" using mx_inv_owner [OF inv, of t] by auto
    with None mx_inv_holder [OF inv] assms(3) show ?thesis by simp
  next
    case (Some u)
    then have "t = u" if "mx_positions m t = In_section" using mx_inv_owner [OF inv, of t] that by simp
    with Some mx_inv_holder [OF inv] assms(2,3) show ?thesis by (cases "t = u") (auto simp: inj_eq)
  qed
  then show ?thesis by (simp add: assertLocked_def assert_c_def isLockedByThisThread_def)
qed

lemma free_mutex_destroyed:
  assumes "reach (\<lambda>m. m = new_mutex) (mx_any_step tid) m" "mx_owner m = None"
  shows "mutex_dtor m = Inr ()"
  using mutex.reachable_inv [OF assms(1)] assms(2) by (simp add: mx_inv_def mutex_dtor_def assert_c_def)

section \<open>The deadline of a timed wait\<close>

definition kNanoSecondsPerSecond :: int where "kNanoSecondsPerSecond = 1000000000"

text \<open>\<open>now\<close> is the time of clock_gettime as seconds and nanoseconds, \<open>seconds\<close> the double.\<close>

definition wait_deadline :: "int \<times> int \<Rightarrow> rat \<Rightarrow> int \<times> int" where
  "wait_deadline now seconds =
     (let (tv_sec, tv_nsec) = now;
          nanoseconds = trunc_rat (seconds * of_int kNanoSecondsPerSecond)
      in (tv_sec + (tv_nsec + nanoseconds) sdiv kNanoSecondsPerSecond, (tv_nsec + nanoseconds) smod kNanoSecondsPerSecond))"

text \<open>The deadline is that much later, and a time the kernel accepts.\<close>

lemma wait_deadline_later:
  assumes "0 \<le> nsec" "0 \<le> seconds" and d: "wait_deadline (sec, nsec) seconds = (dsec, dnsec)"
  shows "dsec * 10 ^ 9 + dnsec = sec * 10 ^ 9 + nsec + trunc_rat (seconds * 10 ^ 9)" and "0 \<le> dnsec \<and> dnsec < 10 ^ 9"
proof -
  define n where "n = nsec + trunc_rat (seconds * 10 ^ 9)"
  have n: "0 \<le> n" using assms(1,2) by (simp add: n_def trunc_rat_def)
  have dd: "dsec = sec + n div 10 ^ 9" "dnsec = n mod 10 ^ 9"
    using d n by (simp_all add: wait_deadline_def Let_def kNanoSecondsPerSecond_def sdiv_nonneg smod_nonneg n_def [simplified, symmetric])
  show "dsec * 10 ^ 9 + dnsec = sec * 10 ^ 9 + nsec + trunc_rat (seconds * 10 ^ 9)"
    using div_mult_mod_eq [of n "10 ^ 9"] unfolding dd by (simp add: n_def algebra_simps)
  show "0 \<le> dnsec \<and> dnsec < 10 ^ 9" unfolding dd by simp
qed

end
