(* ===== verification/BlockingQueue.thy ===== *)
theory BlockingQueue
  imports Containers
begin

text \<open>
  base/BlockingQueue.h, base/BoundedBlockingQueue.h and base/CountDownLatch.cc on top of base/Mutex.h
  and base/Condition.h. The threads of the program are numbered, and each has a status. What a thread
  does from taking the mutex to releasing it, or to giving it up in a wait, is one step; a waiting
  thread goes on when it is notified or for no reason, and then tests its condition again. Which waiting
  thread a \<open>notify\<close> wakes is not determined: it is an argument of the step.
\<close>

section \<open>Counting threads\<close>

definition num :: "('a \<Rightarrow> bool) \<Rightarrow> 'a list \<Rightarrow> nat" where
  "num P xs = length (filter P xs)"

lemma num_update:
  "i < length xs \<Longrightarrow> num P (xs[i := y]) + (if P (xs ! i) then 1 else 0) = num P xs + (if P y then 1 else 0)"
proof (induction xs arbitrary: i)
  case (Cons x xs)
  show ?case
  proof (cases i)
    case (Suc j)
    then have "j < length xs" using Cons.prems by simp
    from Cons.IH [OF this] show ?thesis by (simp add: Suc num_def)
  qed (simp add: num_def)
qed (simp add: num_def)

lemma num_0_iff: "num P xs = 0 \<longleftrightarrow> (\<forall>i < length xs. \<not> P (xs ! i))"
  by (metis num_def filter_empty_conv in_set_conv_nth length_0_conv)

lemma num_pos: "i < length xs \<Longrightarrow> P (xs ! i) \<Longrightarrow> 0 < num P xs"
  using num_0_iff [of P xs] by auto

lemma num_None: "\<not> list_ex P xs \<Longrightarrow> num P xs = 0"
  by (auto simp: num_def filter_empty_conv list_ex_iff)

section \<open>The threads at a queue\<close>

datatype 'a status =
    Idle
  | Putting 'a
  | Waiting_full 'a
  | Taking
  | Waiting_empty

text \<open>\<open>bq_put_log\<close> and \<open>bq_taken\<close> are not in the code: the items in the order in which they were put and taken.\<close>

record 'a blocking_queue =
  bq_queue :: "'a list"
  bq_capacity :: "nat option"
  bq_threads :: "'a status list"
  bq_put_log :: "'a list"
  bq_taken :: "'a list"

definition new_blocking_queue :: "nat option \<Rightarrow> nat \<Rightarrow> 'a blocking_queue" where
  "new_blocking_queue maxSize threads =
     \<lparr>bq_queue = [], bq_capacity = maxSize, bq_threads = replicate threads Idle, bq_put_log = [], bq_taken = []\<rparr>"

definition set_status :: "nat \<Rightarrow> 'a status \<Rightarrow> 'a blocking_queue \<Rightarrow> 'a blocking_queue" where
  "set_status t st q = q\<lparr>bq_threads := (bq_threads q)[t := st]\<rparr>"

definition bq_full :: "'a blocking_queue \<Rightarrow> bool" where
  "bq_full q = (case bq_capacity q of Some n \<Rightarrow> n \<le> length (bq_queue q) | None \<Rightarrow> False)"

definition bq_empty :: "'a blocking_queue \<Rightarrow> bool" where
  "bq_empty q \<longleftrightarrow> bq_queue q = []"

definition bq_size :: "'a blocking_queue \<Rightarrow> nat" where
  "bq_size q = length (bq_queue q)"

fun waits_full :: "'a status \<Rightarrow> bool" where
  "waits_full (Waiting_full _) = True" | "waits_full _ = False"

fun is_putting :: "'a status \<Rightarrow> bool" where
  "is_putting (Putting _) = True" | "is_putting _ = False"

text \<open>A woken thread has to take the mutex and to test its condition again.\<close>

fun woken :: "'a status \<Rightarrow> 'a status" where
  "woken (Waiting_full x) = Putting x" | "woken Waiting_empty = Taking" | "woken st = st"

definition notify :: "nat option \<Rightarrow> 'a blocking_queue \<Rightarrow> 'a blocking_queue" where
  "notify w q = (case w of Some t \<Rightarrow> set_status t (woken (bq_threads q ! t)) q | None \<Rightarrow> q)"

text \<open>The thread a \<open>notify\<close> of a condition may wake: some thread that waits for it, and one if there is any.\<close>

definition may_wake :: "('s \<Rightarrow> bool) \<Rightarrow> nat option \<Rightarrow> 's list \<Rightarrow> bool" where
  "may_wake waits w ts =
     (case w of Some t \<Rightarrow> t < length ts \<and> waits (ts ! t) | None \<Rightarrow> \<not> list_ex waits ts)"

section \<open>BlockingQueue\<close>

definition bq_put :: "nat \<Rightarrow> 'a \<Rightarrow> nat option \<Rightarrow> 'a blocking_queue \<Rightarrow> 'a blocking_queue" where
  "bq_put t x w q =
     notify w (set_status t Idle (q\<lparr>bq_queue := bq_queue q @ [x], bq_put_log := bq_put_log q @ [x]\<rparr>))"

definition bq_take :: "nat \<Rightarrow> 'a blocking_queue \<Rightarrow> 'a blocking_queue res" where
  "bq_take t q =
     (if bq_empty q then Inr (set_status t Waiting_empty q)
      else assert_c (\<not> bq_empty q)
        (let front = hd (bq_queue q)
         in Inr (set_status t Idle (q\<lparr>bq_queue := tl (bq_queue q), bq_taken := bq_taken q @ [front]\<rparr>))))"

section \<open>BoundedBlockingQueue\<close>

definition bbq_put :: "nat \<Rightarrow> 'a \<Rightarrow> nat option \<Rightarrow> 'a blocking_queue \<Rightarrow> 'a blocking_queue res" where
  "bbq_put t x w q =
     (if bq_full q then Inr (set_status t (Waiting_full x) q)
      else assert_c (\<not> bq_full q)
        (Inr (notify w (set_status t Idle (q\<lparr>bq_queue := bq_queue q @ [x], bq_put_log := bq_put_log q @ [x]\<rparr>)))))"

definition bbq_take :: "nat \<Rightarrow> nat option \<Rightarrow> 'a blocking_queue \<Rightarrow> 'a blocking_queue res" where
  "bbq_take t w q =
     (if bq_empty q then Inr (set_status t Waiting_empty q)
      else assert_c (\<not> bq_empty q)
        (let front = hd (bq_queue q)
         in Inr (notify w (set_status t Idle (q\<lparr>bq_queue := tl (bq_queue q), bq_taken := bq_taken q @ [front]\<rparr>)))))"

section \<open>Runs of a bounded queue\<close>

text \<open>
  The status of a thread inside \<open>put\<close> or \<open>take\<close> that wakes another one is already \<open>Idle\<close> at the notify,
  so it cannot wake itself.
\<close>

datatype 'a bq_event =
    Call_put nat 'a
  | Call_take nat
  | Put nat "nat option"
  | Take nat "nat option"
  | Spurious nat

definition bbq_enabled :: "'a bq_event \<Rightarrow> 'a blocking_queue \<Rightarrow> bool" where
  "bbq_enabled e q =
     (case e of
       Call_put t x \<Rightarrow> t < length (bq_threads q) \<and> bq_threads q ! t = Idle
     | Call_take t \<Rightarrow> t < length (bq_threads q) \<and> bq_threads q ! t = Idle
     | Put t w \<Rightarrow> t < length (bq_threads q) \<and> is_putting (bq_threads q ! t) \<and> may_wake ((=) Waiting_empty) w (bq_threads q)
     | Take t w \<Rightarrow> t < length (bq_threads q) \<and> bq_threads q ! t = Taking \<and> may_wake waits_full w (bq_threads q)
     | Spurious t \<Rightarrow> t < length (bq_threads q))"

definition bbq_do :: "'a bq_event \<Rightarrow> 'a blocking_queue \<Rightarrow> 'a blocking_queue res" where
  "bbq_do e q =
     (case e of
       Call_put t x \<Rightarrow> Inr (set_status t (Putting x) q)
     | Call_take t \<Rightarrow> Inr (set_status t Taking q)
     | Put t w \<Rightarrow> (case bq_threads q ! t of Putting x \<Rightarrow> bbq_put t x w q | _ \<Rightarrow> Inr q)
     | Take t w \<Rightarrow> bbq_take t w q
     | Spurious t \<Rightarrow> Inr (set_status t (woken (bq_threads q ! t)) q))"

definition bbq_step :: "'a blocking_queue \<Rightarrow> 'a blocking_queue \<Rightarrow> bool" where
  "bbq_step q q' \<longleftrightarrow> (\<exists>e. bbq_enabled e q \<and> bbq_do e q = Inr q')"

definition bbq_init :: "'a blocking_queue \<Rightarrow> bool" where
  "bbq_init q \<longleftrightarrow> (\<exists>maxSize threads. q = new_blocking_queue maxSize threads)"

text \<open>
  Nothing is lost or reordered, the bound is kept, and no wakeup is lost: as long as a thread waits for an
  item, there are as many threads on their way to take one as there are items; as long as a thread
  waits for room, as many on their way to put one as there are free places.
\<close>

definition bbq_inv :: "'a blocking_queue \<Rightarrow> bool" where
  "bbq_inv q \<longleftrightarrow>
     (case bq_capacity q of
        None \<Rightarrow> num waits_full (bq_threads q) = 0
      | Some n \<Rightarrow> length (bq_queue q) \<le> n \<and>
          (0 < num waits_full (bq_threads q) \<longrightarrow> n - length (bq_queue q) \<le> num is_putting (bq_threads q))) \<and>
     (0 < num ((=) Waiting_empty) (bq_threads q) \<longrightarrow> length (bq_queue q) \<le> num ((=) Taking) (bq_threads q)) \<and>
     bq_put_log q = bq_taken q @ bq_queue q"

lemma set_status_fields [simp]:
  "bq_queue (set_status t st q) = bq_queue q" "bq_capacity (set_status t st q) = bq_capacity q"
  "bq_put_log (set_status t st q) = bq_put_log q" "bq_taken (set_status t st q) = bq_taken q"
  "bq_threads (set_status t st q) = (bq_threads q)[t := st]"
  by (simp_all add: set_status_def)

lemma notify_fields [simp]:
  "bq_queue (notify w q) = bq_queue q" "bq_capacity (notify w q) = bq_capacity q"
  "bq_put_log (notify w q) = bq_put_log q" "bq_taken (notify w q) = bq_taken q"
  by (simp_all add: notify_def split: option.splits)

lemma bbq_inv_init: "bbq_init q \<Longrightarrow> bbq_inv q"
  by (auto simp: bbq_init_def bbq_inv_def new_blocking_queue_def num_def filter_empty_conv split: option.splits)

text \<open>How one thread that changes its status, and one that is woken, change the numbers.\<close>

lemma num_waits_full_woken:
  "i < length xs \<Longrightarrow> waits_full (xs ! i) \<Longrightarrow>
    num waits_full (xs[i := woken (xs ! i)]) + 1 = num waits_full xs \<and> num is_putting (xs[i := woken (xs ! i)]) = num is_putting xs + 1 \<and>
    num ((=) Waiting_empty) (xs[i := woken (xs ! i)]) = num ((=) Waiting_empty) xs \<and> num ((=) Taking) (xs[i := woken (xs ! i)]) = num ((=) Taking) xs"
  by (cases "xs ! i")
    (use num_update [of i xs waits_full] num_update [of i xs is_putting] num_update [of i xs "(=) Waiting_empty"] num_update [of i xs "(=) Taking"] in auto)

lemma num_waits_empty_woken:
  "i < length xs \<Longrightarrow> xs ! i = Waiting_empty \<Longrightarrow>
    num ((=) Waiting_empty) (xs[i := woken (xs ! i)]) + 1 = num ((=) Waiting_empty) xs \<and> num ((=) Taking) (xs[i := woken (xs ! i)]) = num ((=) Taking) xs + 1 \<and>
    num waits_full (xs[i := woken (xs ! i)]) = num waits_full xs \<and> num is_putting (xs[i := woken (xs ! i)]) = num is_putting xs"
  using num_update [of i xs waits_full Taking] num_update [of i xs is_putting Taking] num_update [of i xs "(=) Waiting_empty" Taking]
    num_update [of i xs "(=) Taking" Taking] by simp

lemma may_wake_elsewhere:
  assumes "may_wake waits w ts" "\<not> waits (ts ! t)" "\<not> waits st"
  shows "may_wake waits w (ts[t := st])"
proof (cases w)
  case None
  with assms show ?thesis
    by (auto simp: may_wake_def list_ex_iff dest: set_update_subset_insert [THEN subsetD])
next
  case (Some u)
  then have "u \<noteq> t" using assms by (auto simp: may_wake_def)
  with Some assms(1) show ?thesis by (simp add: may_wake_def)
qed

lemma notify_full_nums:
  assumes "may_wake waits_full w (bq_threads q)"
  shows "num ((=) Waiting_empty) (bq_threads (notify w q)) = num ((=) Waiting_empty) (bq_threads q)"
    and "num ((=) Taking) (bq_threads (notify w q)) = num ((=) Taking) (bq_threads q)"
    and "0 < num waits_full (bq_threads (notify w q)) \<Longrightarrow>
      0 < num waits_full (bq_threads q) \<and> num is_putting (bq_threads (notify w q)) = num is_putting (bq_threads q) + 1"
  using assms num_waits_full_woken [of "the w" "bq_threads q"] num_None [of waits_full "bq_threads q"]
  by (auto simp: may_wake_def notify_def split: option.splits)

lemma notify_empty_nums:
  assumes "may_wake ((=) Waiting_empty) w (bq_threads q)"
  shows "num waits_full (bq_threads (notify w q)) = num waits_full (bq_threads q)"
    and "num is_putting (bq_threads (notify w q)) = num is_putting (bq_threads q)"
    and "0 < num ((=) Waiting_empty) (bq_threads (notify w q)) \<Longrightarrow>
      0 < num ((=) Waiting_empty) (bq_threads q) \<and> num ((=) Taking) (bq_threads (notify w q)) = num ((=) Taking) (bq_threads q) + 1"
  using assms num_waits_empty_woken [of "the w" "bq_threads q"] num_None [of "(=) Waiting_empty" "bq_threads q"]
  by (auto simp: may_wake_def notify_def split: option.splits)

lemmas num_status = num_update [of _ _ waits_full] num_update [of _ _ is_putting] num_update [of _ _ "(=) Waiting_empty"] num_update [of _ _ "(=) Taking"]

lemma bbq_put_inv:
  assumes inv: "bbq_inv q" and t: "t < length (bq_threads q)" "bq_threads q ! t = Putting x"
    and w: "may_wake ((=) Waiting_empty) w (bq_threads q)"
  shows "\<exists>q'. bbq_put t x w q = Inr q' \<and> bbq_inv q'"
proof -
  have upd: "num waits_full ((bq_threads q)[t := st]) = num waits_full (bq_threads q) + (if waits_full st then 1 else 0)"
    "num is_putting ((bq_threads q)[t := st]) + 1 = num is_putting (bq_threads q) + (if is_putting st then 1 else 0)"
    "num ((=) Waiting_empty) ((bq_threads q)[t := st]) = num ((=) Waiting_empty) (bq_threads q) + (if Waiting_empty = st then 1 else 0)"
    "num ((=) Taking) ((bq_threads q)[t := st]) = num ((=) Taking) (bq_threads q) + (if Taking = st then 1 else 0)" for st
    using num_status [OF t(1), of st] t(2) by simp_all
  show ?thesis
  proof (cases "bq_full q")
    case True
    with inv upd [of "Waiting_full x"] show ?thesis by (auto simp: bbq_put_def bbq_inv_def bq_full_def split: option.splits)
  next
    case False
    let ?q = "set_status t Idle (q\<lparr>bq_queue := bq_queue q @ [x], bq_put_log := bq_put_log q @ [x]\<rparr>)"
    have "may_wake ((=) Waiting_empty) w (bq_threads ?q)"
      using may_wake_elsewhere [OF w, of t Idle] t(2) by simp
    note nums = notify_empty_nums [OF this]
    show ?thesis
      using False inv nums upd [of Idle] by (auto simp: bbq_put_def assert_c_def bbq_inv_def bq_full_def split: option.splits)
  qed
qed

lemma bbq_take_inv:
  assumes inv: "bbq_inv q" and t: "t < length (bq_threads q)" "bq_threads q ! t = Taking"
    and w: "may_wake waits_full w (bq_threads q)"
  shows "\<exists>q'. bbq_take t w q = Inr q' \<and> bbq_inv q'"
proof -
  have upd: "num waits_full ((bq_threads q)[t := st]) = num waits_full (bq_threads q) + (if waits_full st then 1 else 0)"
    "num is_putting ((bq_threads q)[t := st]) = num is_putting (bq_threads q) + (if is_putting st then 1 else 0)"
    "num ((=) Waiting_empty) ((bq_threads q)[t := st]) = num ((=) Waiting_empty) (bq_threads q) + (if Waiting_empty = st then 1 else 0)"
    "num ((=) Taking) ((bq_threads q)[t := st]) + 1 = num ((=) Taking) (bq_threads q) + (if Taking = st then 1 else 0)" for st
    using num_status [OF t(1), of st] t(2) by simp_all
  show ?thesis
  proof (cases "bq_queue q")
    case Nil
    with inv upd [of Waiting_empty] show ?thesis by (auto simp: bbq_take_def bq_empty_def bbq_inv_def split: option.splits)
  next
    case (Cons y ys)
    let ?q = "set_status t Idle (q\<lparr>bq_queue := ys, bq_taken := bq_taken q @ [y]\<rparr>)"
    have "may_wake waits_full w (bq_threads ?q)" using may_wake_elsewhere [OF w, of t Idle] t(2) by simp
    note nums = notify_full_nums [OF this]
    show ?thesis
      using Cons inv nums upd [of Idle] by (auto simp: bbq_take_def bq_empty_def assert_c_def bbq_inv_def split: option.splits)
  qed
qed

lemma bbq_event_inv:
  assumes inv: "bbq_inv q" and en: "bbq_enabled e q"
  shows "\<exists>q'. bbq_do e q = Inr q' \<and> bbq_inv q'"
proof (cases e)
  case (Call_put t x)
  with inv en num_status [of t "bq_threads q" "Putting x"] show ?thesis
    by (auto simp: bbq_do_def bbq_enabled_def bbq_inv_def split: option.splits)
next
  case (Call_take t)
  with inv en num_status [of t "bq_threads q" Taking] show ?thesis
    by (auto simp: bbq_do_def bbq_enabled_def bbq_inv_def split: option.splits)
next
  case (Put t w)
  with en obtain x where "bq_threads q ! t = Putting x" by (cases "bq_threads q ! t") (auto simp: bbq_enabled_def)
  with Put en bbq_put_inv [OF inv] show ?thesis by (simp add: bbq_do_def bbq_enabled_def)
next
  case (Take t w)
  with en bbq_take_inv [OF inv] show ?thesis by (simp add: bbq_do_def bbq_enabled_def)
next
  case (Spurious t)
  with en have t: "t < length (bq_threads q)" by (simp add: bbq_enabled_def)
  show ?thesis
  proof (cases "bq_threads q ! t")
    case (Waiting_full x)
    with Spurious inv num_waits_full_woken [OF t] show ?thesis by (auto simp: bbq_do_def bbq_inv_def split: option.splits)
  next
    case Waiting_empty
    with Spurious inv num_waits_empty_woken [OF t] show ?thesis by (auto simp: bbq_do_def bbq_inv_def split: option.splits)
  qed (use Spurious inv list_update_id [of "bq_threads q" t] in \<open>auto simp: bbq_do_def bbq_inv_def split: option.splits\<close>)
qed

interpretation bounded_queue: invariant_system bbq_init bbq_step bbq_inv
  by unfold_locales (auto simp: bbq_inv_init bbq_step_def dest: bbq_event_inv)

lemma bounded_queue_is_fifo:
  assumes "reach bbq_init bbq_step q"
  shows "bq_put_log q = bq_taken q @ bq_queue q" and "bq_capacity q = Some n \<Longrightarrow> length (bq_queue q) \<le> n"
  using bounded_queue.reachable_inv [OF assms] by (auto simp: bbq_inv_def)

text \<open>While there is an item no thread waits for one in vain: some thread is on its way to take it; likewise for room.\<close>

lemma bounded_queue_not_stuck:
  assumes "reach bbq_init bbq_step q"
  shows "t < length (bq_threads q) \<Longrightarrow> bq_threads q ! t = Waiting_empty \<Longrightarrow> \<not> bq_empty q \<Longrightarrow>
      \<exists>u < length (bq_threads q). bq_threads q ! u = Taking"
    and "t < length (bq_threads q) \<Longrightarrow> bq_threads q ! t = Waiting_full x \<Longrightarrow> \<not> bq_full q \<Longrightarrow>
      \<exists>u < length (bq_threads q). is_putting (bq_threads q ! u)"
  using bounded_queue.reachable_inv [OF assms] num_pos [of t "bq_threads q" "(=) Waiting_empty"] num_pos [of t "bq_threads q" waits_full]
    num_0_iff [of "(=) Taking" "bq_threads q"] num_0_iff [of is_putting "bq_threads q"]
  by (auto simp: bbq_inv_def bq_empty_def bq_full_def split: option.splits)

text \<open>A \<open>BlockingQueue\<close> is a bounded queue without a bound.\<close>

lemma unbounded_queue:
  assumes "bq_capacity q = None"
  shows "bbq_put t x w q = Inr (bq_put t x w q)" and "bbq_take t None q = bq_take t q"
  using assms by (simp_all add: bbq_put_def bq_put_def bbq_take_def bq_take_def bq_full_def notify_def assert_c_def Let_def)

text \<open>A queue of size 0 is full and empty at once: a thread that puts waits for ever.\<close>

lemma zero_capacity_blocks: "bq_capacity q = Some 0 \<Longrightarrow> bbq_put t x w q = Inr (set_status t (Waiting_full x) q)"
  by (simp add: bbq_put_def bq_full_def)

section \<open>CountDownLatch\<close>

record latch =
  cl_count :: int
  cl_waiting :: "nat list"
  cl_passed :: "nat list"

definition new_latch :: "int \<Rightarrow> latch" where
  "new_latch n = \<lparr>cl_count = n, cl_waiting = [], cl_passed = []\<rparr>"

definition cl_wait :: "nat \<Rightarrow> latch \<Rightarrow> latch" where
  "cl_wait t l = (if 0 < cl_count l then l\<lparr>cl_waiting := cl_waiting l @ [t]\<rparr> else l\<lparr>cl_passed := cl_passed l @ [t]\<rparr>)"

text \<open>The threads that notifyAll wakes find the count at 0 and pass.\<close>

definition countDown :: "latch \<Rightarrow> latch" where
  "countDown l =
     (let l = l\<lparr>cl_count := cl_count l - 1\<rparr>
      in if cl_count l = 0 then l\<lparr>cl_waiting := [], cl_passed := cl_passed l @ cl_waiting l\<rparr> else l)"

definition getCount :: "latch \<Rightarrow> int" where
  "getCount l = cl_count l"

text \<open>The threads pass exactly when the count has come down to 0, those that wait all at once.\<close>

lemma latch_opens:
  assumes "0 \<le> n"
  shows "((countDown ^^ k) (fold cl_wait ts (new_latch n))) =
    (if int k < n then \<lparr>cl_count = n - int k, cl_waiting = ts, cl_passed = []\<rparr>
     else \<lparr>cl_count = n - int k, cl_waiting = [], cl_passed = ts\<rparr>)"
proof (induction k)
  case 0
  have "fold cl_wait ts \<lparr>cl_count = n, cl_waiting = ws, cl_passed = ps\<rparr> =
      (if 0 < n then \<lparr>cl_count = n, cl_waiting = ws @ ts, cl_passed = ps\<rparr> else \<lparr>cl_count = n, cl_waiting = ws, cl_passed = ps @ ts\<rparr>)" for ws ps
    by (induction ts arbitrary: ws ps) (auto simp: cl_wait_def)
  then show ?case by (simp add: new_latch_def)
next
  case (Suc k)
  then show ?case by (auto simp: countDown_def Let_def)
qed

end
