(* ===== verification/ThreadPool.thy ===== *)
theory ThreadPool
  imports BlockingQueue CText "HOL-Library.Multiset"
begin

text \<open>
  base/ThreadPool.cc: the queue of tasks, the worker threads that take them, and the clients that call
  \<open>run\<close>, for any number of both. As in BlockingQueue a section under \<open>mutex_\<close> is one step. A task that
  itself calls \<open>run\<close> is a client too. A task is a boost::function, here \<open>None\<close> when it is empty.
\<close>

section \<open>The state\<close>

datatype 'a worker =
    Starting
  | Loop_test
  | Taking_task
  | Waiting_task
  | Running_task 'a
  | Exited

datatype 'a client = Client_idle | Client_putting "'a option" | Client_waiting "'a option"

text \<open>
  \<open>tp_joined\<close> stands for the \<open>joined_\<close> of the threads. The last four fields are not in the code: the
  tasks put into the queue and taken from it, those workers have finished, and those \<open>run\<close> called itself.
\<close>

record 'a thread_pool =
  tp_name :: "char list"
  tp_has_init :: bool
  tp_maxQueueSize :: nat
  tp_queue :: "'a option list"
  tp_running :: bool
  tp_joined :: bool
  tp_workers :: "'a worker list"
  tp_worker_names :: "char list list"
  tp_clients :: "'a client list"
  tp_inits :: nat
  tp_submitted :: "'a option list"
  tp_taken :: "'a option list"
  tp_finished :: "'a list"
  tp_called :: "'a list"

definition new_thread_pool :: "char list \<Rightarrow> nat \<Rightarrow> 'a thread_pool" where
  "new_thread_pool name clients =
     \<lparr>tp_name = name, tp_has_init = False, tp_maxQueueSize = 0, tp_queue = [], tp_running = False, tp_joined = False,
      tp_workers = [], tp_worker_names = [], tp_clients = replicate clients Client_idle, tp_inits = 0,
      tp_submitted = [], tp_taken = [], tp_finished = [], tp_called = []\<rparr>"

text \<open>The int becomes a size_t.\<close>

definition setMaxQueueSize :: "int \<Rightarrow> 'a thread_pool \<Rightarrow> 'a thread_pool" where
  "setMaxQueueSize maxSize p = p\<lparr>tp_maxQueueSize := nat (maxSize mod 2 ^ 64)\<rparr>"

definition setThreadInitCallback :: "'a thread_pool \<Rightarrow> 'a thread_pool" where
  "setThreadInitCallback p = p\<lparr>tp_has_init := True\<rparr>"

definition set_worker :: "nat \<Rightarrow> 'a worker \<Rightarrow> 'a thread_pool \<Rightarrow> 'a thread_pool" where
  "set_worker i w p = p\<lparr>tp_workers := (tp_workers p)[i := w]\<rparr>"

definition set_client :: "nat \<Rightarrow> 'a client \<Rightarrow> 'a thread_pool \<Rightarrow> 'a thread_pool" where
  "set_client i c p = p\<lparr>tp_clients := (tp_clients p)[i := c]\<rparr>"

fun woken_worker :: "'a worker \<Rightarrow> 'a worker" where
  "woken_worker Waiting_task = Taking_task" | "woken_worker w = w"

fun woken_client :: "'a client \<Rightarrow> 'a client" where
  "woken_client (Client_waiting x) = Client_putting x" | "woken_client c = c"

fun client_putting :: "'a client \<Rightarrow> bool" where
  "client_putting (Client_putting _) = True" | "client_putting _ = False"

fun client_waiting :: "'a client \<Rightarrow> bool" where
  "client_waiting (Client_waiting _) = True" | "client_waiting _ = False"

definition notify_worker :: "nat option \<Rightarrow> 'a thread_pool \<Rightarrow> 'a thread_pool" where
  "notify_worker n p = (case n of Some i \<Rightarrow> set_worker i (woken_worker (tp_workers p ! i)) p | None \<Rightarrow> p)"

definition notify_client :: "nat option \<Rightarrow> 'a thread_pool \<Rightarrow> 'a thread_pool" where
  "notify_client n p = (case n of Some i \<Rightarrow> set_client i (woken_client (tp_clients p ! i)) p | None \<Rightarrow> p)"

section \<open>The operations\<close>

text \<open>\<open>numThreads\<close> is not negative; all threads are created in one step.\<close>

definition tp_start :: "nat \<Rightarrow> 'a thread_pool \<Rightarrow> 'a thread_pool res" where
  "tp_start numThreads p =
     assert_c (tp_workers p = [])
       (Inr (p\<lparr>tp_running := True, tp_workers := replicate numThreads Starting,
               tp_worker_names := map (\<lambda>i. tp_name p @ snprintf 32 (dec_int (int i + 1))) [0..<numThreads],
               tp_inits := (if numThreads = 0 \<and> tp_has_init p then tp_inits p + 1 else tp_inits p)\<rparr>))"

text \<open>\<open>stop\<close> up to the end of its section, and the joins, which return when all threads have ended.\<close>

definition tp_stop :: "'a thread_pool \<Rightarrow> 'a thread_pool" where
  "tp_stop p = p\<lparr>tp_running := False, tp_workers := map woken_worker (tp_workers p)\<rparr>"

definition tp_join :: "'a thread_pool \<Rightarrow> 'a thread_pool res" where
  "tp_join p = assert_c (tp_workers p = [] \<or> \<not> tp_joined p) (Inr (p\<lparr>tp_joined := True\<rparr>))"

definition queueSize :: "'a thread_pool \<Rightarrow> nat" where
  "queueSize p = length (tp_queue p)"

definition isFull :: "'a thread_pool \<Rightarrow> bool" where
  "isFull p \<longleftrightarrow> 0 < tp_maxQueueSize p \<and> tp_maxQueueSize p \<le> length (tp_queue p)"

text \<open>\<open>run\<close> without workers calls the task, with workers it goes for the mutex; an empty function throws when called.\<close>

definition tp_run :: "nat \<Rightarrow> 'a option \<Rightarrow> 'a thread_pool \<Rightarrow> 'a thread_pool res" where
  "tp_run c task p =
     (if tp_workers p = []
      then (case task of Some x \<Rightarrow> Inr (p\<lparr>tp_called := tp_called p @ [x]\<rparr>) | None \<Rightarrow> Inl Null_pointer)
      else Inr (set_client c (Client_putting task) p))"

definition tp_put :: "nat \<Rightarrow> 'a option \<Rightarrow> nat option \<Rightarrow> 'a thread_pool \<Rightarrow> 'a thread_pool res" where
  "tp_put c task n p =
     (if isFull p then Inr (set_client c (Client_waiting task) p)
      else assert_c (\<not> isFull p)
        (Inr (notify_worker n (set_client c Client_idle
          (p\<lparr>tp_queue := tp_queue p @ [task], tp_submitted := tp_submitted p @ [task]\<rparr>)))))"

text \<open>\<open>take\<close>, and what \<open>runInThread\<close> does with its result: it runs a task that is not empty, and tests \<open>running_\<close> again.\<close>

fun after_take :: "'a option \<Rightarrow> 'a worker" where
  "after_take (Some x) = Running_task x" | "after_take None = Loop_test"

definition tp_take :: "nat \<Rightarrow> nat option \<Rightarrow> 'a thread_pool \<Rightarrow> 'a thread_pool" where
  "tp_take i n p =
     (if tp_queue p = [] \<and> tp_running p then set_worker i Waiting_task p
      else if tp_queue p \<noteq> [] then
        (let task = hd (tp_queue p);
             p = p\<lparr>tp_queue := tl (tp_queue p), tp_taken := tp_taken p @ [task]\<rparr>;
             p = (if 0 < tp_maxQueueSize p then notify_client n p else p)
         in set_worker i (after_take task) p)
      else set_worker i (after_take None) p)"

definition worker_start :: "nat \<Rightarrow> 'a thread_pool \<Rightarrow> 'a thread_pool" where
  "worker_start i p = set_worker i Loop_test (if tp_has_init p then p\<lparr>tp_inits := tp_inits p + 1\<rparr> else p)"

definition worker_test :: "nat \<Rightarrow> 'a thread_pool \<Rightarrow> 'a thread_pool" where
  "worker_test i p = set_worker i (if tp_running p then Taking_task else Exited) p"

text \<open>A task that throws ends the process: an \<open>Exception\<close> or std::exception by abort, any other because it leaves the thread.\<close>

definition worker_done :: "nat \<Rightarrow> bool \<Rightarrow> 'a thread_pool \<Rightarrow> 'a thread_pool res" where
  "worker_done i throws p =
     (case tp_workers p ! i of
        Running_task x \<Rightarrow> if throws then Inl Fatal else Inr (set_worker i Loop_test (p\<lparr>tp_finished := tp_finished p @ [x]\<rparr>))
      | _ \<Rightarrow> Inr p)"

definition thread_pool_dtor :: "'a thread_pool \<Rightarrow> 'a thread_pool" where
  "thread_pool_dtor p = (if tp_running p then tp_stop p else p)"

section \<open>Runs\<close>

datatype 'a tp_event =
    Start nat
  | Stop
  | Join
  | Run nat "'a option"
  | Client_put nat "nat option"
  | Worker_start nat
  | Worker_test nat
  | Worker_take nat "nat option"
  | Worker_done nat bool
  | Spurious_worker nat
  | Spurious_client nat

definition worker_is :: "nat \<Rightarrow> ('a worker \<Rightarrow> bool) \<Rightarrow> 'a thread_pool \<Rightarrow> bool" where
  "worker_is i P p \<longleftrightarrow> i < length (tp_workers p) \<and> P (tp_workers p ! i)"

definition client_is :: "nat \<Rightarrow> ('a client \<Rightarrow> bool) \<Rightarrow> 'a thread_pool \<Rightarrow> bool" where
  "client_is i P p \<longleftrightarrow> i < length (tp_clients p) \<and> P (tp_clients p ! i)"

fun is_running_task :: "'a worker \<Rightarrow> bool" where
  "is_running_task (Running_task _) = True" | "is_running_task _ = False"

definition tp_enabled :: "'a tp_event \<Rightarrow> 'a thread_pool \<Rightarrow> bool" where
  "tp_enabled e p =
     (case e of
       Start n \<Rightarrow> True
     | Stop \<Rightarrow> True
     | Join \<Rightarrow> \<not> tp_running p \<and> list_all ((=) Exited) (tp_workers p)
     | Run c x \<Rightarrow> client_is c ((=) Client_idle) p
     | Client_put c n \<Rightarrow> client_is c client_putting p \<and> may_wake ((=) Waiting_task) n (tp_workers p)
     | Worker_start i \<Rightarrow> worker_is i ((=) Starting) p
     | Worker_test i \<Rightarrow> worker_is i ((=) Loop_test) p
     | Worker_take i n \<Rightarrow> worker_is i ((=) Taking_task) p \<and> may_wake client_waiting n (tp_clients p)
     | Worker_done i throws \<Rightarrow> worker_is i is_running_task p
     | Spurious_worker i \<Rightarrow> worker_is i ((=) Waiting_task) p
     | Spurious_client c \<Rightarrow> client_is c client_waiting p)"

definition tp_do :: "'a tp_event \<Rightarrow> 'a thread_pool \<Rightarrow> 'a thread_pool res" where
  "tp_do e p =
     (case e of
       Start n \<Rightarrow> tp_start n p
     | Stop \<Rightarrow> Inr (tp_stop p)
     | Join \<Rightarrow> tp_join p
     | Run c x \<Rightarrow> tp_run c x p
     | Client_put c n \<Rightarrow> (case tp_clients p ! c of Client_putting x \<Rightarrow> tp_put c x n p | _ \<Rightarrow> Inr p)
     | Worker_start i \<Rightarrow> Inr (worker_start i p)
     | Worker_test i \<Rightarrow> Inr (worker_test i p)
     | Worker_take i n \<Rightarrow> Inr (tp_take i n p)
     | Worker_done i throws \<Rightarrow> worker_done i throws p
     | Spurious_worker i \<Rightarrow> Inr (set_worker i (woken_worker (tp_workers p ! i)) p)
     | Spurious_client c \<Rightarrow> Inr (set_client c (woken_client (tp_clients p ! c)) p))"

definition tp_step :: "'a thread_pool \<Rightarrow> 'a thread_pool \<Rightarrow> bool" where
  "tp_step p p' \<longleftrightarrow> (\<exists>e. tp_enabled e p \<and> tp_do e p = Inr p')"

definition tp_init :: "'a thread_pool \<Rightarrow> bool" where
  "tp_init p \<longleftrightarrow> (\<exists>name clients maxSize. p = setMaxQueueSize maxSize (new_thread_pool name clients) \<or>
                 p = setThreadInitCallback (setMaxQueueSize maxSize (new_thread_pool name clients)))"

section \<open>The invariant\<close>

fun task_of :: "'a worker \<Rightarrow> 'a list" where
  "task_of (Running_task x) = [x]" | "task_of _ = []"

fun callable :: "'a option \<Rightarrow> 'a list" where
  "callable (Some x) = [x]" | "callable None = []"

text \<open>
  Tasks leave the queue in the order in which they came; every task taken that can be called is run once;
  the bound is kept; as long as a client waits there are as many on their way to put a task as there are
  free places; as long as the pool runs and a worker waits, as many on their way to take a task as
  there are tasks; and when it has been stopped no worker waits.
\<close>

definition tp_inv :: "'a thread_pool \<Rightarrow> bool" where
  "tp_inv p \<longleftrightarrow>
     tp_submitted p = tp_taken p @ tp_queue p \<and>
     mset (concat (map callable (tp_taken p))) = mset (tp_finished p) + mset (concat (map task_of (tp_workers p))) \<and>
     (0 < tp_maxQueueSize p \<longrightarrow> length (tp_queue p) \<le> tp_maxQueueSize p) \<and>
     (0 < num client_waiting (tp_clients p) \<longrightarrow>
        0 < tp_maxQueueSize p \<and> tp_maxQueueSize p - length (tp_queue p) \<le> num client_putting (tp_clients p)) \<and>
     (0 < num ((=) Waiting_task) (tp_workers p) \<longrightarrow>
        tp_running p \<and> length (tp_queue p) \<le> num ((=) Taking_task) (tp_workers p))"

lemma set_worker_fields [simp]:
  "tp_workers (set_worker i w p) = (tp_workers p)[i := w]" "tp_clients (set_worker i w p) = tp_clients p"
  "tp_queue (set_worker i w p) = tp_queue p" "tp_maxQueueSize (set_worker i w p) = tp_maxQueueSize p"
  "tp_running (set_worker i w p) = tp_running p" "tp_submitted (set_worker i w p) = tp_submitted p"
  "tp_taken (set_worker i w p) = tp_taken p" "tp_finished (set_worker i w p) = tp_finished p"
  by (simp_all add: set_worker_def)

lemma set_client_fields [simp]:
  "tp_workers (set_client i c p) = tp_workers p" "tp_clients (set_client i c p) = (tp_clients p)[i := c]"
  "tp_queue (set_client i c p) = tp_queue p" "tp_maxQueueSize (set_client i c p) = tp_maxQueueSize p"
  "tp_running (set_client i c p) = tp_running p" "tp_submitted (set_client i c p) = tp_submitted p"
  "tp_taken (set_client i c p) = tp_taken p" "tp_finished (set_client i c p) = tp_finished p"
  by (simp_all add: set_client_def)

lemma notify_worker_fields [simp]:
  "tp_clients (notify_worker n p) = tp_clients p"
  "tp_queue (notify_worker n p) = tp_queue p" "tp_maxQueueSize (notify_worker n p) = tp_maxQueueSize p"
  "tp_running (notify_worker n p) = tp_running p" "tp_submitted (notify_worker n p) = tp_submitted p"
  "tp_taken (notify_worker n p) = tp_taken p" "tp_finished (notify_worker n p) = tp_finished p"
  by (simp_all add: notify_worker_def split: option.splits)

lemma notify_client_fields [simp]:
  "tp_workers (notify_client n p) = tp_workers p"
  "tp_queue (notify_client n p) = tp_queue p" "tp_maxQueueSize (notify_client n p) = tp_maxQueueSize p"
  "tp_running (notify_client n p) = tp_running p" "tp_submitted (notify_client n p) = tp_submitted p"
  "tp_taken (notify_client n p) = tp_taken p" "tp_finished (notify_client n p) = tp_finished p"
  by (simp_all add: notify_client_def split: option.splits)

text \<open>How one thread that changes its position changes the numbers and the running tasks.\<close>

lemma tasks_update:
  "i < length ws \<Longrightarrow>
    mset (concat (map task_of (ws[i := w]))) + mset (task_of (ws ! i)) = mset (concat (map task_of ws)) + mset (task_of w)"
proof (induction ws arbitrary: i)
  case (Cons v ws)
  show ?case
  proof (cases i)
    case (Suc j)
    with Cons.prems have "j < length ws" by simp
    from Cons.IH [OF this] show ?thesis by (simp add: Suc)
  qed simp
qed simp

lemmas worker_nums = num_update [of _ _ "(=) Waiting_task"] num_update [of _ _ "(=) Taking_task"]
lemmas client_nums = num_update [of _ _ client_waiting] num_update [of _ _ client_putting]

lemma notify_worker_nums:
  assumes "may_wake ((=) Waiting_task) n (tp_workers p)"
  shows "0 < num ((=) Waiting_task) (tp_workers (notify_worker n p)) \<Longrightarrow>
      0 < num ((=) Waiting_task) (tp_workers p) \<and>
      num ((=) Taking_task) (tp_workers (notify_worker n p)) = num ((=) Taking_task) (tp_workers p) + 1"
    and "mset (concat (map task_of (tp_workers (notify_worker n p)))) = mset (concat (map task_of (tp_workers p)))"
proof -
  have "mset (concat (map task_of (tp_workers (notify_worker n p)))) = mset (concat (map task_of (tp_workers p))) \<and>
    (0 < num ((=) Waiting_task) (tp_workers (notify_worker n p)) \<longrightarrow>
      0 < num ((=) Waiting_task) (tp_workers p) \<and>
      num ((=) Taking_task) (tp_workers (notify_worker n p)) = num ((=) Taking_task) (tp_workers p) + 1)"
  proof (cases n)
    case None
    with assms num_None [of "(=) Waiting_task" "tp_workers p"] show ?thesis by (simp add: may_wake_def notify_worker_def)
  next
    case (Some i)
    with assms have i: "i < length (tp_workers p)" "tp_workers p ! i = Waiting_task" by (simp_all add: may_wake_def)
    show ?thesis
      using Some i worker_nums [OF i(1), of Taking_task] tasks_update [OF i(1), of Taking_task] by (simp add: notify_worker_def)
  qed
  then show "0 < num ((=) Waiting_task) (tp_workers (notify_worker n p)) \<Longrightarrow>
      0 < num ((=) Waiting_task) (tp_workers p) \<and>
      num ((=) Taking_task) (tp_workers (notify_worker n p)) = num ((=) Taking_task) (tp_workers p) + 1"
    and "mset (concat (map task_of (tp_workers (notify_worker n p)))) = mset (concat (map task_of (tp_workers p)))"
    by auto
qed

lemma notify_client_nums:
  assumes "may_wake client_waiting n (tp_clients p)" "0 < num client_waiting (tp_clients (notify_client n p))"
  shows "0 < num client_waiting (tp_clients p)"
    and "num client_putting (tp_clients (notify_client n p)) = num client_putting (tp_clients p) + 1"
proof -
  have "0 < num client_waiting (tp_clients p) \<and> num client_putting (tp_clients (notify_client n p)) = num client_putting (tp_clients p) + 1"
  proof (cases n)
    case None
    with assms num_None [of client_waiting "tp_clients p"] show ?thesis by (simp add: may_wake_def notify_client_def)
  next
    case (Some i)
    with assms obtain x where i: "i < length (tp_clients p)" "tp_clients p ! i = Client_waiting x"
      by (cases "tp_clients p ! i") (simp_all add: may_wake_def)
    show ?thesis
      using Some i client_nums [OF i(1), of "Client_putting x"] by (simp add: notify_client_def)
  qed
  then show "0 < num client_waiting (tp_clients p)"
    and "num client_putting (tp_clients (notify_client n p)) = num client_putting (tp_clients p) + 1" by simp_all
qed

lemma tp_put_inv:
  assumes inv: "tp_inv p" and c: "c < length (tp_clients p)" "tp_clients p ! c = Client_putting x"
    and n: "may_wake ((=) Waiting_task) n (tp_workers p)"
  shows "\<exists>p'. tp_put c x n p = Inr p' \<and> tp_inv p'"
proof (cases "isFull p")
  case True
  with inv client_nums [OF c(1), of "Client_waiting x"] c(2) show ?thesis by (auto simp: tp_put_def tp_inv_def isFull_def)
next
  case False
  let ?p = "set_client c Client_idle (p\<lparr>tp_queue := tp_queue p @ [x], tp_submitted := tp_submitted p @ [x]\<rparr>)"
  have w: "may_wake ((=) Waiting_task) n (tp_workers ?p)" using n by simp
  show ?thesis
    using False inv notify_worker_nums [OF w] client_nums [OF c(1), of Client_idle] c(2)
    by (auto simp: tp_put_def tp_inv_def isFull_def assert_c_def)
qed

lemma tp_take_inv:
  assumes inv: "tp_inv p" and i: "i < length (tp_workers p)" "tp_workers p ! i = Taking_task"
    and n: "may_wake client_waiting n (tp_clients p)"
  shows "tp_inv (tp_take i n p)"
proof (cases "tp_queue p")
  case Nil
  with inv worker_nums [OF i(1), of Waiting_task] worker_nums [OF i(1), of Loop_test]
    tasks_update [OF i(1), of Waiting_task] tasks_update [OF i(1), of Loop_test] i(2)
  show ?thesis by (auto simp: tp_take_def tp_inv_def)
next
  case (Cons x xs)
  have at: "after_take x \<noteq> Waiting_task" "after_take x \<noteq> Taking_task" "task_of (after_take x) = callable x"
    by (cases x; simp)+
  let ?p = "p\<lparr>tp_queue := xs, tp_taken := tp_taken p @ [x]\<rparr>"
  have w: "may_wake client_waiting n (tp_clients ?p)" using n by simp
  show ?thesis
    using Cons inv notify_client_nums [OF w] worker_nums [OF i(1), of "after_take x"] tasks_update [OF i(1), of "after_take x"] i(2) at
    by (auto simp: tp_take_def tp_inv_def Let_def)
qed

lemma set_worker_inv:
  assumes inv: "tp_inv p" and i: "i < length (tp_workers p)"
    and "tp_workers p ! i \<noteq> Taking_task" "w \<noteq> Waiting_task" "task_of w = task_of (tp_workers p ! i)"
  shows "tp_inv (set_worker i w p)"
  using assms worker_nums [OF i, of w] tasks_update [OF i, of w] by (auto simp: tp_inv_def split: if_splits)

lemma worker_done_inv:
  assumes inv: "tp_inv p" and i: "i < length (tp_workers p)" and d: "worker_done i throws p = Inr p'"
  shows "tp_inv p'"
proof (cases "tp_workers p ! i")
  case (Running_task x)
  with inv worker_nums [OF i, of Loop_test] tasks_update [OF i, of Loop_test] d show ?thesis
    by (auto simp: worker_done_def tp_inv_def split: if_splits)
qed (use d inv in \<open>auto simp: worker_done_def\<close>)

lemma woken_worker_not_waiting: "woken_worker w \<noteq> Waiting_task"
  by (cases w) simp_all

lemma tp_stop_inv:
  assumes "tp_inv p"
  shows "tp_inv (tp_stop p)"
proof -
  have "num ((=) Waiting_task) (map woken_worker ws) = 0" for ws :: "'a worker list"
    using woken_worker_not_waiting by (auto simp: num_0_iff dest: sym)
  moreover have "task_of \<circ> woken_worker = (task_of :: 'a worker \<Rightarrow> 'a list)"
  proof
    show "(task_of \<circ> woken_worker) w = task_of w" for w :: "'a worker" by (cases w) simp_all
  qed
  ultimately show ?thesis using assms by (simp add: tp_inv_def tp_stop_def)
qed

lemma tp_init_inv: "tp_init p \<Longrightarrow> tp_inv p"
  by (auto simp: tp_init_def tp_inv_def setMaxQueueSize_def setThreadInitCallback_def new_thread_pool_def num_def filter_empty_conv)

lemma tp_start_inv: "tp_inv p \<Longrightarrow> tp_start n p = Inr p' \<Longrightarrow> tp_inv p'"
  by (auto simp: tp_start_def tp_inv_def assert_c_def num_def filter_empty_conv split: if_splits)

lemma tp_event_inv:
  assumes inv: "tp_inv p" and en: "tp_enabled e p" and d: "tp_do e p = Inr p'"
  shows "tp_inv p'"
proof (cases e)
  case (Start n)
  with d tp_start_inv [OF inv] show ?thesis by (simp add: tp_do_def)
next
  case Stop
  with d tp_stop_inv [OF inv] show ?thesis by (simp add: tp_do_def)
next
  case Join
  with d inv show ?thesis by (auto simp: tp_do_def tp_join_def assert_c_def tp_inv_def split: if_splits)
next
  case (Run c x)
  with en have c: "c < length (tp_clients p)" "tp_clients p ! c = Client_idle" by (auto simp: tp_enabled_def client_is_def)
  with Run d inv client_nums [OF c(1), of "Client_putting x"] show ?thesis
    by (auto simp: tp_do_def tp_run_def tp_inv_def split: if_splits option.splits)
next
  case (Client_put c n)
  with en obtain x where "c < length (tp_clients p)" "tp_clients p ! c = Client_putting x" "may_wake ((=) Waiting_task) n (tp_workers p)"
    by (cases "tp_clients p ! c") (auto simp: tp_enabled_def client_is_def)
  with Client_put d tp_put_inv [OF inv] show ?thesis by (force simp: tp_do_def)
next
  case (Worker_start i)
  with en have "i < length (tp_workers p)" "tp_workers p ! i = Starting" by (auto simp: tp_enabled_def worker_is_def)
  moreover have "tp_inv (p\<lparr>tp_inits := k\<rparr>)" for k using inv by (simp add: tp_inv_def)
  ultimately show ?thesis
    using Worker_start d inv by (cases "tp_has_init p") (auto simp: tp_do_def worker_start_def intro!: set_worker_inv)
next
  case (Worker_test i)
  with en have i: "i < length (tp_workers p)" "tp_workers p ! i = Loop_test" by (auto simp: tp_enabled_def worker_is_def)
  with Worker_test d inv show ?thesis by (cases "tp_running p") (auto simp: tp_do_def worker_test_def intro!: set_worker_inv)
next
  case (Worker_take i n)
  with en d tp_take_inv [OF inv, of i n] show ?thesis by (auto simp: tp_do_def tp_enabled_def worker_is_def)
next
  case (Worker_done i throws)
  with en d worker_done_inv [OF inv, of i] show ?thesis by (auto simp: tp_do_def tp_enabled_def worker_is_def)
next
  case (Spurious_worker i)
  with en have i: "i < length (tp_workers p)" "tp_workers p ! i = Waiting_task" by (auto simp: tp_enabled_def worker_is_def)
  with Spurious_worker d inv show ?thesis by (auto simp: tp_do_def intro!: set_worker_inv)
next
  case (Spurious_client c)
  with en obtain x where c: "c < length (tp_clients p)" "tp_clients p ! c = Client_waiting x"
    by (cases "tp_clients p ! c") (auto simp: tp_enabled_def client_is_def)
  with Spurious_client d inv client_nums [OF c(1), of "Client_putting x"] show ?thesis by (auto simp: tp_do_def tp_inv_def)
qed

interpretation thread_pool: invariant_system tp_init tp_step tp_inv
  by unfold_locales (auto simp: tp_init_inv tp_step_def dest: tp_event_inv)

text \<open>A run given by its events.\<close>

fun tp_run_events :: "'a tp_event list \<Rightarrow> 'a thread_pool \<Rightarrow> 'a thread_pool res" where
  "tp_run_events [] p = Inr p"
| "tp_run_events (e # es) p = (if tp_enabled e p then rbind (tp_do e p) (tp_run_events es) else Inl Invalid_argument)"

lemma tp_run_events_reach:
  "reach tp_init tp_step p \<Longrightarrow> tp_run_events es p = Inr q \<Longrightarrow> reach tp_init tp_step q"
proof (induction es arbitrary: p)
  case (Cons e es)
  then obtain p' where p': "tp_enabled e p" "tp_do e p = Inr p'" "tp_run_events es p' = Inr q"
    by (auto simp: rbind_Inr_iff split: if_splits)
  then have "tp_step p p'" by (auto simp: tp_step_def)
  with Cons.prems(1) have "reach tp_init tp_step p'" by (rule reach_step)
  then show ?case using p'(3) by (rule Cons.IH)
qed simp

lemmas pool_run_simps = new_thread_pool_def setMaxQueueSize_def tp_enabled_def tp_do_def tp_start_def worker_start_def tp_run_def
  tp_put_def tp_take_def isFull_def tp_stop_def worker_test_def tp_join_def worker_done_def client_is_def worker_is_def may_wake_def
  set_worker_def set_client_def notify_worker_def notify_client_def Let_def

section \<open>What the pool promises\<close>

definition thread_pool_ok :: "'a thread_pool \<Rightarrow> bool" where
  "thread_pool_ok p \<longleftrightarrow>
     tp_submitted p = tp_taken p @ tp_queue p \<and>
     mset (concat (map callable (tp_taken p))) = mset (tp_finished p) + mset (concat (map task_of (tp_workers p))) \<and>
     (0 < tp_maxQueueSize p \<longrightarrow> length (tp_queue p) \<le> tp_maxQueueSize p) \<and>
     (tp_queue p \<noteq> [] \<and> list_ex ((=) Waiting_task) (tp_workers p) \<longrightarrow> list_ex ((=) Taking_task) (tp_workers p)) \<and>
     (\<not> isFull p \<and> list_ex client_waiting (tp_clients p) \<longrightarrow> list_ex client_putting (tp_clients p)) \<and>
     (\<not> tp_running p \<longrightarrow> \<not> list_ex ((=) Waiting_task) (tp_workers p))"

lemma num_pos_iff: "0 < num P xs \<longleftrightarrow> list_ex P xs"
  by (simp add: num_def list_ex_iff filter_empty_conv)

text \<open>C39: In every reachable state of a thread pool the tasks have left the queue in the order in which they came, each
  task taken is run exactly once, a bounded queue keeps its bound, no worker and no client waits while a
  task or a free place is there for it and nobody is on the way to it, and after \<open>stop\<close> no worker waits.
\<close>

theorem thread_pool_runs_each_task_once:
  assumes "reach tp_init tp_step p"
  shows "thread_pool_ok p"
  using thread_pool.reachable_inv [OF assms]
  by (cases "tp_queue p") (auto simp: tp_inv_def thread_pool_ok_def isFull_def num_pos_iff [symmetric])

text \<open>A run with a bound of 1: the second client waits for room until the worker takes the first task.\<close>

definition pool_run_example :: "nat tp_event list" where
  "pool_run_example = [Start 1, Worker_start 0, Run 0 (Some 7), Client_put 0 None, Run 1 (Some 8), Client_put 1 None,
     Worker_test 0, Worker_take 0 (Some 1)]"

theorem thread_pool_runs_each_task_once_witness:
  "\<exists>p. tp_run_events pool_run_example (setMaxQueueSize 1 (new_thread_pool ''pool'' 2)) = Inr p \<and> thread_pool_ok p \<and>
     tp_taken p = [Some 7] \<and> tp_workers p = [Running_task 7]"
proof -
  have init: "reach tp_init tp_step (setMaxQueueSize 1 (new_thread_pool ''pool'' 2) :: nat thread_pool)"
    by (rule reach_init) (auto simp: tp_init_def)
  obtain p where p: "tp_run_events pool_run_example (setMaxQueueSize 1 (new_thread_pool ''pool'' 2)) = Inr p"
    "tp_taken p = [Some 7]" "tp_workers p = [Running_task 7]"
    by (simp add: pool_run_example_def pool_run_simps numeral_2_eq_2)
  with thread_pool_runs_each_task_once [OF tp_run_events_reach [OF init p(1)]] show ?thesis by blast
qed

section \<open>After stop\<close>

text \<open>The steps a worker of a stopped pool has at most before it ends.\<close>

fun steps_left :: "'a worker \<Rightarrow> nat" where
  "steps_left Exited = 0" | "steps_left Loop_test = 1" | "steps_left Starting = 2"
| "steps_left (Running_task _) = 2" | "steps_left Taking_task = 3" | "steps_left Waiting_task = 4"

definition pool_steps_left :: "'a thread_pool \<Rightarrow> nat" where
  "pool_steps_left p = sum_list (map steps_left (tp_workers p))"

lemma steps_left_update:
  "i < length ws \<Longrightarrow> sum_list (map steps_left (ws[i := w])) + steps_left (ws ! i) = sum_list (map steps_left ws) + steps_left w"
proof (induction ws arbitrary: i)
  case (Cons v ws)
  show ?case
  proof (cases i)
    case (Suc j)
    with Cons.prems have "j < length ws" by simp
    from Cons.IH [OF this] show ?thesis by (simp add: Suc)
  qed simp
qed simp

text \<open>Each step of a worker of a stopped pool brings it nearer to its end.\<close>

lemma stopped_worker_step:
  assumes "\<not> tp_running p" and i: "i < length (tp_workers p)"
    and e: "e \<in> {Worker_start i, Worker_test i, Worker_take i n, Worker_done i False, Spurious_worker i}"
    and en: "tp_enabled e p"
  shows "\<exists>p'. tp_do e p = Inr p' \<and> \<not> tp_running p' \<and> pool_steps_left p' < pool_steps_left p"
proof -
  have upd: "sum_list (map steps_left ((tp_workers p)[i := w])) < sum_list (map steps_left (tp_workers p))"
    if "steps_left w < steps_left (tp_workers p ! i)" for w
    using steps_left_update [OF i, of w] that by linarith
  have at: "steps_left (after_take x) < 3" for x :: "'a option" by (cases x) simp_all
  consider "e = Worker_start i" | "e = Worker_test i" | "e = Worker_take i n" | "e = Worker_done i False" | "e = Spurious_worker i"
    using e by blast
  then show ?thesis
  proof cases
    case 1
    with en assms(1) have "tp_workers p ! i = Starting" by (auto simp: tp_enabled_def worker_is_def)
    with 1 assms(1) upd [of Loop_test] show ?thesis by (cases "tp_has_init p") (simp_all add: tp_do_def worker_start_def pool_steps_left_def)
  next
    case 2
    with en assms(1) have "tp_workers p ! i = Loop_test" by (auto simp: tp_enabled_def worker_is_def)
    with 2 assms(1) upd [of Exited] show ?thesis by (simp add: tp_do_def worker_test_def pool_steps_left_def)
  next
    case 3
    with en assms(1) have "tp_workers p ! i = Taking_task" by (auto simp: tp_enabled_def worker_is_def)
    with 3 assms(1) at upd [of "after_take (hd (tp_queue p))"] upd [of Loop_test] show ?thesis
      by (simp add: tp_do_def tp_take_def pool_steps_left_def Let_def)
  next
    case 4
    with en obtain x where "tp_workers p ! i = Running_task x" by (cases "tp_workers p ! i") (auto simp: tp_enabled_def worker_is_def)
    with 4 assms(1) upd [of Loop_test] show ?thesis by (simp add: tp_do_def worker_done_def pool_steps_left_def)
  next
    case 5
    with en have "tp_workers p ! i = Waiting_task" by (auto simp: tp_enabled_def worker_is_def)
    with 5 assms(1) upd [of Taking_task] show ?thesis by (simp add: tp_do_def pool_steps_left_def)
  qed
qed

text \<open>As long as some worker of a stopped pool has not ended, one of its steps can be taken; then the joins of \<open>stop\<close> return.\<close>

lemma stopped_pool_progress:
  assumes r: "reach tp_init tp_step p" and "\<not> tp_running p" and "\<not> list_all ((=) Exited) (tp_workers p)"
  shows "\<exists>e p'. tp_enabled e p \<and> tp_do e p = Inr p' \<and> \<not> tp_running p' \<and> pool_steps_left p' < pool_steps_left p"
proof -
  from assms(3) obtain i where i: "i < length (tp_workers p)" "tp_workers p ! i \<noteq> Exited"
    by (auto simp: list_all_length)
  have nw: "tp_workers p ! i \<noteq> Waiting_task"
    using thread_pool.reachable_inv [OF r] assms(2) num_pos [of i "tp_workers p" "(=) Waiting_task"] i(1) by (auto simp: tp_inv_def)
  obtain n where n: "may_wake client_waiting n (tp_clients p)"
    by (cases "list_ex client_waiting (tp_clients p)") (force simp: may_wake_def list_ex_length split: option.splits)+
  let ?e = "case tp_workers p ! i of Starting \<Rightarrow> Worker_start i | Loop_test \<Rightarrow> Worker_test i
    | Taking_task \<Rightarrow> Worker_take i n | _ \<Rightarrow> Worker_done i False"
  have en: "tp_enabled ?e p" using i nw n by (cases "tp_workers p ! i") (auto simp: tp_enabled_def worker_is_def)
  have "?e \<in> {Worker_start i, Worker_test i, Worker_take i n, Worker_done i False, Spurious_worker i}"
    by (cases "tp_workers p ! i") auto
  from stopped_worker_step [OF assms(2) i(1) this en] en show ?thesis by blast
qed

section \<open>What stop leaves behind\<close>

text \<open>A task in the queue when the pool stops is dropped: the worker tests \<open>running_\<close> before it looks at the queue.\<close>

lemma stop_drops_tasks:
  "\<exists>p. tp_run_events [Start 1, Worker_start 0, Run 0 (Some (7::nat)), Client_put 0 None, Stop, Worker_test 0, Join]
          (new_thread_pool ''pool'' 1) = Inr p \<and>
       tp_submitted p = [Some 7] \<and> tp_finished p = [] \<and> tp_workers p = [Exited]"
  by (simp add: pool_run_simps)

text \<open>
  A client that waits for room in \<open>run\<close> is not woken by \<open>stop\<close>; when the workers have ended with a full queue,
  it waits for ever, whatever else happens.
\<close>

definition stranded :: "nat \<Rightarrow> 'a option \<Rightarrow> 'a thread_pool \<Rightarrow> bool" where
  "stranded c x p \<longleftrightarrow> tp_workers p \<noteq> [] \<and> list_all ((=) Exited) (tp_workers p) \<and> isFull p \<and>
     c < length (tp_clients p) \<and> (tp_clients p ! c = Client_waiting x \<or> tp_clients p ! c = Client_putting x)"

lemma stranded_step:
  assumes "stranded c x p" "tp_step p p'"
  shows "stranded c x p'"
proof -
  from assms(2) obtain e where e: "tp_enabled e p" "tp_do e p = Inr p'" by (auto simp: tp_step_def)
  have ex: "tp_workers p ! i = Exited" if "i < length (tp_workers p)" for i
    using assms(1) that by (auto simp: stranded_def list_all_length)
  have map_ex: "map woken_worker (tp_workers p) = tp_workers p"
    by (rule nth_equalityI) (simp_all add: ex)
  show ?thesis
  proof (cases e)
    case (Client_put k n)
    with e obtain y where k: "k < length (tp_clients p)" "tp_clients p ! k = Client_putting y"
      by (cases "tp_clients p ! k") (auto simp: tp_enabled_def client_is_def)
    with e Client_put assms(1) show ?thesis
      by (cases "k = c") (auto simp: tp_do_def tp_put_def stranded_def isFull_def set_client_def)
  next
    case (Run k y)
    with e assms(1) show ?thesis
      by (cases "k = c") (auto simp: tp_do_def tp_enabled_def client_is_def tp_run_def stranded_def isFull_def set_client_def)
  next
    case (Spurious_client k)
    with e assms(1) show ?thesis
      by (cases "k = c") (auto simp: tp_do_def tp_enabled_def client_is_def stranded_def isFull_def set_client_def)
  qed (use e assms(1) ex map_ex in \<open>auto simp: tp_do_def tp_enabled_def worker_is_def tp_start_def tp_stop_def tp_join_def assert_c_def
      stranded_def isFull_def split: if_splits dest: ex\<close>)
qed

lemma stopped_pool_strands_client:
  assumes "stranded c x p" "reach (\<lambda>q. q = p) tp_step p'"
  shows "stranded c x p'"
  using assms(2) by (induction rule: reach.induct) (use assms(1) stranded_step in \<open>simp, blast\<close>)

text \<open>A pool does reach that point.\<close>

lemma stranded_example:
  "\<exists>p. tp_run_events [Start 1, Worker_start 0, Run 0 (Some 7), Client_put 0 None, Run 1 (Some 8), Client_put 1 None, Stop, Worker_test 0]
          (setMaxQueueSize 1 (new_thread_pool ''pool'' 2)) = Inr p \<and> stranded 1 (Some (8::nat)) p"
  by (simp add: pool_run_simps stranded_def numeral_2_eq_2)

end
