(* ===== verification/Thread.thy ===== *)
theory Thread
  imports Logging
begin

text \<open>
  base/Atomic.h, base/CurrentThread.h and base/Thread.cc: the atomic integers, the variables every thread
  has, and the life of a \<open>Thread\<close> object and of the kernel thread it starts. What pthread_create,
  pthread_join and the function of the thread answer are arguments.
\<close>

section \<open>AtomicIntegerT\<close>

text \<open>Each operation is one step; it returns its value and the new value of the integer.\<close>

definition compare_and_swap :: "'w::len word \<Rightarrow> 'w word \<Rightarrow> 'w word \<Rightarrow> 'w word \<times> 'w word" where
  "compare_and_swap oldval newval v = (v, if v = oldval then newval else v)"

definition atomic_get :: "'w::len word \<Rightarrow> 'w word \<times> 'w word" where
  "atomic_get v = compare_and_swap 0 0 v"

definition getAndAdd :: "'w::len word \<Rightarrow> 'w word \<Rightarrow> 'w word \<times> 'w word" where
  "getAndAdd x v = (v, v + x)"

definition addAndGet :: "'w::len word \<Rightarrow> 'w word \<Rightarrow> 'w word \<times> 'w word" where
  "addAndGet x v = (let (r, v') = getAndAdd x v in (r + x, v'))"

definition incrementAndGet :: "'w::len word \<Rightarrow> 'w word \<times> 'w word" where
  "incrementAndGet v = addAndGet 1 v"

definition decrementAndGet :: "'w::len word \<Rightarrow> 'w word \<times> 'w word" where
  "decrementAndGet v = addAndGet (- 1) v"

definition atomic_add :: "'w::len word \<Rightarrow> 'w word \<Rightarrow> 'w word" where
  "atomic_add x v = snd (getAndAdd x v)"

definition atomic_increment :: "'w::len word \<Rightarrow> 'w word" where
  "atomic_increment v = snd (incrementAndGet v)"

definition atomic_decrement :: "'w::len word \<Rightarrow> 'w word" where
  "atomic_decrement v = snd (decrementAndGet v)"

definition getAndSet :: "'w::len word \<Rightarrow> 'w word \<Rightarrow> 'w word \<times> 'w word" where
  "getAndSet newValue v = (v, newValue)"

lemma atomic_get_reads: "atomic_get v = (v, v)"
  by (simp add: atomic_get_def compare_and_swap_def)

lemma decrement_undoes: "snd (decrementAndGet (snd (incrementAndGet v))) = v" for v :: "'w::len word"
  by (simp add: decrementAndGet_def incrementAndGet_def addAndGet_def getAndAdd_def)

fun increments :: "nat \<Rightarrow> 'w::len word \<Rightarrow> 'w word list" where
  "increments 0 v = []"
| "increments (Suc n) v = (let (r, v') = incrementAndGet v in r # increments n v')"

lemma increments_eq: "increments n v = map (\<lambda>i. v + of_nat (Suc i)) [0..<n]"
proof (induction n arbitrary: v)
  case (Suc n)
  have "map (\<lambda>i. v + of_nat (Suc i)) [0..<Suc n] = (v + 1) # map (\<lambda>i. v + 1 + of_nat (Suc i)) [0..<n]"
    by (simp add: upt_rec [of 0 "Suc n"] map_Suc_upt [symmetric] comp_def add.assoc del: upt_Suc)
  then show ?case by (simp add: Suc.IH incrementAndGet_def addAndGet_def getAndAdd_def)
qed simp

text \<open>Whatever the order of the threads, no two of up to \<open>2 ^ w\<close> increments return the same number.\<close>

lemma increments_distinct:
  fixes v :: "'w::len word"
  assumes "n \<le> 2 ^ LENGTH('w)"
  shows "distinct (increments n v)"
proof -
  have "inj_on (\<lambda>i. v + of_nat (Suc i)) {0..<n}"
  proof (rule inj_onI)
    fix i j assume ij: "i \<in> {0..<n}" "j \<in> {0..<n}" and "v + of_nat (Suc i) = v + of_nat (Suc j)"
    then have "(of_nat i :: 'w word) = of_nat j" by simp
    moreover have "i < 2 ^ LENGTH('w)" "j < 2 ^ LENGTH('w)" using ij assms by simp_all
    ultimately show "i = j" by (simp add: word_of_nat_eq_iff take_bit_nat_eq_self)
  qed
  then show ?thesis by (simp add: increments_eq distinct_map)
qed

section \<open>CurrentThread\<close>

text \<open>The variables of a thread: those the logger uses too, and its name.\<close>

record thread_locals =
  tl_log :: log_state
  t_threadName :: "char list"

definition current_tid :: "int \<Rightarrow> thread_locals \<Rightarrow> int \<times> thread_locals" where
  "current_tid gettid l = (let s = cacheTid gettid (tl_log l) in (t_cachedTid s, l\<lparr>tl_log := s\<rparr>))"

definition isMainThread :: "int \<Rightarrow> int \<Rightarrow> thread_locals \<Rightarrow> bool \<times> thread_locals" where
  "isMainThread getpid gettid l = (let (tid, l) = current_tid gettid l in (tid = getpid, l))"

definition afterFork :: "int \<Rightarrow> thread_locals \<Rightarrow> thread_locals" where
  "afterFork gettid l = snd (current_tid gettid (l\<lparr>tl_log := (tl_log l)\<lparr>t_cachedTid := 0\<rparr>, t_threadName := ''main''\<rparr>))"

definition threadNameInitializer :: "int \<Rightarrow> thread_locals \<Rightarrow> thread_locals" where
  "threadNameInitializer gettid l = snd (current_tid gettid (l\<lparr>t_threadName := ''main''\<rparr>))"

definition sleepUsec :: "int \<Rightarrow> int \<times> int" where
  "sleepUsec usec = (usec sdiv 1000000, usec smod 1000000 * 1000)"

text \<open>The number of a thread is read once; the child of a fork reads its own.\<close>

lemma current_tid_cached:
  assumes "t1 \<noteq> 0"
  shows "fst (current_tid t2 (snd (current_tid t1 l))) = fst (current_tid t1 l)"
  using assms by (auto simp: current_tid_def cacheTid_def Let_def)

lemma afterFork_tid: "child \<noteq> 0 \<Longrightarrow> fst (current_tid x (afterFork child l)) = child"
  by (simp add: afterFork_def current_tid_def cacheTid_def Let_def)

lemma sleepUsec_total: "sleepUsec usec = (sec, nsec) \<Longrightarrow> sec * 10 ^ 9 + nsec = usec * 1000"
  using sdiv_mult_smod_eq [of usec 1000000] by (auto simp: sleepUsec_def)

section \<open>Thread\<close>

text \<open>\<open>t_tid\<close> is the cell that the \<open>Thread\<close> shares with the thread it has started.\<close>

record 'f thread =
  th_started :: bool
  th_joined :: bool
  th_pthreadId :: int
  th_tid :: int
  th_func :: 'f
  th_name :: "char list"

definition setDefaultName :: "32 word \<Rightarrow> 'f thread \<Rightarrow> 'f thread \<times> 32 word" where
  "setDefaultName numCreated t =
     (let (n, numCreated) = incrementAndGet numCreated
      in (if th_name t = [] then t\<lparr>th_name := snprintf 32 (''Thread'' @ dec_int (sint n))\<rparr> else t, numCreated))"

definition new_thread :: "'f \<Rightarrow> char list \<Rightarrow> 32 word \<Rightarrow> 'f thread \<times> 32 word" where
  "new_thread func n numCreated =
     setDefaultName numCreated \<lparr>th_started = False, th_joined = False, th_pthreadId = 0, th_tid = 0, th_func = func, th_name = n\<rparr>"

text \<open>What \<open>start\<close> hands to the new thread.\<close>

record 'f thread_data =
  td_func :: 'f
  td_name :: "char list"

text \<open>\<open>created\<close> is the number of the new thread, or nothing when pthread_create fails: that is a LOG_SYSFATAL.\<close>

definition thread_start :: "int option \<Rightarrow> 'f thread \<Rightarrow> ('f thread \<times> 'f thread_data) res" where
  "thread_start created t =
     assert_c (\<not> th_started t)
       (case created of
          Some i \<Rightarrow> Inr (t\<lparr>th_started := True, th_pthreadId := i\<rparr>, \<lparr>td_func = th_func t, td_name = th_name t\<rparr>)
        | None \<Rightarrow> Inl Fatal)"

definition thread_join :: "int \<Rightarrow> 'f thread \<Rightarrow> ('f thread \<times> int) res" where
  "thread_join joined t = assert_c (th_started t) (assert_c (\<not> th_joined t) (Inr (t\<lparr>th_joined := True\<rparr>, joined)))"

text \<open>The destructor detaches a thread that was not joined.\<close>

definition thread_dtor :: "'f thread \<Rightarrow> int list" where
  "thread_dtor t = (if th_started t \<and> \<not> th_joined t then [th_pthreadId t] else [])"

text \<open>How the function ends, and how the thread then ends.\<close>

datatype func_end =
    Returns
  | Throws_Exception "char list" "char list"
  | Throws_std_exception "char list"
  | Throws_other

datatype thread_end = Finished | Aborted | Terminated

text \<open>
  \<open>runInThread\<close>: \<open>alive\<close> says whether the \<open>Thread\<close> object still exists. The result is what is stored in
  its cell, the name while the function runs, the name afterwards, the text on stderr and the end.
\<close>

record thread_run =
  tr_tid :: "int option"
  tr_running_name :: "char list"
  tr_last_name :: "char list"
  tr_stderr :: "char list"
  tr_end :: thread_end

definition runInThread :: "int \<Rightarrow> bool \<Rightarrow> func_end \<Rightarrow> 'f thread_data \<Rightarrow> thread_locals \<Rightarrow> thread_run \<times> thread_locals" where
  "runInThread gettid alive ends d l =
     (let (tid, l) = current_tid gettid l;
          cell = (if alive then Some tid else None);
          running = (if td_name d = [] then ''muduoThread'' else td_name d);
          caught = (\<lambda>what. what @ '' caught in Thread '' @ td_name d @ [CHR 0x0A]);
          (last, err, e) =
            (case ends of
               Returns \<Rightarrow> (''finished'', [], Finished)
             | Throws_Exception reason stack \<Rightarrow>
                 (''crashed'', caught ''exception'' @ ''reason: '' @ reason @ [CHR 0x0A] @ ''stack trace: '' @ stack @ [CHR 0x0A], Aborted)
             | Throws_std_exception reason \<Rightarrow> (''crashed'', caught ''exception'' @ ''reason: '' @ reason @ [CHR 0x0A], Aborted)
             | Throws_other \<Rightarrow> (''crashed'', caught ''unknown exception'', Terminated))
      in (\<lparr>tr_tid = cell, tr_running_name = running, tr_last_name = last, tr_stderr = err, tr_end = e\<rparr>, l\<lparr>t_threadName := last\<rparr>))"

text \<open>The thread writes its number into the cell; \<open>tid()\<close> of a \<open>Thread\<close> whose thread has not run yet is 0.\<close>

definition store_tid :: "thread_run \<Rightarrow> 'f thread \<Rightarrow> 'f thread" where
  "store_tid r t = (case tr_tid r of Some i \<Rightarrow> t\<lparr>th_tid := i\<rparr> | None \<Rightarrow> t)"

section \<open>The life of a thread\<close>

lemma new_thread_named: "th_name (fst (new_thread f n k)) \<noteq> []"
  by (simp add: new_thread_def setDefaultName_def snprintf_def Let_def split: prod.splits)

text \<open>Threads without a name are numbered in the order of their creation, the named ones counted with them.\<close>

lemma length_dec_int_32: "length (dec_int (sint w)) \<le> 11" for w :: "32 word"
proof -
  have "- 2147483648 \<le> sint w" "sint w < 2147483648" using sint_greater_eq [of w] sint_less [of w] by simp_all
  then have "nat \<bar>sint w\<bar> < 10 ^ 10" by simp
  from length_dec_nat [OF this] show ?thesis by (auto simp: dec_int_def split: if_splits)
qed

lemma default_name_fits:
  "th_name (fst (new_thread f [] k)) = ''Thread'' @ dec_int (sint (k + 1))"
proof -
  have "length (dec_int (sint (k + 1))) \<le> 11" by (rule length_dec_int_32)
  then show ?thesis
    by (simp add: new_thread_def setDefaultName_def snprintf_def incrementAndGet_def addAndGet_def getAndAdd_def)
qed

text \<open>A thread runs under the name of its object, and the object learns its number.\<close>

lemma started_thread_runs:
  assumes "thread_start (Some i) (fst (new_thread f n k)) = Inr (t, d)"
    and "runInThread gettid True ends d \<lparr>tl_log = new_log_state env, t_threadName = ''unknown''\<rparr> = (r, l)"
  shows "tr_running_name r = th_name t" and "th_tid (store_tid r t) = gettid" and "td_func d = f"
    and "tr_end r = Finished \<longleftrightarrow> ends = Returns"
proof -
  have ne: "th_name (fst (new_thread f n k)) \<noteq> []" by (rule new_thread_named)
  have t: "t = (fst (new_thread f n k))\<lparr>th_started := True, th_pthreadId := i\<rparr>"
    "d = \<lparr>td_func = th_func (fst (new_thread f n k)), td_name = th_name (fst (new_thread f n k))\<rparr>"
    using assms(1) by (auto simp: thread_start_def assert_c_def split: if_splits)
  have "th_func (fst (new_thread f n k)) = f" by (simp add: new_thread_def setDefaultName_def Let_def split: prod.splits)
  then show "tr_running_name r = th_name t" "th_tid (store_tid r t) = gettid" "td_func d = f" "tr_end r = Finished \<longleftrightarrow> ends = Returns"
    using assms(2) ne
    by (auto simp: t runInThread_def store_tid_def current_tid_def cacheTid_def new_log_state_def Let_def split: func_end.splits)
qed

text \<open>Every thread that was started is joined or detached once, never both.\<close>

datatype thread_op = Op_start int | Op_join

fun thread_ops :: "thread_op list \<Rightarrow> 'f thread \<Rightarrow> int list \<Rightarrow> ('f thread \<times> int list) res" where
  "thread_ops [] t released = Inr (t, released)"
| "thread_ops (Op_start i # ops) t released = rbind (thread_start (Some i) t) (\<lambda>(t, d). thread_ops ops t released)"
| "thread_ops (Op_join # ops) t released = rbind (thread_join 0 t) (\<lambda>(t, r). thread_ops ops t (released @ [th_pthreadId t]))"

fun started_ids :: "thread_op list \<Rightarrow> int list" where
  "started_ids [] = []"
| "started_ids (Op_start i # ops) = i # started_ids ops"
| "started_ids (Op_join # ops) = started_ids ops"

lemma thread_ops_released:
  assumes "thread_ops ops t released = Inr (t', released')" "th_joined t \<longrightarrow> th_started t"
  shows "released' @ thread_dtor t' = released @ thread_dtor t @ started_ids ops"
    and "length (started_ids ops) \<le> (if th_started t then 0 else 1)"
proof -
  have "released' @ thread_dtor t' = released @ thread_dtor t @ started_ids ops \<and>
      length (started_ids ops) \<le> (if th_started t then 0 else 1)"
    using assms
  proof (induction ops arbitrary: t released)
    case Nil
    then show ?case by simp
  next
    case (Cons op ops)
    show ?case
    proof (cases op)
      case (Op_start i)
      with Cons.prems(1) have "\<not> th_started t" "thread_ops ops (t\<lparr>th_started := True, th_pthreadId := i\<rparr>) released = Inr (t', released')"
        by (auto simp: rbind_Inr_iff thread_start_def assert_c_def split: if_splits)
      with Op_start Cons.IH [OF this(2)] Cons.prems(2) show ?thesis by (simp add: thread_dtor_def)
    next
      case Op_join
      with Cons.prems(1) have j: "th_started t" "\<not> th_joined t"
        "thread_ops ops (t\<lparr>th_joined := True\<rparr>) (released @ [th_pthreadId t]) = Inr (t', released')"
        by (auto simp: rbind_Inr_iff thread_join_def assert_c_def split: if_splits)
      with Op_join Cons.IH [OF j(3)] show ?thesis by (simp add: thread_dtor_def)
    qed
  qed
  then show "released' @ thread_dtor t' = released @ thread_dtor t @ started_ids ops"
    and "length (started_ids ops) \<le> (if th_started t then 0 else 1)" by simp_all
qed

lemma thread_released_once:
  assumes "thread_ops ops (fst (new_thread f n k)) [] = Inr (t, released)"
  shows "released @ thread_dtor t = started_ids ops" and "length (started_ids ops) \<le> 1"
proof -
  have "\<not> th_joined (fst (new_thread f n k))" "\<not> th_started (fst (new_thread f n k))"
    by (simp_all add: new_thread_def setDefaultName_def Let_def split: prod.splits)
  then show "released @ thread_dtor t = started_ids ops" "length (started_ids ops) \<le> 1"
    using thread_ops_released [OF assms] by (simp_all add: thread_dtor_def)
qed

end
