(* ===== verification/StringPiece.thy ===== *)
theory StringPiece
  imports Containers StaticFile
begin

text \<open>
  base/StringPiece.h: a view into the bytes of some object, with the comparisons that read both views
  with memcmp. A read outside the object is a fault.
\<close>

section \<open>The view\<close>

text \<open>The pointer is the object and a position in it, or NULL.\<close>

record string_piece =
  sp_object :: "char list option"
  sp_pos :: int
  sp_length :: int

definition null_piece :: string_piece where
  "null_piece = \<lparr>sp_object = None, sp_pos = 0, sp_length = 0\<rparr>"

definition piece_of_range :: "char list \<Rightarrow> int \<Rightarrow> int \<Rightarrow> string_piece" where
  "piece_of_range obj offset len = \<lparr>sp_object = Some obj, sp_pos = offset, sp_length = len\<rparr>"

definition piece_of_c_str :: "char list \<Rightarrow> string_piece" where
  "piece_of_c_str str = piece_of_range str 0 (int (length (c_str str)))"

definition piece_of_string :: "char list \<Rightarrow> string_piece" where
  "piece_of_string str = piece_of_range str 0 (int (length str))"

definition sp_empty :: "string_piece \<Rightarrow> bool" where
  "sp_empty p \<longleftrightarrow> sp_length p = 0"

definition sp_clear :: "string_piece \<Rightarrow> string_piece" where
  "sp_clear p = null_piece"

definition sp_set :: "char list \<Rightarrow> int \<Rightarrow> int \<Rightarrow> string_piece \<Rightarrow> string_piece" where
  "sp_set buffer offset len p = p\<lparr>sp_object := Some buffer, sp_pos := offset, sp_length := len\<rparr>"

definition sp_set_c_str :: "char list \<Rightarrow> string_piece \<Rightarrow> string_piece" where
  "sp_set_c_str str p = p\<lparr>sp_object := Some str, sp_pos := 0, sp_length := int (length (c_str str))\<rparr>"

text \<open>The bytes from the pointer on; none behind the end of the object.\<close>

definition sp_memory :: "string_piece \<Rightarrow> char list" where
  "sp_memory p = (case sp_object p of Some obj \<Rightarrow> if 0 \<le> sp_pos p then drop (nat (sp_pos p)) obj else [] | None \<Rightarrow> [])"

definition sp_at :: "string_piece \<Rightarrow> int \<Rightarrow> char res" where
  "sp_at p i =
     (case sp_object p of None \<Rightarrow> Inl Null_pointer
      | Some obj \<Rightarrow> if 0 \<le> sp_pos p + i \<and> sp_pos p + i < int (length obj) then Inr (obj ! nat (sp_pos p + i)) else Inl Buffer_overflow)"

definition remove_prefix :: "int \<Rightarrow> string_piece \<Rightarrow> string_piece" where
  "remove_prefix n p = p\<lparr>sp_pos := sp_pos p + n, sp_length := sp_length p - n\<rparr>"

definition remove_suffix :: "int \<Rightarrow> string_piece \<Rightarrow> string_piece" where
  "remove_suffix n p = p\<lparr>sp_length := sp_length p - n\<rparr>"

section \<open>Comparing\<close>

text \<open>memcmp: the difference of the first bytes that differ, as unsigned chars; only its sign is used.\<close>

fun memcmp_loop :: "char list \<Rightarrow> char list \<Rightarrow> nat \<Rightarrow> int res" where
  "memcmp_loop _ _ 0 = Inr 0"
| "memcmp_loop (a # as) (b # bs) (Suc n) =
     (if a = b then memcmp_loop as bs n else Inr (of_char a - of_char b))"
| "memcmp_loop _ _ _ = Inl Buffer_overflow"

text \<open>The length becomes a size_t, so a negative one reads past every object.\<close>

definition memcmp :: "char list \<Rightarrow> char list \<Rightarrow> int \<Rightarrow> int res" where
  "memcmp xs ys n = (if n < 0 then Inl Buffer_overflow else memcmp_loop xs ys (nat n))"

definition sp_eq :: "string_piece \<Rightarrow> string_piece \<Rightarrow> bool res" where
  "sp_eq p x =
     (if sp_length p = sp_length x then rbind (memcmp (sp_memory p) (sp_memory x) (sp_length p)) (\<lambda>r. Inr (r = 0))
      else Inr False)"

definition sp_neq :: "string_piece \<Rightarrow> string_piece \<Rightarrow> bool res" where
  "sp_neq p x = rbind (sp_eq p x) (\<lambda>b. Inr (\<not> b))"

text \<open>STRINGPIECE\_BINARY\_PREDICATE(cmp, auxcmp)\<close>

definition binary_predicate :: "(int \<Rightarrow> int \<Rightarrow> bool) \<Rightarrow> (int \<Rightarrow> int \<Rightarrow> bool) \<Rightarrow> string_piece \<Rightarrow> string_piece \<Rightarrow> bool res" where
  "binary_predicate compares auxcmp p x =
     rbind (memcmp (sp_memory p) (sp_memory x) (if sp_length p < sp_length x then sp_length p else sp_length x)) (\<lambda>r.
     Inr (auxcmp r 0 \<or> (r = 0 \<and> compares (sp_length p) (sp_length x))))"

definition sp_less :: "string_piece \<Rightarrow> string_piece \<Rightarrow> bool res" where
  "sp_less = binary_predicate (<) (<)"

definition sp_less_eq :: "string_piece \<Rightarrow> string_piece \<Rightarrow> bool res" where
  "sp_less_eq = binary_predicate (\<le>) (<)"

definition sp_greater_eq :: "string_piece \<Rightarrow> string_piece \<Rightarrow> bool res" where
  "sp_greater_eq = binary_predicate (\<ge>) (>)"

definition sp_greater :: "string_piece \<Rightarrow> string_piece \<Rightarrow> bool res" where
  "sp_greater = binary_predicate (>) (>)"

definition sp_compare :: "string_piece \<Rightarrow> string_piece \<Rightarrow> int res" where
  "sp_compare p x =
     rbind (memcmp (sp_memory p) (sp_memory x) (if sp_length p < sp_length x then sp_length p else sp_length x)) (\<lambda>r.
     Inr (if r = 0 then (if sp_length p < sp_length x then - 1 else if sp_length x < sp_length p then 1 else r) else r))"

definition starts_with :: "string_piece \<Rightarrow> string_piece \<Rightarrow> bool res" where
  "starts_with p x =
     (if sp_length x \<le> sp_length p then rbind (memcmp (sp_memory p) (sp_memory x) (sp_length x)) (\<lambda>r. Inr (r = 0))
      else Inr False)"

definition as_string :: "string_piece \<Rightarrow> char list res" where
  "as_string p =
     (if sp_length p < 0 then Inl Length_error
      else if sp_length p \<le> int (length (sp_memory p)) then Inr (take (nat (sp_length p)) (sp_memory p))
      else Inl Buffer_overflow)"

section \<open>StringArg\<close>

datatype string_arg = Of_chars "char list" | Of_string "char list"

fun string_arg_c_str :: "string_arg \<Rightarrow> char list" where
  "string_arg_c_str (Of_chars str) = c_str str"
| "string_arg_c_str (Of_string str) = c_str str"

section \<open>The views order as their bytes\<close>

text \<open>A view inside its object, and its bytes.\<close>

definition sp_valid :: "string_piece \<Rightarrow> bool" where
  "sp_valid p \<longleftrightarrow> 0 \<le> sp_length p \<and> sp_length p \<le> int (length (sp_memory p))"

definition sp_bytes :: "string_piece \<Rightarrow> char list" where
  "sp_bytes p = take (nat (sp_length p)) (sp_memory p)"

lemma length_sp_bytes: "sp_valid p \<Longrightarrow> int (length (sp_bytes p)) = sp_length p"
  by (auto simp: sp_valid_def sp_bytes_def min_def)

lemma valid_pieces [intro, simp]:
  "sp_valid null_piece" "sp_valid (piece_of_string s)" "sp_valid (piece_of_c_str s)"
  by (simp_all add: sp_valid_def null_piece_def piece_of_string_def piece_of_c_str_def piece_of_range_def sp_memory_def c_str_def length_takeWhile_le)

lemma bytes_of_pieces:
  "sp_bytes null_piece = []" "sp_bytes (piece_of_string s) = s" "sp_bytes (piece_of_c_str s) = c_str s"
  by (simp_all add: sp_bytes_def null_piece_def piece_of_string_def piece_of_c_str_def piece_of_range_def sp_memory_def c_str_def takeWhile_eq_take [symmetric])

lemma as_string_bytes: "sp_valid p \<Longrightarrow> as_string p = Inr (sp_bytes p)"
  by (simp add: as_string_def sp_valid_def sp_bytes_def)

lemma of_char_less: "(of_char a :: int) < of_char b \<longleftrightarrow> a < b"
  unfolding less_char_def by (subst of_nat_less_iff [where ?'a = int, symmetric]) (simp only: of_nat_of_char)

lemma of_char_diff:
  "(of_char a - of_char b :: int) < 0 \<longleftrightarrow> a < b" "0 < (of_char a - of_char b :: int) \<longleftrightarrow> b < a"
  "(of_char a - of_char b :: int) = 0 \<longleftrightarrow> a = b"
  by (simp_all add: of_char_less)

text \<open>The sign of memcmp on the common length decides the order, and the lengths when it is 0.\<close>

lemma memcmp_loop_prefix:
  "n \<le> length xs \<Longrightarrow> n \<le> length ys \<Longrightarrow>
    \<exists>r. memcmp_loop xs ys n = Inr r \<and> (r = 0 \<longleftrightarrow> take n xs = take n ys) \<and>
      (r < 0 \<longleftrightarrow> take n xs \<noteq> take n ys \<and> take n xs < take n ys) \<and> (0 < r \<longleftrightarrow> take n xs \<noteq> take n ys \<and> take n ys < take n xs)"
proof (induction xs ys n rule: memcmp_loop.induct)
  case (2 a as b bs n)
  show ?case
  proof (cases "a = b")
    case True
    with 2 show ?thesis by simp
  next
    case False
    then have "take (Suc n) (a # as) \<noteq> take (Suc n) (b # bs)" by simp
    moreover have "take (Suc n) (a # as) < take (Suc n) (b # bs) \<longleftrightarrow> a < b" "take (Suc n) (b # bs) < take (Suc n) (a # as) \<longleftrightarrow> b < a"
      using False by simp_all
    moreover have "memcmp_loop (a # as) (b # bs) (Suc n) = Inr (of_char a - of_char b)" using False by simp
    ultimately show ?thesis using of_char_diff [of a b] False by metis
  qed
qed simp_all

lemma prefix_decides:
  fixes xs ys :: "char list"
  assumes "take n xs \<noteq> take n ys" "n \<le> length xs" "n \<le> length ys"
  shows "xs < ys \<longleftrightarrow> take n xs < take n ys"
  using assms
proof (induction xs arbitrary: n ys)
  case (Cons x xs)
  then show ?case by (cases ys; cases n) auto
qed simp

lemma equal_prefix_decides:
  fixes xs ys :: "char list"
  assumes "take n xs = take n ys" "n = min (length xs) (length ys)"
  shows "xs < ys \<longleftrightarrow> length xs < length ys" and "xs = ys \<longleftrightarrow> length xs = length ys"
proof -
  have "(xs < ys \<longleftrightarrow> length xs < length ys) \<and> (xs = ys \<longleftrightarrow> length xs = length ys)"
    using assms
  proof (induction xs arbitrary: n ys)
    case Nil
    then show ?case by (cases ys) auto
  next
    case (Cons x xs)
    then show ?case by (cases ys; cases n) auto
  qed
  then show "xs < ys \<longleftrightarrow> length xs < length ys" and "xs = ys \<longleftrightarrow> length xs = length ys" by simp_all
qed

text \<open>What the three comparisons read: a number whose sign, with the lengths, says how the bytes compare.\<close>

lemma common_memcmp:
  assumes "sp_valid p" "sp_valid x"
  obtains r where
    "memcmp (sp_memory p) (sp_memory x) (if sp_length p < sp_length x then sp_length p else sp_length x) = Inr r"
    "r < 0 \<or> (r = 0 \<and> sp_length p < sp_length x) \<longleftrightarrow> sp_bytes p < sp_bytes x"
    "0 < r \<or> (r = 0 \<and> sp_length x < sp_length p) \<longleftrightarrow> sp_bytes x < sp_bytes p"
    "r = 0 \<and> sp_length p = sp_length x \<longleftrightarrow> sp_bytes p = sp_bytes x"
proof -
  let ?n = "nat (if sp_length p < sp_length x then sp_length p else sp_length x)"
  have n: "?n \<le> length (sp_memory p)" "?n \<le> length (sp_memory x)" using assms by (auto simp: sp_valid_def)
  have len: "length (sp_bytes p) = nat (sp_length p)" "length (sp_bytes x) = nat (sp_length x)"
    using length_sp_bytes [OF assms(1)] length_sp_bytes [OF assms(2)] by simp_all
  have nm: "?n = min (length (sp_bytes p)) (length (sp_bytes x))" unfolding len by auto
  have nm': "?n = min (length (sp_bytes x)) (length (sp_bytes p))" by (subst min.commute) (rule nm)
  have tk: "take ?n (sp_memory p) = take ?n (sp_bytes p)" "take ?n (sp_memory x) = take ?n (sp_bytes x)"
    by (simp_all add: sp_bytes_def min_def)
  obtain r where r: "memcmp_loop (sp_memory p) (sp_memory x) ?n = Inr r"
    "r = 0 \<longleftrightarrow> take ?n (sp_bytes p) = take ?n (sp_bytes x)"
    "r < 0 \<longleftrightarrow> take ?n (sp_bytes p) \<noteq> take ?n (sp_bytes x) \<and> take ?n (sp_bytes p) < take ?n (sp_bytes x)"
    "0 < r \<longleftrightarrow> take ?n (sp_bytes p) \<noteq> take ?n (sp_bytes x) \<and> take ?n (sp_bytes x) < take ?n (sp_bytes p)"
    using memcmp_loop_prefix [OF n] unfolding tk by blast
  have ge: "0 \<le> sp_length p" "0 \<le> sp_length x" using assms by (simp_all add: sp_valid_def)
  have m: "memcmp (sp_memory p) (sp_memory x) (if sp_length p < sp_length x then sp_length p else sp_length x) = Inr r"
    using r(1) ge by (simp add: memcmp_def)
  show thesis
  proof (cases "take ?n (sp_bytes p) = take ?n (sp_bytes x)")
    case True
    note eq = equal_prefix_decides [OF True nm] equal_prefix_decides(1) [OF True [symmetric] nm']
    have lens: "length (sp_bytes p) < length (sp_bytes x) \<longleftrightarrow> sp_length p < sp_length x"
      "length (sp_bytes x) < length (sp_bytes p) \<longleftrightarrow> sp_length x < sp_length p"
      "length (sp_bytes p) = length (sp_bytes x) \<longleftrightarrow> sp_length p = sp_length x"
      unfolding len using ge by auto
    show thesis by (rule that [OF m]) (use r(2-4) True eq lens in simp_all)
  next
    case False
    note dec = prefix_decides [OF False] prefix_decides [OF False [symmetric]]
    have "sp_bytes p \<noteq> sp_bytes x" using False by auto
    with r(2-4) False dec nm show thesis by (intro that [OF m]) simp_all
  qed
qed

lemma starts_with_bytes:
  assumes "sp_valid p" "sp_valid x"
  shows "starts_with p x = Inr (\<exists>rest. sp_bytes p = sp_bytes x @ rest)"
proof (cases "sp_length x \<le> sp_length p")
  case False
  then have "length (sp_bytes p) < length (sp_bytes x)" using length_sp_bytes [OF assms(1)] length_sp_bytes [OF assms(2)] by linarith
  with False show ?thesis by (auto simp: starts_with_def)
next
  case True
  let ?n = "nat (sp_length x)"
  have n: "?n \<le> length (sp_memory p)" "?n \<le> length (sp_memory x)" "0 \<le> sp_length x" using assms True by (auto simp: sp_valid_def)
  obtain r where r: "memcmp_loop (sp_memory p) (sp_memory x) ?n = Inr r" "r = 0 \<longleftrightarrow> take ?n (sp_memory p) = sp_bytes x"
    using memcmp_loop_prefix [OF n(1,2)] unfolding sp_bytes_def by blast
  have "take ?n (sp_memory p) = take ?n (sp_bytes p)" using True by (simp add: sp_bytes_def min_def)
  moreover have "take ?n (sp_bytes p) = sp_bytes x \<longleftrightarrow> (\<exists>rest. sp_bytes p = sp_bytes x @ rest)"
    using length_sp_bytes [OF assms(2)] by (metis append_eq_conv_conj nat_int)
  ultimately show ?thesis using True r n(3) by (simp add: starts_with_def memcmp_def)
qed

text \<open>C38: For views inside their objects every comparison operator of StringPiece, \<open>compare\<close> and \<open>starts_with\<close>
  read only inside the objects and agree with the lexicographic order of the strings of bytes
  (as unsigned chars) that the views show.
\<close>

theorem pieces_compare_as_strings:
  assumes "sp_valid p" "sp_valid x"
  shows "sp_eq p x = Inr (sp_bytes p = sp_bytes x) \<and> sp_neq p x = Inr (sp_bytes p \<noteq> sp_bytes x) \<and>
    sp_less p x = Inr (sp_bytes p < sp_bytes x) \<and> sp_less_eq p x = Inr (sp_bytes p \<le> sp_bytes x) \<and>
    sp_greater p x = Inr (sp_bytes p > sp_bytes x) \<and> sp_greater_eq p x = Inr (sp_bytes p \<ge> sp_bytes x) \<and>
    (\<exists>r. sp_compare p x = Inr r \<and> (r = 0 \<longleftrightarrow> sp_bytes p = sp_bytes x) \<and> (r < 0 \<longleftrightarrow> sp_bytes p < sp_bytes x)) \<and>
    starts_with p x = Inr (\<exists>rest. sp_bytes p = sp_bytes x @ rest)"
proof -
  obtain r where m: "memcmp (sp_memory p) (sp_memory x) (if sp_length p < sp_length x then sp_length p else sp_length x) = Inr r"
    and r: "r < 0 \<or> (r = 0 \<and> sp_length p < sp_length x) \<longleftrightarrow> sp_bytes p < sp_bytes x"
    "0 < r \<or> (r = 0 \<and> sp_length x < sp_length p) \<longleftrightarrow> sp_bytes x < sp_bytes p"
    "r = 0 \<and> sp_length p = sp_length x \<longleftrightarrow> sp_bytes p = sp_bytes x"
    by (rule common_memcmp [OF assms])
  have eq: "sp_eq p x = Inr (sp_bytes p = sp_bytes x)"
  proof (cases "sp_length p = sp_length x")
    case True
    with m have "memcmp (sp_memory p) (sp_memory x) (sp_length p) = Inr r" by simp
    then show ?thesis by (simp only: sp_eq_def True if_True rbind_Inr r(3) [symmetric] simp_thms)
  next
    case False
    then show ?thesis by (simp only: sp_eq_def if_False r(3) [symmetric] simp_thms)
  qed
  have ord: "binary_predicate c a p x = Inr (a r 0 \<or> (r = 0 \<and> c (sp_length p) (sp_length x)))" for c a
    by (simp only: binary_predicate_def m rbind_Inr)
  have "r < 0 \<or> (r = 0 \<and> sp_length p \<le> sp_length x) \<longleftrightarrow> sp_bytes p \<le> sp_bytes x"
    "0 < r \<or> (r = 0 \<and> sp_length x \<le> sp_length p) \<longleftrightarrow> sp_bytes x \<le> sp_bytes p"
    unfolding order.order_iff_strict [of "sp_bytes p"] order.order_iff_strict [of "sp_bytes x"]
      order.order_iff_strict [of "sp_length p"] order.order_iff_strict [of "sp_length x"] using r by metis+
  then have "sp_less_eq p x = Inr (sp_bytes p \<le> sp_bytes x)" "sp_greater_eq p x = Inr (sp_bytes p \<ge> sp_bytes x)"
    by (simp_all only: sp_less_eq_def sp_greater_eq_def ord)
  moreover have "sp_less p x = Inr (sp_bytes p < sp_bytes x)" "sp_greater p x = Inr (sp_bytes p > sp_bytes x)"
    by (simp_all only: sp_less_def sp_greater_def ord r)
  moreover have "sp_compare p x = Inr (if r = 0 then (if sp_length p < sp_length x then - 1 else if sp_length x < sp_length p then 1 else r) else r)"
    by (simp only: sp_compare_def m rbind_Inr)
  moreover have "(if r = 0 then (if sp_length p < sp_length x then - 1 else if sp_length x < sp_length p then 1 else r) else r) = 0
      \<longleftrightarrow> sp_bytes p = sp_bytes x"
    "(if r = 0 then (if sp_length p < sp_length x then - 1 else if sp_length x < sp_length p then 1 else r) else r) < 0
      \<longleftrightarrow> sp_bytes p < sp_bytes x"
    unfolding r(1) [symmetric] r(3) [symmetric] by auto
  ultimately show ?thesis
    using starts_with_bytes [OF assms] by (simp add: sp_neq_def eq)
qed

theorem pieces_compare_as_strings_witness:
  "sp_less (piece_of_string ''ab'') (piece_of_c_str (''b'' @ [CHR 0x00])) = Inr True \<and>
   starts_with (remove_prefix 1 (piece_of_string ''xab'')) (piece_of_string ''a'') = Inr True"
proof
  show "sp_less (piece_of_string ''ab'') (piece_of_c_str (''b'' @ [CHR 0x00])) = Inr True"
    using pieces_compare_as_strings [of "piece_of_string ''ab''" "piece_of_c_str (''b'' @ [CHR 0x00])"]
    by (simp add: bytes_of_pieces c_str_def less_char_def)
  have "sp_valid (remove_prefix 1 (piece_of_string ''xab''))" "sp_bytes (remove_prefix 1 (piece_of_string ''xab'')) = ''ab''"
    by (simp_all add: sp_valid_def sp_bytes_def remove_prefix_def piece_of_string_def piece_of_range_def sp_memory_def)
  then show "starts_with (remove_prefix 1 (piece_of_string ''xab'')) (piece_of_string ''a'') = Inr True"
    using pieces_compare_as_strings [of "remove_prefix 1 (piece_of_string ''xab'')" "piece_of_string ''a''"] by (simp add: bytes_of_pieces)
qed

section \<open>Parts of a view\<close>

lemma remove_prefix_bytes:
  assumes "sp_valid p" "0 \<le> sp_pos p" "0 \<le> n" "n \<le> sp_length p"
  shows "sp_bytes (remove_prefix n p) = drop (nat n) (sp_bytes p)" and "sp_valid (remove_prefix n p)"
proof -
  have mem: "sp_memory (remove_prefix n p) = drop (nat n) (sp_memory p)"
    using assms by (simp add: sp_memory_def remove_prefix_def nat_add_distrib add.commute split: option.splits)
  have "nat (sp_length p - n) = nat (sp_length p) - nat n" using assms by simp
  then show "sp_bytes (remove_prefix n p) = drop (nat n) (sp_bytes p)"
    unfolding sp_bytes_def mem by (simp add: remove_prefix_def drop_take)
  show "sp_valid (remove_prefix n p)" using assms unfolding sp_valid_def mem by (auto simp: remove_prefix_def)
qed

lemma remove_suffix_bytes:
  assumes "sp_valid p" "0 \<le> n" "n \<le> sp_length p"
  shows "sp_bytes (remove_suffix n p) = take (nat (sp_length p - n)) (sp_bytes p)" and "sp_valid (remove_suffix n p)"
proof -
  have mem: "sp_memory (remove_suffix n p) = sp_memory p" by (cases "sp_object p") (simp_all add: sp_memory_def remove_suffix_def)
  show "sp_bytes (remove_suffix n p) = take (nat (sp_length p - n)) (sp_bytes p)"
    unfolding sp_bytes_def mem using assms by (simp add: remove_suffix_def min_def)
  show "sp_valid (remove_suffix n p)" using assms unfolding sp_valid_def mem by (auto simp: remove_suffix_def)
qed

text \<open>More than the view shows is not refused: the length becomes negative, and a comparison reads past the object.\<close>

lemma remove_too_much: "sp_eq (remove_prefix 2 (piece_of_string ''a'')) (remove_prefix 2 (piece_of_string ''b'')) = Inl Buffer_overflow"
  by (simp add: sp_eq_def memcmp_def remove_prefix_def piece_of_string_def piece_of_range_def)

end
