(* ===== verification/SmallFile.thy ===== *)
theory SmallFile
  imports StringPiece Calendar
begin

text \<open>
  The \<open>ReadSmallFile\<close> of base/FileUtil.cc: a file opened for reading, \<open>readToString\<close> with its loop over
  read, and \<open>readToBuffer\<close>. What open, fstat and the calls of read answer are arguments; \<open>data\<close> is what
  the descriptor has still to give.
\<close>

section \<open>The file\<close>

definition kBufferSize :: nat where "kBufferSize = 64 * 1024"
definition EISDIR :: int where "EISDIR = 21"

record read_small_file =
  rs_fd :: int
  rs_err :: int
  rs_buf :: "char list"

text \<open>open answers a descriptor, or an error number.\<close>

definition new_read_small_file :: "char list \<Rightarrow> int + int \<Rightarrow> read_small_file" where
  "new_read_small_file garbage opened =
     (let fd = (case opened of Inl e \<Rightarrow> - 1 | Inr fd \<Rightarrow> fd)
      in \<lparr>rs_fd = fd, rs_err = (case opened of Inl e \<Rightarrow> e | Inr fd \<Rightarrow> 0), rs_buf = garbage[0 := CHR 0x00]\<rparr>)"

definition read_small_file_dtor :: "read_small_file \<Rightarrow> int list" where
  "read_small_file_dtor f = (if 0 \<le> rs_fd f then [rs_fd f] else [])"

text \<open>A call of read gives up to so many bytes, or fails with an error number; a call without an answer gives all it may.\<close>

datatype read_answer = Gives nat | Fails int

definition sys_read :: "read_answer list \<Rightarrow> nat \<Rightarrow> char list \<Rightarrow> char list + int" where
  "sys_read as toRead data =
     (case as of [] \<Rightarrow> Inl (take toRead data) | Gives n # _ \<Rightarrow> Inl (take (min n toRead) data) | Fails e # _ \<Rightarrow> Inr e)"

text \<open>
  The loop of \<open>readToString\<close>, \<open>maxSize\<close> as a size_t. What it leaves in \<open>buf_\<close> is not followed: only \<open>readToBuffer\<close>
  hands \<open>buf_\<close> out.
\<close>

function read_loop :: "nat \<Rightarrow> read_answer list \<Rightarrow> char list \<Rightarrow> int \<Rightarrow> char list \<Rightarrow> int \<times> char list" where
  "read_loop maxSize as data err content =
     (if length content < maxSize then
        (let toRead = min (maxSize - length content) kBufferSize
         in case sys_read as toRead data of
              Inl bytes \<Rightarrow> if bytes \<noteq> [] then read_loop maxSize (tl as) (drop (length bytes) data) err (content @ bytes) else (err, content)
            | Inr e \<Rightarrow> (e, content))
      else (err, content))"
  by auto
termination
  by (relation "measure (\<lambda>(maxSize, as, data, err, content). maxSize - length content)") (auto simp flip: length_greater_0_conv)

declare read_loop.simps [simp del]

unbundle bit_operations_syntax

record file_info =
  fi_mode :: "32 word"
  fi_size :: int
  fi_mtime :: int
  fi_ctime :: int

definition S_ISDIR :: "32 word \<Rightarrow> bool" where
  "S_ISDIR m \<longleftrightarrow> m AND 0xF000 = 0x4000"

text \<open>What \<open>readToString\<close> stores through the pointers it was given, if it was given them.\<close>

record read_out =
  ro_err :: int
  ro_content :: "char list"
  ro_fileSize :: "int option"
  ro_modifyTime :: "int option"
  ro_createTime :: "int option"

text \<open>
  \<open>out\<close> holds what the pointers point to before the call, \<open>None\<close> for NULL. A regular file makes the
  code reserve room for \<open>maxSize\<close> or the size, whichever is less; a negative number of bytes is refused
  by the string.
\<close>

definition store :: "int option \<Rightarrow> int \<Rightarrow> int option" where
  "store ptr v = (case ptr of Some _ \<Rightarrow> Some v | None \<Rightarrow> None)"

definition stat_into :: "int \<Rightarrow> file_info + int \<Rightarrow> read_out \<Rightarrow> read_out res" where
  "stat_into maxSize fstat out =
     (case fstat of
        Inl st \<Rightarrow>
          rbind (if S_ISREG (fi_mode st)
                 then (if cast_int (min maxSize (fi_size st)) < 0 then Inl Length_error
                       else Inr (out\<lparr>ro_fileSize := store (ro_fileSize out) (fi_size st)\<rparr>))
                 else if S_ISDIR (fi_mode st) then Inr (out\<lparr>ro_err := EISDIR\<rparr>)
                 else Inr out) (\<lambda>out.
          Inr (out\<lparr>ro_modifyTime := store (ro_modifyTime out) (fi_mtime st), ro_createTime := store (ro_createTime out) (fi_ctime st)\<rparr>))
      | Inr e \<Rightarrow> Inr (out\<lparr>ro_err := e\<rparr>))"

definition readToString ::
  "int \<Rightarrow> file_info + int \<Rightarrow> read_answer list \<Rightarrow> char list \<Rightarrow> read_out \<Rightarrow> read_small_file \<Rightarrow> read_out res" where
  "readToString maxSize fstat as data out f =
     (let out = out\<lparr>ro_err := rs_err f\<rparr>
      in if 0 \<le> rs_fd f then
           rbind (if ro_fileSize out \<noteq> None then stat_into maxSize fstat (out\<lparr>ro_content := []\<rparr>) else Inr (out\<lparr>ro_content := []\<rparr>)) (\<lambda>out.
           let (err, content) = read_loop (nat (maxSize mod 2 ^ 64)) as data (ro_err out) []
           in Inr (out\<lparr>ro_err := err, ro_content := content\<rparr>))
         else Inr out)"

text \<open>pread answers from the beginning of the file, with one byte of the buffer left for the NUL.\<close>

definition readToBuffer :: "read_answer list \<Rightarrow> char list \<Rightarrow> int option \<Rightarrow> read_small_file \<Rightarrow> int \<times> int option \<times> read_small_file" where
  "readToBuffer as data sz f =
     (if 0 \<le> rs_fd f then
        (case sys_read as (kBufferSize - 1) data of
           Inl bytes \<Rightarrow> (rs_err f, store sz (int (length bytes)),
             f\<lparr>rs_buf := (overwrite (rs_buf f) 0 bytes)[length bytes := CHR 0x00]\<rparr>)
         | Inr e \<Rightarrow> (e, sz, f))
      else (rs_err f, sz, f))"

definition readFile :: "char list \<Rightarrow> int + int \<Rightarrow> int \<Rightarrow> file_info + int \<Rightarrow> read_answer list \<Rightarrow> char list \<Rightarrow> read_out \<Rightarrow> read_out res" where
  "readFile garbage opened maxSize fstat as data out =
     readToString maxSize fstat as data out (new_read_small_file garbage opened)"

section \<open>What is read\<close>

fun answers_ok :: "read_answer list \<Rightarrow> bool" where
  "answers_ok [] = True" | "answers_ok (Gives n # as) = (0 < n \<and> answers_ok as)" | "answers_ok (Fails _ # as) = False"

text \<open>However the bytes come, the loop collects the file, or its beginning.\<close>

lemma read_loop_reads:
  "answers_ok as \<Longrightarrow> length content \<le> maxSize \<Longrightarrow>
    read_loop maxSize as data err content = (err, content @ take (maxSize - length content) data)"
proof (induction maxSize as data err content rule: read_loop.induct)
  case (1 maxSize as data err content)
  show ?case
  proof (cases "length content < maxSize")
    case False
    with 1 show ?thesis by (simp add: read_loop.simps)
  next
    case True
    define toRead where "toRead = min (maxSize - length content) kBufferSize"
    have pos: "0 < toRead" using True by (simp add: toRead_def kBufferSize_def)
    obtain k where k: "sys_read as toRead data = Inl (take k data)" "0 < k" "k \<le> toRead" "answers_ok (tl as)"
      using "1.prems"(1) pos by (cases as rule: answers_ok.cases) (auto simp: sys_read_def)
    show ?thesis
    proof (cases "data = []")
      case True
      with k(1) \<open>length content < maxSize\<close> show ?thesis by (simp add: read_loop.simps toRead_def [symmetric])
    next
      case False
      with k(2) have ne: "take k data \<noteq> []" by simp
      have le: "length (content @ take k data) \<le> maxSize" 
      proof -
        have "length (take k data) \<le> k" "toRead \<le> maxSize - length content" by (simp_all add: toRead_def)
        then show ?thesis using k(3) True unfolding length_append by linarith
      qed
      have "read_loop maxSize as data err content = read_loop maxSize (tl as) (drop (length (take k data)) data) err (content @ take k data)"
        using True k(1) ne by (subst read_loop.simps) (simp add: toRead_def [symmetric] Let_def)
      also have "\<dots> = (err, (content @ take k data) @ take (maxSize - length (content @ take k data)) (drop (length (take k data)) data))"
        by (rule "1.IH" [OF True toRead_def k(1) ne k(4) le])
      also have "\<dots> = (err, content @ take (maxSize - length content) data)"
      proof (cases "k \<le> length data")
        case True
        have "k \<le> maxSize - length content" using k(3) by (simp add: toRead_def)
        then have "maxSize - length content = k + (maxSize - (length content + k))" by linarith
        then have "take (maxSize - length content) data = take k data @ take (maxSize - (length content + k)) (drop k data)" by (metis take_add)
        with True show ?thesis by (simp add: min_def)
      next
        case False
        with k(3) show ?thesis by (simp add: toRead_def)
      qed
      finally show ?thesis .
    qed
  qed
qed

lemma readFile_reads:
  assumes "opened = Inr fd" "0 \<le> fd" "answers_ok as" "0 \<le> maxSize" "maxSize < 2 ^ 31" "ro_fileSize out = None"
  shows "readFile garbage opened maxSize fstat as data out = Inr (out\<lparr>ro_err := 0, ro_content := take (nat maxSize) data\<rparr>)"
proof -
  have "maxSize mod 2 ^ 64 = maxSize" using assms(4,5) by simp
  then show ?thesis
    using assms read_loop_reads [OF assms(3), of "[]" "nat maxSize" data 0]
    by (simp add: readFile_def readToString_def new_read_small_file_def Let_def)
qed

text \<open>A file that cannot be opened gives the error number, and leaves what it was to fill alone.\<close>

lemma readFile_not_opened:
  "readFile garbage (Inl e) maxSize fstat as data out = Inr (out\<lparr>ro_err := e\<rparr>)"
  by (simp add: readFile_def readToString_def new_read_small_file_def Let_def)

text \<open>With the size asked for, a regular file also tells it; a directory gives \<open>EISDIR\<close>, and is read all the same.\<close>

lemma readFile_stat:
  assumes "opened = Inr fd" "0 \<le> fd" "answers_ok as" "0 \<le> maxSize" "maxSize < 2 ^ 31" "ro_fileSize out = Some s"
    and "S_ISREG (fi_mode st)" "0 \<le> fi_size st"
  shows "\<exists>out'. readFile garbage opened maxSize (Inl st) as data out = Inr out' \<and> ro_err out' = 0 \<and>
    ro_content out' = take (nat maxSize) data \<and> ro_fileSize out' = Some (fi_size st)"
proof -
  have m: "maxSize mod 2 ^ 64 = maxSize" "cast_int (min maxSize (fi_size st)) = min maxSize (fi_size st)" using assms(4,5,8) by auto
  then show ?thesis
    using assms read_loop_reads [OF assms(3), of "[]" "nat maxSize" data 0]
    by (simp add: readFile_def readToString_def new_read_small_file_def stat_into_def store_def Let_def)
qed

lemma readToBuffer_reads:
  assumes "answers_ok as" "0 \<le> rs_fd f" "rs_err f = 0" "length (rs_buf f) = kBufferSize"
  shows "\<exists>k sz' f'. readToBuffer as data (Some sz) f = (0, Some (int k), f') \<and> k \<le> length data \<and> k < kBufferSize \<and>
    take k (rs_buf f') = take k data \<and> rs_buf f' ! k = CHR 0x00"
proof -
  obtain k where k: "sys_read as (kBufferSize - 1) data = Inl (take k data)" "k \<le> kBufferSize - 1"
    using assms(1) by (cases as rule: answers_ok.cases) (auto simp: sys_read_def)
  define n where "n = length (take k data)"
  have n: "n \<le> length data" "n < kBufferSize" "take k data = take n data" "length (take n data) = n"
    using k(2) by (auto simp: n_def kBufferSize_def min_def)
  have f': "readToBuffer as data (Some sz) f = (0, Some (int n), f\<lparr>rs_buf := (overwrite (rs_buf f) 0 (take n data))[n := CHR 0x00]\<rparr>)"
    using assms k(1) n(3,4) by (simp add: readToBuffer_def store_def)
  have "length (overwrite (rs_buf f) 0 (take n data)) = kBufferSize"
    using assms(4) n by (simp add: length_overwrite)
  then have "take n ((overwrite (rs_buf f) 0 (take n data))[n := CHR 0x00]) = take n data"
    "(overwrite (rs_buf f) 0 (take n data))[n := CHR 0x00] ! n = CHR 0x00"
    using n by (simp_all add: overwrite_def)
  with f' n show ?thesis by (intro exI [of _ n]) simp
qed

end
