(* ===== verification/ProcessInfo.thy ===== *)
theory ProcessInfo
  imports SmallFile Logging "HOL-Library.Multiset"
begin

text \<open>
  base/ProcessInfo.cc: what the process can tell about itself. What the kernel answers (the files under
  /proc, the directory entries, gethostname, getrlimit, times and the like) is an argument.
\<close>

section \<open>Numbers in a text\<close>

text \<open>atoi: strtol, which skips white space and stops at what is no digit, and a conversion to int.\<close>

definition strtol :: "char list \<Rightarrow> int" where
  "strtol s =
     (let s1 = dropWhile isspace s;
          neg = (s1 \<noteq> [] \<and> hd s1 = CHR ''-'');
          s2 = (if s1 \<noteq> [] \<and> (hd s1 = CHR ''-'' \<or> hd s1 = CHR ''+'') then tl s1 else s1);
          v = digits_val (takeWhile isdigit s2)
      in max (- (2 ^ 63)) (min (2 ^ 63 - 1) (if neg then - v else v)))"

definition atoi :: "char list \<Rightarrow> int" where
  "atoi s = cast_int (strtol s)"

section \<open>Answers of the kernel\<close>

definition pidString :: "int \<Rightarrow> char list" where
  "pidString pid = snprintf 32 (dec_int pid)"

definition username :: "char list option \<Rightarrow> char list" where
  "username getpwuid_r = (case getpwuid_r of Some pw_name \<Rightarrow> c_str pw_name | None \<Rightarrow> ''unknownuser'')"

text \<open>gethostname fills the 256 bytes of \<open>buf\<close>, or fails.\<close>

definition hostname :: "char list option \<Rightarrow> char list" where
  "hostname gethostname = (case gethostname of Some buf \<Rightarrow> c_str (buf[255 := CHR 0x00]) | None \<Rightarrow> ''unknownhost'')"

text \<open>readlink copies up to 1024 bytes of the path, or fails.\<close>

definition exePath :: "char list option \<Rightarrow> char list" where
  "exePath readlink = (case readlink of Some path \<Rightarrow> (let n = min 1024 (length path) in if 0 < n then take n path else []) | None \<Rightarrow> [])"

definition clockTicksPerSecond :: "int \<Rightarrow> int" where
  "clockTicksPerSecond sysconf = cast_int sysconf"

definition pageSize :: "int \<Rightarrow> int" where
  "pageSize sysconf = cast_int sysconf"

record cpu_time =
  userSeconds :: rat
  systemSeconds :: rat

text \<open>\<open>ticks\<close> is what times gives: the ticks in user and in system mode.\<close>

definition cpuTime :: "(int \<times> int) option \<Rightarrow> int \<Rightarrow> cpu_time" where
  "cpuTime ticks clockTicks =
     (let t = \<lparr>userSeconds = 0, systemSeconds = 0\<rparr>
      in case ticks of
           Some (utime, stime) \<Rightarrow> (let hz = of_int clockTicks in t\<lparr>userSeconds := of_int utime / hz, systemSeconds := of_int stime / hz\<rparr>)
         | None \<Rightarrow> t)"

section \<open>The files under /proc\<close>

record proc_file =
  pf_opened :: "int + int"
  pf_answers :: "read_answer list"
  pf_data :: "char list"

definition readProc :: "(char list \<Rightarrow> proc_file) \<Rightarrow> char list \<Rightarrow> char list \<Rightarrow> char list res" where
  "readProc fs garbage path =
     (let f = fs path
      in rbind (readFile garbage (pf_opened f) 65536 (Inr 0) (pf_answers f) (pf_data f)
            \<lparr>ro_err = 0, ro_content = [], ro_fileSize = None, ro_modifyTime = None, ro_createTime = None\<rparr>) (\<lambda>out.
         Inr (ro_content out)))"

definition procStatus :: "(char list \<Rightarrow> proc_file) \<Rightarrow> char list \<Rightarrow> char list res" where
  "procStatus fs garbage = readProc fs garbage ''/proc/self/status''"

definition procStat :: "(char list \<Rightarrow> proc_file) \<Rightarrow> char list \<Rightarrow> char list res" where
  "procStat fs garbage = readProc fs garbage ''/proc/self/stat''"

definition threadStat :: "(char list \<Rightarrow> proc_file) \<Rightarrow> char list \<Rightarrow> int \<Rightarrow> char list res" where
  "threadStat fs garbage tid = readProc fs garbage (snprintf 64 (''/proc/self/task/'' @ dec_int tid @ ''/stat''))"

text \<open>The name of the process stands between the first parenthesis that opens and the last that closes.\<close>

definition procname_of :: "char list \<Rightarrow> string_piece" where
  "procname_of stat =
     (let lp = (if CHR ''('' \<in> set stat then Some (std_find (CHR ''('') stat) else None);
          rp = strrchr stat (CHR '')'')
      in case (lp, rp) of
           (Some l, Some r) \<Rightarrow> if l < r then sp_set stat (int l + 1) (cast_int (int (r - l) - 1)) null_piece else null_piece
         | _ \<Rightarrow> null_piece)"

definition procname :: "(char list \<Rightarrow> proc_file) \<Rightarrow> char list \<Rightarrow> char list res" where
  "procname fs garbage = rbind (procStat fs garbage) (\<lambda>stat. as_string (procname_of stat))"

definition numThreads_of :: "char list \<Rightarrow> int" where
  "numThreads_of status =
     (case std_search ''Threads:'' status of Some pos \<Rightarrow> atoi (c_str (drop (pos + 8) status)) | None \<Rightarrow> 0)"

definition numThreads :: "(char list \<Rightarrow> proc_file) \<Rightarrow> char list \<Rightarrow> int res" where
  "numThreads fs garbage = rbind (procStatus fs garbage) (\<lambda>status. Inr (numThreads_of status))"

section \<open>The directories under /proc\<close>

text \<open>
  scandir shows every entry to the filter, which notes it in a variable of the thread and selects
  none; so the list stays NULL. A directory that cannot be opened gives -1.
\<close>

definition scanDir :: "char list list option \<Rightarrow> (char list \<Rightarrow> 's \<Rightarrow> int \<times> 's) \<Rightarrow> 's \<Rightarrow> int \<times> 's" where
  "scanDir entries dir_filter s =
     (case entries of
        None \<Rightarrow> (- 1, s)
      | Some names \<Rightarrow> fold (\<lambda>d (n, s). let (sel, s) = dir_filter d s in (if sel \<noteq> 0 then n + 1 else n, s)) names (0, s))"

definition first_is_digit :: "char list \<Rightarrow> bool" where
  "first_is_digit d_name \<longleftrightarrow> c_str d_name \<noteq> [] \<and> isdigit (hd d_name)"

definition fdDirFilter :: "char list \<Rightarrow> int \<Rightarrow> int \<times> int" where
  "fdDirFilter d_name n = (0, if first_is_digit d_name then n + 1 else n)"

definition taskDirFilter :: "char list \<Rightarrow> int list \<Rightarrow> int \<times> int list" where
  "taskDirFilter d_name pids = (0, if first_is_digit d_name then pids @ [atoi (c_str d_name)] else pids)"

definition openedFiles :: "char list list option \<Rightarrow> int" where
  "openedFiles fd_entries = snd (scanDir fd_entries fdDirFilter 0)"

definition maxOpenFiles :: "int option \<Rightarrow> char list list option \<Rightarrow> int" where
  "maxOpenFiles getrlimit fd_entries = (case getrlimit of None \<Rightarrow> openedFiles fd_entries | Some rlim_cur \<Rightarrow> cast_int rlim_cur)"

definition threads :: "char list list option \<Rightarrow> int list" where
  "threads task_entries = sort (snd (scanDir task_entries taskDirFilter []))"

section \<open>What they tell\<close>

lemma atoi_dec_nat:
  assumes "n < 2 ^ 31" "\<forall>c \<in> set ws. isspace c" "rest = [] \<or> \<not> isdigit (hd rest)"
  shows "atoi (ws @ dec_nat n @ rest) = int n"
proof -
  obtain c cs where c: "dec_nat n = c # cs" by (cases "dec_nat n") simp_all
  then have "isdigit c" using dec_nat_digits [of n] by simp
  note h = isdigit_not_sign [OF this]
  have dw: "dropWhile isspace (ws @ dec_nat n @ rest) = dec_nat n @ rest" using assms(2) h c by (simp add: dropWhile_append2)
  have "strtol (ws @ dec_nat n @ rest) = max (- (2 ^ 63)) (min (2 ^ 63 - 1) (digits_val (takeWhile isdigit (dec_nat n @ rest))))"
    unfolding strtol_def dw Let_def using h c by simp
  also have "\<dots> = int n"
    using assms(1) takeWhile_digits [OF dec_nat_digits assms(3), of n] by (simp add: digits_val_dec_nat)
  finally show ?thesis using assms(1) by (simp add: atoi_def)
qed

lemma scanDir_selects_none:
  assumes "\<And>d s. fst (f d s) = 0"
  shows "scanDir (Some names) f s = (0, fold (\<lambda>d s. snd (f d s)) names s)"
proof -
  have "fold (\<lambda>d (n, s). let (sel, s) = f d s in (if sel \<noteq> 0 then n + 1 else n, s)) names (n, s)
      = (n, fold (\<lambda>d s. snd (f d s)) names s)" for n :: int
    using assms by (induction names arbitrary: s) (simp_all add: case_prod_beta)
  then show ?thesis by (simp add: scanDir_def)
qed

lemma openedFiles_counts: "openedFiles (Some names) = int (length (filter first_is_digit names))"
proof -
  have "fold (\<lambda>d s. snd (fdDirFilter d s)) names n = n + int (length (filter first_is_digit names))" for n
    by (induction names arbitrary: n) (simp_all add: fdDirFilter_def)
  then show ?thesis by (simp add: openedFiles_def scanDir_selects_none fdDirFilter_def)
qed

text \<open>The threads are the numbers among the entries of the directory, in ascending order.\<close>

lemma threads_of_entries:
  assumes "\<forall>t \<in> set tids. t < 2 ^ 31" "\<forall>d \<in> set others. \<not> first_is_digit d" "mset names = mset (map dec_nat tids @ others)"
  shows "threads (Some names) = map int (sort tids)"
proof -
  let ?P = "filter first_is_digit names"
  have "fold (\<lambda>d s. snd (taskDirFilter d s)) names ps = ps @ map (atoi \<circ> c_str) ?P" for ps
    by (induction names arbitrary: ps) (simp_all add: taskDirFilter_def)
  then have thr: "threads (Some names) = sort (map (atoi \<circ> c_str) ?P)"
    by (simp add: threads_def scanDir_selects_none taskDirFilter_def)
  have cs: "c_str (dec_nat t) = dec_nat t" for t
    using dec_nat_digits [of t] by (auto simp: c_str_def takeWhile_eq_all_conv isdigit_def)
  have fd: "first_is_digit (dec_nat t)" for t
    using dec_nat_digits [of t] by (simp add: first_is_digit_def cs)
  have "filter first_is_digit (map dec_nat tids @ others) = map dec_nat tids"
    using assms(2) fd by (simp add: filter_empty_conv filter_map o_def)
  then have P: "mset ?P = mset (map dec_nat tids)"
    by (metis mset_filter assms(3))
  have ids: "map (atoi \<circ> c_str) (map dec_nat tids) = map int tids"
  proof (unfold map_map, rule map_cong [OF refl])
    fix t assume "t \<in> set tids"
    then show "((atoi \<circ> c_str) \<circ> dec_nat) t = int t"
      using atoi_dec_nat [of t "[]" "[]"] assms(1) by (simp add: cs)
  qed
  have "mset (map (atoi \<circ> c_str) ?P) = mset (map (atoi \<circ> c_str) (map dec_nat tids))"
    using P by (metis mset_map)
  then have "mset (map (atoi \<circ> c_str) ?P) = mset (map int tids)" unfolding ids .
  then have "sort (map (atoi \<circ> c_str) ?P) = map int (sort tids)"
    by (intro properties_for_sort) (simp_all add: sorted_map mset_map)
  then show ?thesis using thr by simp
qed

lemma nul_is_no_digit: "\<not> isdigit (CHR 0x00)" "\<not> isspace (CHR 0x00)"
  by (simp_all add: isdigit_def isspace_def)

text \<open>The number behind the first \<open>Threads:\<close> of the status.\<close>

lemma numThreads_reads:
  assumes "std_search ''Threads:'' (pre @ ''Threads:'') = Some (length pre)" "n < 2 ^ 31" "\<forall>c \<in> set ws. isspace c"
    and "CHR 0x00 \<notin> set rest" "rest = [] \<or> \<not> isdigit (hd rest)"
  shows "numThreads_of (pre @ ''Threads:'' @ ws @ dec_nat n @ rest) = int n"
proof -
  have s: "std_search ''Threads:'' (pre @ ''Threads:'' @ ws @ dec_nat n @ rest) = Some (length pre)"
    using std_search_append_Some [OF assms(1), of "ws @ dec_nat n @ rest"] by simp
  have "\<forall>c \<in> set (ws @ dec_nat n @ rest). c \<noteq> CHR 0x00"
    unfolding set_append using assms(3,4) dec_nat_digits [of n] nul_is_no_digit by (metis UnE)
  then have "c_str (ws @ dec_nat n @ rest) = ws @ dec_nat n @ rest" unfolding c_str_def takeWhile_eq_all_conv .
  moreover have "drop (length pre + 8) (pre @ ''Threads:'' @ ws @ dec_nat n @ rest) = ws @ dec_nat n @ rest" by simp
  ultimately show ?thesis
    using atoi_dec_nat [OF assms(2,3,5)] by (simp only: numThreads_of_def s option.case)
qed

lemma strrchr_None: "c \<notin> set xs \<Longrightarrow> strrchr xs c = None"
  by (induction xs) auto

lemma strrchr_hit: "c \<notin> set ys \<Longrightarrow> strrchr (xs @ c # ys) c = Some (length xs)"
  by (induction xs) (simp_all add: strrchr_None)

text \<open>The name, whatever it holds: parentheses and blanks included.\<close>

lemma procname_of_reads:
  assumes "CHR ''('' \<notin> set pid" "CHR '')'' \<notin> set rest" "length name < 2 ^ 31"
  shows "as_string (procname_of (pid @ ''('' @ name @ '')'' @ rest)) = Inr name"
proof -
  let ?stat = "pid @ ''('' @ name @ '')'' @ rest"
  have lp: "std_find (CHR ''('') ?stat = length pid" using std_find_hit [OF assms(1)] by simp
  have rp: "strrchr ?stat (CHR '')'') = Some (length pid + 1 + length name)"
    using strrchr_hit [OF assms(2), of "pid @ ''('' @ name"] by simp
  have "procname_of ?stat = sp_set ?stat (int (length pid) + 1) (int (length name)) null_piece"
    unfolding procname_of_def lp rp using assms(3) by simp
  moreover have "sp_memory (sp_set ?stat (int (length pid) + 1) (int (length name)) null_piece) = name @ '')'' @ rest"
    by (simp add: sp_memory_def sp_set_def nat_add_distrib)
  ultimately show ?thesis by (simp add: as_string_def sp_set_def)
qed

text \<open>
  When /proc/self/stat can be read, \<open>procname\<close> gives back the name that the kernel has put between the
  parentheses, whatever bytes it consists of and however the read calls cut the file.
\<close>

theorem procname_reads_stat:
  assumes "fs ''/proc/self/stat'' = \<lparr>pf_opened = Inr fd, pf_answers = answers, pf_data = pid @ ''('' @ name @ '')'' @ rest\<rparr>"
    and "0 \<le> fd" "answers_ok answers" "CHR ''('' \<notin> set pid" "CHR '')'' \<notin> set rest" "length pid + length name + length rest + 2 \<le> 65536"
  shows "procname fs garbage = Inr name"
proof -
  have "procStat fs garbage = Inr (pid @ ''('' @ name @ '')'' @ rest)"
    unfolding procStat_def readProc_def assms(1) Let_def using readFile_reads [OF refl assms(2,3)] assms(6) by simp
  moreover have "length name < 2 ^ 31" using assms(6) by simp
  ultimately show ?thesis using procname_of_reads [OF assms(4,5)] by (simp add: procname_def)
qed

theorem procname_reads_stat_witness:
  "procname (\<lambda>_. \<lparr>pf_opened = Inr 3, pf_answers = [Gives 5, Gives 100], pf_data = ''42 ((sd-pam)) S 1''\<rparr>) garbage = Inr ''(sd-pam)''"
  by (rule procname_reads_stat [where fd = 3 and answers = "[Gives 5, Gives 100]" and pid = "''42 ''" and rest = "'' S 1''"]) simp_all

text \<open>Without the file there is no name and no thread; an unlimited number of files reads as -1.\<close>

lemma proc_missing:
  assumes "\<And>path. pf_opened (fs path) = Inl e"
  shows "procname fs garbage = Inr []" and "numThreads fs garbage = Inr 0"
  by (simp_all add: procname_def procStat_def numThreads_def procStatus_def readProc_def assms readFile_not_opened
      procname_of_def as_string_def null_piece_def sp_memory_def numThreads_of_def Let_def)

lemma unlimited_files: "maxOpenFiles (Some (2 ^ 64 - 1)) names = - 1"
  by (simp add: maxOpenFiles_def cast_int_def)

lemma takeWhile_stops:
  assumes "\<not> P (xs ! i)"
  shows "length (takeWhile P xs) \<le> i"
proof (rule ccontr)
  assume "\<not> length (takeWhile P xs) \<le> i"
  then have lt: "i < length (takeWhile P xs)" by simp
  then have "takeWhile P xs ! i \<in> set (takeWhile P xs)" by (rule nth_mem)
  then have "P (takeWhile P xs ! i)" by (rule set_takeWhileD [THEN conjunct2])
  with assms show False using takeWhile_nth [OF lt] by simp
qed

lemma hostname_short: "length buf = 256 \<Longrightarrow> length (hostname (Some buf)) \<le> 255"
  by (simp add: hostname_def c_str_def takeWhile_stops)

end
