(* ===== verification/Singletons.thy ===== *)
theory Singletons
  imports Prelude
begin

text \<open>
  The small owners of base/: Singleton.h, ThreadLocal.h, ThreadLocalSingleton.h, WeakCallback.h and
  GzipFile.h. An object is a number here; creating one takes the next number, and what is deleted is
  noted, so that each object can be seen to be deleted once.
\<close>

section \<open>Objects\<close>

record heap =
  hp_next :: nat
  hp_deleted :: "nat list"

definition new_object :: "heap \<Rightarrow> nat \<times> heap" where
  "new_object h = (hp_next h, h\<lparr>hp_next := hp_next h + 1\<rparr>)"

definition delete_object :: "nat option \<Rightarrow> heap \<Rightarrow> heap" where
  "delete_object x h = (case x of Some i \<Rightarrow> h\<lparr>hp_deleted := hp_deleted h @ [i]\<rparr> | None \<Rightarrow> h)"

definition heap_inv :: "nat set \<Rightarrow> heap \<Rightarrow> bool" where
  "heap_inv live h \<longleftrightarrow> distinct (hp_deleted h) \<and> set (hp_deleted h) \<union> live = {..<hp_next h} \<and> set (hp_deleted h) \<inter> live = {}"

lemma new_object_inv: "heap_inv live h \<Longrightarrow> new_object h = (x, h') \<Longrightarrow> heap_inv (insert x live) h' \<and> x \<notin> live"
proof -
  assume inv: "heap_inv live h" and new: "new_object h = (x, h')"
  then have "hp_next h \<notin> live" "hp_next h \<notin> set (hp_deleted h)" by (auto simp: heap_inv_def)
  moreover have "set (hp_deleted h) \<union> insert (hp_next h) live = {..<Suc (hp_next h)}"
    using inv unfolding heap_inv_def lessThan_Suc by (metis Un_insert_right)
  moreover have "set (hp_deleted h) \<inter> insert (hp_next h) live = {}" "distinct (hp_deleted h)"
    using inv calculation(2) unfolding heap_inv_def by blast+
  moreover have "x = hp_next h" "hp_deleted h' = hp_deleted h" "hp_next h' = Suc (hp_next h)"
    using new by (auto simp: new_object_def)
  ultimately show ?thesis by (simp only: heap_inv_def simp_thms not_False_eq_True)
qed

lemma delete_object_inv: "heap_inv live h \<Longrightarrow> x \<in> live \<Longrightarrow> heap_inv (live - {x}) (delete_object (Some x) h)"
  by (auto simp: heap_inv_def delete_object_def)

section \<open>Singleton\<close>

text \<open>\<open>ponce_\<close>, \<open>value_\<close>, and whether \<open>destroy\<close> was registered with atexit.\<close>

record singleton =
  sg_once :: bool
  sg_value :: "nat option"
  sg_atexit :: bool

definition new_singleton :: singleton where
  "new_singleton = \<lparr>sg_once = False, sg_value = None, sg_atexit = False\<rparr>"

definition singleton_init :: "bool \<Rightarrow> singleton \<Rightarrow> heap \<Rightarrow> singleton \<times> heap" where
  "singleton_init has_no_destroy s h =
     (let (x, h) = new_object h; s = s\<lparr>sg_value := Some x\<rparr>
      in (if \<not> has_no_destroy then s\<lparr>sg_atexit := True\<rparr> else s, h))"

text \<open>pthread_once runs \<open>init\<close> in the first call only.\<close>

definition singleton_instance :: "bool \<Rightarrow> singleton \<Rightarrow> heap \<Rightarrow> (nat \<times> singleton \<times> heap) res" where
  "singleton_instance has_no_destroy s h =
     (let (s, h) = (if sg_once s then (s, h) else singleton_init has_no_destroy (s\<lparr>sg_once := True\<rparr>) h)
      in case sg_value s of None \<Rightarrow> Inl Assert_failed | Some x \<Rightarrow> Inr (x, s, h))"

definition singleton_destroy :: "singleton \<Rightarrow> heap \<Rightarrow> singleton \<times> heap" where
  "singleton_destroy s h = (s\<lparr>sg_value := None\<rparr>, delete_object (sg_value s) h)"

fun instances :: "nat \<Rightarrow> bool \<Rightarrow> singleton \<Rightarrow> heap \<Rightarrow> (nat list \<times> singleton \<times> heap) res" where
  "instances 0 d s h = Inr ([], s, h)"
| "instances (Suc n) d s h = rbind (singleton_instance d s h) (\<lambda>(x, s, h). rbind (instances n d s h) (\<lambda>(xs, s, h). Inr (x # xs, s, h)))"

text \<open>All calls give one object, made by the first; \<open>destroy\<close> deletes it, and then no call succeeds any more.\<close>

lemma instances_after:
  "sg_once s \<Longrightarrow> sg_value s = Some x \<Longrightarrow> instances n d s h = Inr (replicate n x, s, h)"
  by (induction n) (simp_all add: singleton_instance_def)

lemma singleton_is_single:
  "\<exists>s. instances (Suc n) d new_singleton h = Inr (replicate (Suc n) (hp_next h), s, h\<lparr>hp_next := hp_next h + 1\<rparr>) \<and>
     (sg_atexit s \<longleftrightarrow> \<not> d) \<and> sg_once s \<and> sg_value s = Some (hp_next h)"
  by (simp add: singleton_instance_def singleton_init_def new_singleton_def new_object_def instances_after Let_def)

lemma destroyed_singleton_asserts:
  "sg_once s \<Longrightarrow> singleton_instance d (fst (singleton_destroy s h)) h' = Inl Assert_failed"
  by (simp add: singleton_instance_def singleton_destroy_def)

section \<open>ThreadLocal and ThreadLocalSingleton\<close>

text \<open>
  The value of the key in each thread. A ThreadLocalSingleton keeps the pointer in a variable of the
  thread and in a key as well, whose destructor deletes the object.
\<close>

type_synonym per_thread = "nat \<Rightarrow> nat option"

definition thread_local_value :: "nat \<Rightarrow> per_thread \<Rightarrow> heap \<Rightarrow> nat \<times> per_thread \<times> heap" where
  "thread_local_value t specific h =
     (case specific t of
        None \<Rightarrow> (let (newObj, h) = new_object h in (newObj, specific(t \<mapsto> newObj), h))
      | Some x \<Rightarrow> (x, specific, h))"

text \<open>When a thread ends, the library clears its value and calls the destructor with it.\<close>

definition thread_local_destructor :: "nat \<Rightarrow> per_thread \<Rightarrow> heap \<Rightarrow> per_thread \<times> heap" where
  "thread_local_destructor t specific h = (specific(t := None), delete_object (specific t) h)"

record tl_singleton =
  tls_value :: per_thread
  tls_specific :: per_thread

definition tls_instance :: "nat \<Rightarrow> tl_singleton \<Rightarrow> heap \<Rightarrow> (nat \<times> tl_singleton \<times> heap) res" where
  "tls_instance t s h =
     (case tls_value s t of
        None \<Rightarrow>
          (let (x, h) = new_object h; s = s\<lparr>tls_value := (tls_value s)(t \<mapsto> x)\<rparr>
           in assert_c (tls_specific s t = None) (Inr (x, s\<lparr>tls_specific := (tls_specific s)(t \<mapsto> x)\<rparr>, h)))
      | Some x \<Rightarrow> Inr (x, s, h))"

definition tls_pointer :: "nat \<Rightarrow> tl_singleton \<Rightarrow> nat option" where
  "tls_pointer t s = tls_value s t"

definition tls_thread_exit :: "nat \<Rightarrow> tl_singleton \<Rightarrow> heap \<Rightarrow> (tl_singleton \<times> heap) res" where
  "tls_thread_exit t s h =
     (case tls_specific s t of
        None \<Rightarrow> Inr (s, h)
      | Some obj \<Rightarrow>
          assert_c (Some obj = tls_value s t)
            (Inr (\<lparr>tls_value = (tls_value s)(t := None), tls_specific = (tls_specific s)(t := None)\<rparr>, delete_object (tls_value s t) h)))"

text \<open>Each thread has an object of its own, and the objects of ended threads are deleted, once.\<close>

definition live_objects :: "per_thread \<Rightarrow> nat set" where
  "live_objects specific = ran specific"

definition per_thread_inv :: "per_thread \<Rightarrow> heap \<Rightarrow> bool" where
  "per_thread_inv specific h \<longleftrightarrow> inj_on specific (dom specific) \<and> heap_inv (live_objects specific) h"

lemma per_thread_new:
  assumes inv: "per_thread_inv specific h" and n: "specific t = None" "new_object h = (x, h')"
  shows "per_thread_inv (specific(t \<mapsto> x)) h'"
proof -
  have x: "heap_inv (insert x (ran specific)) h'" "x \<notin> ran specific"
    using new_object_inv [OF _ n(2)] inv by (auto simp: per_thread_inv_def live_objects_def)
  have "inj_on (specific(t \<mapsto> x)) (insert t (dom specific))"
    using inv x(2) n(1) by (auto simp: per_thread_inv_def inj_on_def ran_def)
  then show ?thesis using x(1) n(1) by (simp add: per_thread_inv_def live_objects_def)
qed

lemma per_thread_exit:
  assumes inv: "per_thread_inv specific h"
  shows "per_thread_inv (specific(t := None)) (delete_object (specific t) h)"
proof (cases "specific t")
  case None
  then have "specific(t := None) = specific" by auto
  with None inv show ?thesis by (simp add: delete_object_def)
next
  case (Some x)
  have inj: "inj_on specific (dom specific)" using inv by (simp add: per_thread_inv_def)
  have "specific u \<noteq> Some x" if "u \<noteq> t" for u using inj Some that by (auto simp: inj_on_def dom_def)
  then have "ran (specific(t := None)) = ran specific - {x}" using Some by (auto simp: ran_def split: if_splits) (metis option.inject)
  moreover have "heap_inv (ran specific - {x}) (delete_object (Some x) h)"
    using inv Some by (intro delete_object_inv) (auto simp: per_thread_inv_def live_objects_def ran_def)
  moreover have "inj_on (specific(t := None)) (dom specific - {t})" using inj by (auto simp: inj_on_def)
  ultimately show ?thesis using Some by (simp add: per_thread_inv_def live_objects_def)
qed

lemma thread_local_inv:
  "per_thread_inv specific h \<Longrightarrow> thread_local_value t specific h = (x, specific', h') \<Longrightarrow> per_thread_inv specific' h' \<and> specific' t = Some x"
  by (cases "specific t") (auto simp: thread_local_value_def intro: per_thread_new split: prod.splits)

text \<open>The pointer and the key of a ThreadLocalSingleton agree, so neither assertion can fail.\<close>

lemma tls_instance_ok:
  assumes "tls_value s = tls_specific s" "per_thread_inv (tls_value s) h"
  shows "\<exists>x s' h'. tls_instance t s h = Inr (x, s', h') \<and> tls_value s' = tls_specific s' \<and> per_thread_inv (tls_value s') h' \<and> tls_pointer t s' = Some x"
  using assms per_thread_new [OF assms(2), of t]
  by (cases "tls_value s t") (auto simp: tls_instance_def tls_pointer_def split: prod.splits)

lemma tls_exit_ok:
  assumes "tls_value s = tls_specific s" "per_thread_inv (tls_value s) h"
  shows "\<exists>s' h'. tls_thread_exit t s h = Inr (s', h') \<and> tls_value s' = tls_specific s' \<and> per_thread_inv (tls_value s') h' \<and> tls_pointer t s' = None"
  using assms per_thread_exit [OF assms(2), of t]
  by (cases "tls_specific s t") (auto simp: tls_thread_exit_def tls_pointer_def)

section \<open>WeakCallback\<close>

text \<open>The function is called with the object if that still exists, and not otherwise.\<close>

definition weak_callback :: "(nat \<Rightarrow> 'a \<Rightarrow> 's \<Rightarrow> 's) \<Rightarrow> nat option \<Rightarrow> 'a \<Rightarrow> 's \<Rightarrow> 's" where
  "weak_callback func locked args s = (case locked of Some ptr \<Rightarrow> func ptr args s | None \<Rightarrow> s)"

definition lock_weak :: "nat \<Rightarrow> heap \<Rightarrow> nat option" where
  "lock_weak x h = (if x < hp_next h \<and> x \<notin> set (hp_deleted h) then Some x else None)"

lemma weak_callback_after_delete:
  "weak_callback f (lock_weak x (delete_object (Some x) h)) args s = s"
  by (simp add: weak_callback_def lock_weak_def delete_object_def)

lemma weak_callback_live:
  "heap_inv live h \<Longrightarrow> x \<in> live \<Longrightarrow> weak_callback f (lock_weak x h) args s = f x args s"
  by (auto simp: weak_callback_def lock_weak_def heap_inv_def)

section \<open>GzipFile\<close>

text \<open>A file is a handle or NULL. The files of the library that are closed are noted.\<close>

type_synonym gzip_file = "int option"

definition gzip_valid :: "gzip_file \<Rightarrow> bool" where
  "gzip_valid f \<longleftrightarrow> f \<noteq> None"

definition gzip_move :: "gzip_file \<Rightarrow> gzip_file \<times> gzip_file" where
  "gzip_move rhs = (rhs, None)"

definition gzip_swap :: "gzip_file \<Rightarrow> gzip_file \<Rightarrow> gzip_file \<times> gzip_file" where
  "gzip_swap f rhs = (rhs, f)"

definition gzip_assign :: "gzip_file \<Rightarrow> gzip_file \<Rightarrow> gzip_file \<times> gzip_file" where
  "gzip_assign f rhs = gzip_swap f rhs"

definition gzip_dtor :: "gzip_file \<Rightarrow> int list" where
  "gzip_dtor f = (case f of Some h \<Rightarrow> [h] | None \<Rightarrow> [])"

text \<open>Moving and assigning lose no handle: when both sides are gone, each was closed once.\<close>

lemma gzip_move_closes: "gzip_move rhs = (f, rhs') \<Longrightarrow> gzip_dtor f @ gzip_dtor rhs' = gzip_dtor rhs"
  by (auto simp: gzip_move_def gzip_dtor_def)

lemma gzip_assign_closes: "gzip_assign f rhs = (f', rhs') \<Longrightarrow> f' = rhs \<and> gzip_dtor rhs' @ gzip_dtor f' = gzip_dtor f @ gzip_dtor rhs"
  by (auto simp: gzip_assign_def gzip_swap_def)

text \<open>
  What zlib does with a handle is an argument. The four ways to open differ in the mode; each returns
  what gzopen returned, so a file is valid exactly when it was opened.
\<close>

record zlib =
  gzopen :: "char list \<Rightarrow> char list \<Rightarrow> int option"
  gzread :: "int option \<Rightarrow> int \<Rightarrow> int \<times> char list"
  gzwrite :: "int option \<Rightarrow> char list \<Rightarrow> int"
  gztell :: "int option \<Rightarrow> int"
  gzoffset :: "int option \<Rightarrow> int"
  gzbuffer :: "int option \<Rightarrow> int \<Rightarrow> int"

definition openForRead :: "zlib \<Rightarrow> char list \<Rightarrow> gzip_file" where
  "openForRead z filename = gzopen z (c_str filename) ''rbe''"

definition openForAppend :: "zlib \<Rightarrow> char list \<Rightarrow> gzip_file" where
  "openForAppend z filename = gzopen z (c_str filename) ''abe''"

definition openForWriteExclusive :: "zlib \<Rightarrow> char list \<Rightarrow> gzip_file" where
  "openForWriteExclusive z filename = gzopen z (c_str filename) ''wbxe''"

definition openForWriteTruncate :: "zlib \<Rightarrow> char list \<Rightarrow> gzip_file" where
  "openForWriteTruncate z filename = gzopen z (c_str filename) ''wbe''"

definition gzip_read :: "zlib \<Rightarrow> gzip_file \<Rightarrow> int \<Rightarrow> int \<times> char list" where
  "gzip_read z f len = gzread z f len"

definition gzip_write :: "zlib \<Rightarrow> gzip_file \<Rightarrow> char list \<Rightarrow> int" where
  "gzip_write z f buf = gzwrite z f buf"

definition gzip_tell :: "zlib \<Rightarrow> gzip_file \<Rightarrow> int" where
  "gzip_tell z f = gztell z f"

definition gzip_offset :: "zlib \<Rightarrow> gzip_file \<Rightarrow> int" where
  "gzip_offset z f = gzoffset z f"

definition gzip_setBuffer :: "zlib \<Rightarrow> gzip_file \<Rightarrow> int \<Rightarrow> bool" where
  "gzip_setBuffer z f n \<longleftrightarrow> gzbuffer z f n = 0"

text \<open>
  Opening a second file over a first one: the temporary takes the old handle and closes it, the new one is
  closed with the variable.
\<close>

lemma reopening_closes_both:
  assumes "gzip_assign f (openForAppend z name) = (f', temporary)"
  shows "gzip_dtor temporary = gzip_dtor f \<and> (gzip_valid f' \<longleftrightarrow> gzopen z (c_str name) ''abe'' \<noteq> None)"
  using assms by (auto simp: gzip_assign_def gzip_swap_def gzip_valid_def openForAppend_def)

end
