(* ===== verification/EventLoopThread.thy ===== *)
theory EventLoopThread
  imports EventLoop
begin

text \<open>
  net/EventLoopThread.cc: the thread that makes a loop and runs it, and the thread that starts it and waits
  for the loop, interleaved. A section under \<open>mutex_\<close> is one step; the loop itself is the one of
  EventLoop, with the steps of its run taken as they are there.
\<close>

section \<open>The state\<close>

text \<open>
  Where the new thread is: not started; before it publishes its loop; between that and \<open>loop()\<close>; in
  \<open>loop()\<close>; ended. Where the owner is: before \<open>startLoop\<close>; in it; waiting on \<open>cond_\<close>; back with the
  loop; in the join of the destructor; done.
\<close>

datatype thread_pc = Not_started | Created | Published | In_loop | Ended
datatype owner_pc = Owner_before | Testing | Waiting_loop | Has_loop | Joining | Joined

record loop_thread =
  lt_loop :: "event_loop option"
  lt_published :: bool
  lt_exiting :: bool
  lt_thread :: thread_pc
  lt_owner :: owner_pc

definition new_loop_thread :: loop_thread where
  "new_loop_thread = \<lparr>lt_loop = None, lt_published = False, lt_exiting = False, lt_thread = Not_started, lt_owner = Owner_before\<rparr>"

section \<open>The steps\<close>

definition startLoop_begin :: "loop_thread \<Rightarrow> loop_thread res" where
  "startLoop_begin t = assert_c (lt_thread t = Not_started) (Inr (t\<lparr>lt_thread := Created, lt_owner := Testing\<rparr>))"

definition startLoop_test :: "loop_thread \<Rightarrow> loop_thread" where
  "startLoop_test t = (if \<not> lt_published t then t\<lparr>lt_owner := Waiting_loop\<rparr> else t\<lparr>lt_owner := Has_loop\<rparr>)"

text \<open>\<open>threadFunc\<close>: the loop is made, published under the mutex with a notify, and run.\<close>

definition threadFunc_publish :: "nat \<Rightarrow> loop_thread \<Rightarrow> loop_thread res" where
  "threadFunc_publish tid t =
     rbind (new_event_loop tid None) (\<lambda>l.
     Inr (t\<lparr>lt_loop := Some l, lt_published := True, lt_thread := Published,
            lt_owner := (if lt_owner t = Waiting_loop then Testing else lt_owner t)\<rparr>))"

definition threadFunc_loop :: "nat \<Rightarrow> loop_thread \<Rightarrow> loop_thread res" where
  "threadFunc_loop tid t =
     (case lt_loop t of
        None \<Rightarrow> Inl Null_pointer
      | Some l \<Rightarrow> rbind (loop_enter tid l) (\<lambda>l. Inr (t\<lparr>lt_loop := Some l, lt_thread := In_loop\<rparr>)))"

text \<open>\<open>loop()\<close> returns when it has left its while; then the loop, a local variable, is destroyed.\<close>

definition threadFunc_end :: "loop_thread \<Rightarrow> loop_thread res" where
  "threadFunc_end t =
     (case lt_loop t of
        None \<Rightarrow> Inl Null_pointer
      | Some l \<Rightarrow> rbind (event_loop_dtor l) (\<lambda>_. Inr (t\<lparr>lt_loop := None, lt_thread := Ended\<rparr>)))"

text \<open>
  The destructor: \<open>loop_\<close> is NULL when no loop was ever published, and points to a destroyed loop when
  the thread has ended by itself; both are faults. Otherwise the loop is told to quit, and the join waits.
\<close>

definition loop_thread_dtor :: "loop_thread \<Rightarrow> loop_thread res" where
  "loop_thread_dtor t =
     (let t = t\<lparr>lt_exiting := True\<rparr>
      in if \<not> lt_published t then Inl Null_pointer
         else case lt_loop t of
             None \<Rightarrow> Inl Uninitialised
           | Some l \<Rightarrow> Inr (t\<lparr>lt_loop := Some (wakeup (l\<lparr>el_quit := True\<rparr>)), lt_owner := Joining\<rparr>))"

text \<open>A step of the owner, of the new thread, of the loop, or a wakeup of the owner for no reason.\<close>

inductive lt_step :: "nat \<Rightarrow> loop_thread \<Rightarrow> loop_thread \<Rightarrow> bool" for tid :: nat where
  start: "lt_owner t = Owner_before \<Longrightarrow> startLoop_begin t = Inr t' \<Longrightarrow> lt_step tid t t'"
| test: "lt_owner t = Testing \<Longrightarrow> lt_step tid t (startLoop_test t)"
| spurious: "lt_owner t = Waiting_loop \<Longrightarrow> lt_step tid t (t\<lparr>lt_owner := Testing\<rparr>)"
| publish: "lt_thread t = Created \<Longrightarrow> threadFunc_publish tid t = Inr t' \<Longrightarrow> lt_step tid t t'"
| loop: "lt_thread t = Published \<Longrightarrow> threadFunc_loop tid t = Inr t' \<Longrightarrow> lt_step tid t t'"
| loop_runs: "lt_thread t = In_loop \<Longrightarrow> lt_loop t = Some l \<Longrightarrow> el_pc l \<noteq> Stopped \<Longrightarrow> loop_step l l' \<Longrightarrow> lt_step tid t (t\<lparr>lt_loop := Some l'\<rparr>)"
| loop_ends: "lt_thread t = In_loop \<Longrightarrow> lt_loop t = Some l \<Longrightarrow> el_pc l = Stopped \<Longrightarrow> threadFunc_end t = Inr t' \<Longrightarrow> lt_step tid t t'"
| destroy: "lt_owner t = Has_loop \<Longrightarrow> loop_thread_dtor t = Inr t' \<Longrightarrow> lt_step tid t t'"
| join: "lt_owner t = Joining \<Longrightarrow> lt_thread t = Ended \<Longrightarrow> lt_step tid t (t\<lparr>lt_owner := Joined\<rparr>)"

section \<open>The owner gets the loop\<close>

definition lt_inv :: "nat \<Rightarrow> loop_thread \<Rightarrow> bool" where
  "lt_inv tid t \<longleftrightarrow>
     (lt_published t \<longleftrightarrow> lt_thread t \<in> {Published, In_loop, Ended}) \<and>
     (lt_thread t = Not_started \<longleftrightarrow> lt_owner t = Owner_before) \<and>
     (lt_owner t = Waiting_loop \<longrightarrow> \<not> lt_published t) \<and>
     (lt_owner t \<in> {Has_loop, Joining, Joined} \<longrightarrow> lt_published t) \<and>
     (lt_loop t \<noteq> None \<longleftrightarrow> lt_thread t \<in> {Published, In_loop}) \<and>
     (\<forall>l. lt_loop t = Some l \<longrightarrow> el_threadId l = tid \<and> (lt_thread t = Published \<longrightarrow> \<not> el_looping l) \<and>
        (lt_thread t = In_loop \<longrightarrow> (el_pc l = Stopped \<longleftrightarrow> \<not> el_looping l) \<and> el_pc l \<noteq> Before))"

lemma queueInLoop_here_keeps:
  "el_threadId (queueInLoop_here f l) = el_threadId l \<and> el_pc (queueInLoop_here f l) = el_pc l \<and> el_looping (queueInLoop_here f l) = el_looping l"
  by (simp add: queueInLoop_here_def queue_push_def wakeup_def Let_def)

lemma loop_step_keeps:
  assumes "loop_step l l'" "el_pc l \<noteq> Stopped" "el_pc l \<noteq> Before" "el_looping l"
  shows "el_threadId l' = el_threadId l \<and> (el_pc l' = Stopped \<longleftrightarrow> \<not> el_looping l') \<and> el_pc l' \<noteq> Before"
  using assms
  by (cases rule: loop_step.cases)
    (auto simp: el_handleRead_def queueInLoop_here_keeps queue_push_def wakeup_def pending_begin_def
      pending_swap_def pending_run_def pending_end_def loop_test_def split: if_splits)

lemma lt_inv_init: "lt_inv tid new_loop_thread"
  by (simp add: lt_inv_def new_loop_thread_def)

lemma lt_inv_step:
  assumes inv: "lt_inv tid t" and step: "lt_step tid t t'"
  shows "lt_inv tid t'"
  using step
proof cases
  case start
  with inv show ?thesis by (auto simp: lt_inv_def startLoop_begin_def assert_c_def split: if_splits)
next
  case test
  with inv show ?thesis by (auto simp: lt_inv_def startLoop_test_def)
next
  case spurious
  with inv show ?thesis by (auto simp: lt_inv_def)
next
  case publish
  with inv show ?thesis
    by (cases "lt_owner t = Waiting_loop") (auto simp: lt_inv_def threadFunc_publish_def new_event_loop_def)
next
  case loop
  with inv show ?thesis
    by (auto simp: lt_inv_def threadFunc_loop_def loop_enter_def assert_c_def assertInLoopThread_def isInLoopThread_def rbind_Inr_iff split: if_splits option.splits)
next
  case (loop_runs l l')
  with inv have "el_threadId l = tid" "el_looping l" "el_pc l \<noteq> Before" by (auto simp: lt_inv_def)
  with loop_runs loop_step_keeps [of l l'] inv show ?thesis by (auto simp: lt_inv_def)
next
  case (loop_ends l)
  with inv show ?thesis by (auto simp: lt_inv_def threadFunc_end_def rbind_Inr_iff)
next
  case destroy
  with inv show ?thesis by (auto simp: lt_inv_def loop_thread_dtor_def wakeup_def Let_def split: if_splits option.splits)
next
  case join
  with inv show ?thesis by (auto simp: lt_inv_def)
qed

interpretation loop_thread: invariant_system "\<lambda>t. t = new_loop_thread" "lt_step tid" "lt_inv tid" for tid
  by unfold_locales (auto simp: lt_inv_init intro: lt_inv_step)

text \<open>\<open>startLoop\<close> returns the loop of the new thread, never NULL, and the owner does not wait once it is there.\<close>

lemma startLoop_gets_loop:
  assumes "reach (\<lambda>t. t = new_loop_thread) (lt_step tid) t"
  shows "lt_owner t = Has_loop \<Longrightarrow> lt_published t" and "lt_owner t = Waiting_loop \<Longrightarrow> lt_loop t = None"
    and "lt_thread t \<in> {Published, In_loop} \<Longrightarrow> \<exists>l. lt_loop t = Some l \<and> el_threadId l = tid"
  using loop_thread.reachable_inv [OF assms] by (auto simp: lt_inv_def)

text \<open>None of the steps that can be due is refused: the loop is entered and left in its own thread, once.\<close>

lemma loop_thread_no_fault:
  assumes "reach (\<lambda>t. t = new_loop_thread) (lt_step tid) t"
  shows "lt_thread t = Published \<Longrightarrow> \<exists>t'. threadFunc_loop tid t = Inr t'"
    and "lt_thread t = In_loop \<Longrightarrow> lt_loop t = Some l \<Longrightarrow> el_pc l = Stopped \<Longrightarrow> \<exists>t'. threadFunc_end t = Inr t'"
  using loop_thread.reachable_inv [OF assms]
  by (auto simp: lt_inv_def threadFunc_loop_def loop_enter_def assertInLoopThread_def isInLoopThread_def threadFunc_end_def event_loop_dtor_def)

section \<open>The destructor\<close>

text \<open>
  Destroyed without having been started, the object follows a null pointer; destroyed after the loop has
  ended by itself, it uses a loop that is gone; destroyed before the new thread has entered \<open>loop()\<close>,
  its quit is forgotten and the join does not return unless somebody else ends the loop.
\<close>

lemma never_started_dtor: "loop_thread_dtor new_loop_thread = Inl Null_pointer"
  by (simp add: loop_thread_dtor_def new_loop_thread_def)

lemma ended_loop_dtor:
  assumes "reach (\<lambda>t. t = new_loop_thread) (lt_step tid) t" "lt_thread t = Ended"
  shows "loop_thread_dtor t = Inl Uninitialised"
  using loop_thread.reachable_inv [OF assms(1)] assms(2) by (auto simp: lt_inv_def loop_thread_dtor_def)

lemma early_quit_forgotten:
  assumes "reach (\<lambda>t. t = new_loop_thread) (lt_step tid) t" "lt_thread t = Published" "loop_thread_dtor t = Inr t'"
  shows "\<exists>t'' l. threadFunc_loop tid t' = Inr t'' \<and> lt_loop t'' = Some l \<and> \<not> el_quit l \<and> el_pc l = Polling \<and> lt_owner t'' = Joining"
  using loop_thread.reachable_inv [OF assms(1)] assms(2,3)
  by (auto simp: lt_inv_def loop_thread_dtor_def threadFunc_loop_def loop_enter_def assertInLoopThread_def isInLoopThread_def wakeup_def
      Let_def split: if_splits option.splits)

end
