(* ===== verification/Spec2Isabelle.thy ===== *)
theory Spec2Isabelle
  imports SiteMain Reactor Exceptions RequestTypes TcpServer TcpClient TimerQueue AsyncLogging Mutex ThreadPool Thread ProcessInfo Singletons EventLoopThread
begin

text \<open>
  \<^bold>\<open>A model of an HTTP server on the muduo network library\<close>

  The program (src/http, src/net, src/base) is an event-driven HTTP/1.x server. A \<open>TcpServer\<close> accepts
  connections and spreads them over a pool of event loops; each \<open>TcpConnection\<close> keeps an input and an
  output \<open>Buffer\<close>; \<open>HttpServer\<close> parses the input with an \<open>HttpContext\<close>, answers from static files, or
  passes the request to a FastCGI application over one client connection; a timer kicks out idle
  connections. Below that are the poller, the timers, the logger and the thread library.

  \<^bold>\<open>Conventions.\<close> A definition has the name of the function it models, with the class as a prefix where
  two classes share it. A class is a record, an enum a datatype, an object owned by another a field of its record.
  A function that can fail returns \<open>fault + 'a\<close> (theory Prelude): a failing assert, a throw of the standard library, a read
  of an uninitialised variable, an access outside an object, a null pointer or a fatal log message is
  the value \<open>Inl\<close>, so that every theorem that states \<open>Inr\<close> states its absence. The asserts are modelled
  although the build defines NDEBUG: a property that excludes \<open>Assert_failed\<close> excludes the state the
  assert guards against, and one that proves it shows that the state is reached. The build also defines CONNRM. Integers are words
  where the code relies on their width (buffers' integers, descriptors' events, ids, atomic counters) and
  int or nat with the conversions written out elsewhere. std::string is a list of characters, std::map the
  sorted association list of Containers. What the kernel and libraries outside src/ answer (read, write,
  poll, accept, stat, time, zlib, snprintf of a double) is an argument of the definitions.

  \<^bold>\<open>The theories and the code.\<close>

  \<^item> Prelude, CText, Containers: faults, searches in character ranges, printing and reading of numbers, std::map
    behind the interface \<open>ordered_store\<close>, and step relations behind the interface \<open>invariant_system\<close>, which
    every component with a step relation interprets on its own model.
  \<^item> Timestamps, Calendar, TimeZone: base/Timestamp, base/Date, base/TimeZone. The Gregorian calendar as
    computed by the code is shown to be the calendar, UTC times round trip (for times within \<open>10 ^ 14\<close> seconds of
    the epoch, where the int arithmetic of the code does not overflow), and a zone file is read into the
    zone whose local time is that of its last transition.
  \<^item> NetBuffer, Endian: net/Buffer, net/Endian. The buffer with its indices refines a byte queue; integers in
    network order round trip; readFd appends what was read, through its 65536 bytes on the stack or not.
  \<^item> HttpRequest, HttpContext, RequestTypes, HttpResponse: http/HttpRequest, http/HttpContext, http/HttpResponse. The parser loop on the
    buffer implements the parser on plain text; it returns unless it is called again after a complete
    request; fragments parse as the whole; a rendered request parses back; what it completes is
    well-formed; the bytes of a response parse back into it.
  \<^item> StaticFile, FastCgi: http/StaticFile with the handler of http/bin/muduo_server.cc, http/FastCgi. Which files are served;
    the requests a FastCGI decoder reads back, and the replies.
  \<^item> HttpServer: http/HttpServer. One request and its response from bytes to bytes, the bridge to the application,
    and the list of connections, which stays in the order of their last message, so that the timer finds every idle
    connection. The function is modelled with all loops in one thread, as it runs with no I/O threads.
    The loop over the application's records takes fuel; one unit for each 8 bytes in the buffer is enough,
    since each record takes its header (\<open>cgi_fuel_enough\<close>).
  \<^item> WebSite, SiteMain: the composition. A request for a file of the site, from its bytes on a connection
    to the bytes of the file read back by a client; a conversation, whose answers go out whole and in the order of the
    requests; main() of http/bin/muduo_server.cc with the constructor and the start of
    HttpServer over its TcpServer, TcpClient and timers, up to the loop.
  \<^item> Poller: net/Poller and net/Channel. The table of descriptors and the vector handed to poll agree, so no
    assertion of either fails, and poll reports exactly the ready channels.
  \<^item> EventLoop, EventLoopThread: net/EventLoop, net/EventLoopThreadPool, net/EventLoopThread. Loop thread and other
    threads interleaved statement by statement: functors run in order, no wakeup is lost; the owner of a loop
    thread gets its loop.
  \<^item> Reactor: the callbacks of a connection as Channel::handleEvent calls them, and one round of EventLoop::loop: poll
    and the dispatch of the active channels. One event closes a connection at most once and never takes back output; a round
    serves exactly the ready connections, each as its event alone would.
  \<^item> TimerQueue: net/TimerQueue, net/Timer, net/TimerId. The timerfd is always set for the earliest timer; what is due fires, and
    only that; cancelled timers do not come back.
  \<^item> TcpConnection, TcpServer, Sockets, Connector, TcpClient: the files of these names in net/, with net/Acceptor, net/InetAddress, net/Socket and net/SocketsOps.
    The bytes given to send reach the wire in order; a shutdown completes when the output is written; a connection is
    established and destroyed once, in its own loop; the connector retries with a bounded delay and hands over at
    most one connection.
  \<^item> LogStream, Logging, LogFile, AsyncLogging: base/LogStream, base/Logging, base/LogFile, the \<open>AppendFile\<close> of base/FileUtil and
    base/AsyncLogging. A stream keeps whole items within its bytes; the text of a message and of the statements of the logging macros; the rolling of files; the
    log is complete and in order unless buffers were dropped.
  \<^item> Mutex, BlockingQueue, ThreadPool, Thread, Singletons: base/Mutex and base/Condition, base/BlockingQueue, base/BoundedBlockingQueue and
    base/CountDownLatch, base/ThreadPool, base/Thread with base/CurrentThread and base/Atomic, and the small owners
    base/Singleton, base/ThreadLocal, base/ThreadLocalSingleton, base/WeakCallback and base/GzipFile. Mutual exclusion; queues are first-in first-out,
    bounded, and lose no wakeup; a pool runs each task once, and its workers end after stop.
  \<^item> StringPiece, SmallFile, ProcessInfo, Exceptions: base/Exception with the casts of base/Types.h, base/StringPiece, the \<open>ReadSmallFile\<close> of base/FileUtil, base/ProcessInfo. Views compare as the
    strings they show; a small file is read whole however the calls of read cut it; what is found in the
    files under /proc.

  \<^bold>\<open>Threads.\<close> Mutex shows that two threads are never in the sections of one mutex at once. The other theories
  therefore take a section, up to a wait on a condition, as one step. EventLoop, AsyncLogging, BlockingQueue,
  ThreadPool and EventLoopThread interleave the steps of any number of threads; which waiting thread a notify
  wakes is an argument, and a thread may wake for no reason. The C++ memory model is not modelled: a
  variable read without a mutex (\<open>running_\<close>, \<open>quit_\<close>) is read in the step of the statement that reads it.

  \<^bold>\<open>Bounds.\<close> The names of connections assume fewer than \<open>2 ^ 31 - 1\<close> of them in a server; the lengths of FastCGI
  parameters are below \<open>2 ^ 31\<close>; the size of a small file is an int. Each such bound is a hypothesis of the theorem that needs it.

  \<^bold>\<open>Not modelled.\<close> The programs under net/test and base/tests, which only
  put the parts together; the output to the console; what backtrace, zlib and snprintf of a double answer (arguments);
  base/copyable.h, base/noncopyable.h and net/Callbacks.h, which hold types
  only; the VALGRIND and NO_ACCEPT4 variants of net/SocketsOps.cc. The lifetime of a connection held by shared pointers is modelled where the code
  tests it (weak pointers, the guard of destroyed connections), not as reference counts.
\<close>

end
